(* ===== verification/Prelude.thy ===== *)
theory Prelude
  imports Main "HOL-Library.Word"
begin

text \<open>
  Shared vocabulary of the development: the machine's integer types, the result type of kernel
  code, and the generic lemmas on words, lists and results that the component theories use.
\<close>

unbundle bit_operations_syntax

section \<open>Machine integers\<close>

text \<open>\<^verbatim>\<open>types.h\<close>: \<open>uint\<close>, \<open>ushort\<close> and \<open>uchar\<close> are the unsigned C types; a pointer is a \<open>uint\<close>.\<close>

type_synonym uint = "32 word"
type_synonym ushort = "16 word"
type_synonym uchar = "8 word"

text \<open>\<^verbatim>\<open>fcntl.h\<close>: the modes of \<open>open\<close>, which the kernel and the user programs share.\<close>

definition O_RDONLY :: uint where "O_RDONLY = 0x000"
definition O_WRONLY :: uint where "O_WRONLY = 0x001"
definition O_RDWR :: uint where "O_RDWR = 0x002"
definition O_CREATE :: uint where "O_CREATE = 0x200"

section \<open>Results of kernel code\<close>

text \<open>
  A C function either returns, calls \<open>panic\<close> (which stops the machine), runs into undefined
  behaviour (a null or wild pointer is dereferenced, an array is indexed out of range), or never
  comes back on its own: it spins or sleeps until another CPU, process or device acts.
\<close>

datatype 'a outcome = Ret 'a | Panic string | Undef string | Diverge

primrec andthen :: "'a outcome \<Rightarrow> ('a \<Rightarrow> 'b outcome) \<Rightarrow> 'b outcome" where
  "andthen (Ret x) f = f x"
| "andthen (Panic e) f = Panic e"
| "andthen (Undef e) f = Undef e"
| "andthen Diverge f = Diverge"

primrec returns :: "'a outcome \<Rightarrow> bool" where
  "returns (Ret x) = True"
| "returns (Panic e) = False"
| "returns (Undef e) = False"
| "returns Diverge = False"

lemma andthen_Ret_iff: "andthen m f = Ret y \<longleftrightarrow> (\<exists>x. m = Ret x \<and> f x = Ret y)"
  by (cases m) auto

lemma andthen_RetE:
  assumes "andthen m f = Ret y"
  obtains x where "m = Ret x" and "f x = Ret y"
  using assms by (auto simp: andthen_Ret_iff)

lemma andthen_assoc: "andthen (andthen m f) g = andthen m (\<lambda>x. andthen (f x) g)"
  by (cases m) auto

lemma andthen_eqI: "(\<And>x. m = Ret x \<Longrightarrow> f x = g x) \<Longrightarrow> andthen m f = andthen m g"
  by (cases m) auto

lemma returns_iff: "returns m \<longleftrightarrow> (\<exists>x. m = Ret x)"
  by (cases m) auto

text \<open>
  \<open>runs m Q\<close> is total correctness: \<open>m\<close> returns, and what it returns satisfies \<open>Q\<close>.  It is
  computed along the sequence of calls.
\<close>

primrec runs :: "'a outcome \<Rightarrow> ('a \<Rightarrow> bool) \<Rightarrow> bool" where
  "runs (Ret x) Q = Q x"
| "runs (Panic e) Q = False"
| "runs (Undef e) Q = False"
| "runs Diverge Q = False"

lemma runs_iff: "runs m Q \<longleftrightarrow> (\<exists>x. m = Ret x \<and> Q x)"
  by (cases m) auto

lemma runs_andthen [simp]: "runs (andthen m f) Q \<longleftrightarrow> runs m (\<lambda>x. runs (f x) Q)"
  by (cases m) auto

lemma runs_mono: "runs m P \<Longrightarrow> (\<And>x. P x \<Longrightarrow> Q x) \<Longrightarrow> runs m Q"
  by (auto simp: runs_iff)

lemma runs_conj: "runs m P \<Longrightarrow> runs m Q \<Longrightarrow> runs m (\<lambda>x. P x \<and> Q x)"
  by (auto simp: runs_iff)

lemma runsE:
  assumes "runs m Q"
  obtains x where "m = Ret x" and "Q x"
  using assms by (auto simp: runs_iff)

section \<open>Words\<close>

named_theorems unat_facts \<open>reading sums, differences and masks of words as natural numbers\<close>

lemma unat_add_nat [unat_facts]:
  "unat (a::uint) + n < 2 ^ 32 \<Longrightarrow> unat (a + of_nat n) = unat a + n"
  by (simp add: unat_word_ariths unat_of_nat)

lemma unat_add_uint [unat_facts]:
  "unat (a::uint) + unat b < 2 ^ 32 \<Longrightarrow> unat (a + b) = unat a + unat b"
  by (simp add: unat_word_ariths)

lemma unat_sub_uint [unat_facts]:
  "(b::uint) \<le> a \<Longrightarrow> unat (a - b) = unat a - unat b"
  by (simp add: unat_sub_if_size word_le_nat_alt)

lemma unat_uint_less [simp]: "unat (a::uint) < 4294967296"
  using unsigned_less [of a] by simp

lemma unat_sub_wrap:
  "unat ((a::uint) - b) = (if unat b \<le> unat a then unat a - unat b else unat a + 4294967296 - unat b)"
  by (simp add: unat_sub_if_size word_size)

lemma uint_eq_iff_unat: "(a::uint) = b \<longleftrightarrow> unat a = unat b"
  by (simp add: word_unat_eq_iff)

lemma unat_and_mask: "unat ((a::'n::len word) AND mask k) = unat a mod 2 ^ k"
proof -
  have "unat (take_bit k a) = take_bit k (unat a)"
    by (simp add: unsigned_take_bit_eq)
  then show ?thesis
    by (simp add: take_bit_eq_mask take_bit_eq_mod [of k "unat a"] flip: take_bit_eq_mod)
qed

lemma and_not_mask: "(a::'n::len word) AND NOT (mask k) = a - (a AND mask k)"
proof -
  have "(a AND NOT (mask k)) + (a AND mask k) = (a AND NOT (mask k)) OR (a AND mask k)"
    by (rule disjunctive_add) (simp add: bit_simps)
  also have "\<dots> = a"
    by (rule bit_word_eqI) (auto simp: bit_simps)
  finally show ?thesis by (simp add: eq_diff_eq)
qed

lemma unat_and_not_mask: "unat ((a::'n::len word) AND NOT (mask k)) = unat a div 2 ^ k * 2 ^ k"
proof -
  have "(a AND mask k) \<le> a"
    by (simp add: word_le_nat_alt unat_and_mask)
  then have "unat (a AND NOT (mask k)) = unat a - unat (a AND mask k)"
    by (simp add: and_not_mask unat_sub)
  then show ?thesis
    by (simp add: unat_and_mask minus_mod_eq_div_mult)
qed

lemma or_eq_add: "(a::'n::len word) AND b = 0 \<Longrightarrow> a OR b = a + b"
  by (rule disjunctive_add [symmetric]) (metis bit_and_iff bit_0_eq bot_apply bot_bool_def)

section \<open>Lists\<close>

lemma nth_append_take_drop:
  "i < length xs \<Longrightarrow> take i xs @ v # drop (Suc i) xs = xs[i := v]"
  by (simp add: upd_conv_take_nth_drop)

lemma find_first_index:
  assumes "i < length xs" and "P (xs ! i)"
  obtains k where "k \<le> i" and "P (xs ! k)" and "\<forall>j<k. \<not> P (xs ! j)"
proof -
  define k where "k = (LEAST j. P (xs ! j))"
  have "P (xs ! k)" unfolding k_def using assms(2) by (rule LeastI)
  moreover have "k \<le> i" unfolding k_def using assms(2) by (rule Least_le)
  moreover have "\<forall>j<k. \<not> P (xs ! j)" unfolding k_def using not_less_Least by blast
  ultimately show thesis using that by blast
qed

end
