(* ===== verification/Memory.thy ===== *)
theory Memory
  imports Prelude
begin

text \<open>
  Kernel memory and the block operations of \<^verbatim>\<open>string.c\<close>.  Memory is a map from kernel virtual
  addresses to bytes; a 32-bit word is stored little-endian, as the x86 does.  The theory models
  \<open>memset\<close> with the string instructions of \<^verbatim>\<open>x86.h\<close> it is built on, \<open>memmove\<close> with its two copy
  directions, and \<open>memcmp\<close>; it shows that each meets its closed specification and gives the frame
  lemmas for words and pages that the allocator and the page tables use.
\<close>

unbundle bit_operations_syntax

section \<open>Bytes and words\<close>

type_synonym memory = "uint \<Rightarrow> uchar"

definition ld32 :: "memory \<Rightarrow> uint \<Rightarrow> uint" where
  "ld32 m a = ucast (m a) OR push_bit 8 (ucast (m (a + 1)))
     OR push_bit 16 (ucast (m (a + 2))) OR push_bit 24 (ucast (m (a + 3)))"

definition st32 :: "memory \<Rightarrow> uint \<Rightarrow> uint \<Rightarrow> memory" where
  "st32 m a v = m(a := ucast v, a + 1 := ucast (drop_bit 8 v),
     a + 2 := ucast (drop_bit 16 v), a + 3 := ucast (drop_bit 24 v))"

section \<open>The string instructions of x86.h\<close>

text \<open>\<open>rep stosb\<close> and \<open>rep stosl\<close>: store \<open>cnt\<close> bytes or words from \<open>addr\<close> upwards.\<close>

fun stosb :: "memory \<Rightarrow> uint \<Rightarrow> uchar \<Rightarrow> nat \<Rightarrow> memory" where
  "stosb m addr data 0 = m"
| "stosb m addr data (Suc cnt) = stosb (m(addr := data)) (addr + 1) data cnt"

fun stosl :: "memory \<Rightarrow> uint \<Rightarrow> uint \<Rightarrow> nat \<Rightarrow> memory" where
  "stosl m addr data 0 = m"
| "stosl m addr data (Suc cnt) = stosl (st32 m addr data) (addr + 4) data cnt"

section \<open>memset, memcmp and memmove\<close>

definition memset :: "memory \<Rightarrow> uint \<Rightarrow> uint \<Rightarrow> uint \<Rightarrow> memory" where
  "memset m dst c n =
     (if dst mod 4 = 0 \<and> n mod 4 = 0 then
        let c = c AND 0xFF in
        stosl m dst (push_bit 24 c OR push_bit 16 c OR push_bit 8 c OR c) (unat (n div 4))
      else stosb m dst (ucast c) (unat n))"

fun memcmp_loop :: "memory \<Rightarrow> uint \<Rightarrow> uint \<Rightarrow> nat \<Rightarrow> int" where
  "memcmp_loop m s1 s2 0 = 0"
| "memcmp_loop m s1 s2 (Suc n) =
     (if m s1 \<noteq> m s2 then uint (m s1) - uint (m s2)
      else memcmp_loop m (s1 + 1) (s2 + 1) n)"

definition memcmp :: "memory \<Rightarrow> uint \<Rightarrow> uint \<Rightarrow> uint \<Rightarrow> int" where
  "memcmp m v1 v2 n = memcmp_loop m v1 v2 (unat n)"

fun memmove_up :: "memory \<Rightarrow> uint \<Rightarrow> uint \<Rightarrow> nat \<Rightarrow> memory" where
  "memmove_up m d s 0 = m"
| "memmove_up m d s (Suc n) = memmove_up (m(d := m s)) (d + 1) (s + 1) n"

fun memmove_down :: "memory \<Rightarrow> uint \<Rightarrow> uint \<Rightarrow> nat \<Rightarrow> memory" where
  "memmove_down m d s 0 = m"
| "memmove_down m d s (Suc n) = memmove_down (m(d - 1 := m (s - 1))) (d - 1) (s - 1) n"

definition memmove :: "memory \<Rightarrow> uint \<Rightarrow> uint \<Rightarrow> uint \<Rightarrow> memory" where
  "memmove m dst src n =
     (if src < dst \<and> src + n > dst then memmove_down m (dst + n) (src + n) (unat n)
      else memmove_up m dst src (unat n))"

section \<open>Words of memory\<close>

lemma add_small_neq [simp]:
  "(a::uint) + 1 \<noteq> a" "a + 2 \<noteq> a" "a + 3 \<noteq> a" "a \<noteq> a + 1" "a \<noteq> a + 2" "a \<noteq> a + 3"
  by simp_all

lemma ld32_cong:
  "m a = m' a \<Longrightarrow> m (a + 1) = m' (a + 1) \<Longrightarrow> m (a + 2) = m' (a + 2) \<Longrightarrow> m (a + 3) = m' (a + 3)
   \<Longrightarrow> ld32 m a = ld32 m' a"
  by (simp add: ld32_def)

lemma st32_apply:
  "st32 m a v x = (if x = a + 3 then ucast (drop_bit 24 v) else if x = a + 2 then ucast (drop_bit 16 v)
     else if x = a + 1 then ucast (drop_bit 8 v) else if x = a then ucast v else m x)"
  by (simp add: st32_def)

lemma ld32_st32_same [simp]: "ld32 (st32 m a v) a = v"
proof (rule bit_word_eqI)
  fix n assume "n < LENGTH(32)"
  then consider "n < 8" | "8 \<le> n" "n < 16" | "16 \<le> n" "n < 24" | "24 \<le> n" "n < 32"
    by force
  then show "bit (ld32 (st32 m a v) a) n \<longleftrightarrow> bit v n"
    by cases (auto simp: ld32_def st32_def bit_simps)
qed

definition aligned :: "nat \<Rightarrow> uint \<Rightarrow> bool" where
  "aligned k a \<longleftrightarrow> unat a mod k = 0"

lemma unat_add_lt4:
  assumes "aligned 4 a"
  shows "unat (a + 1) = unat a + 1" "unat (a + 2) = unat a + 2" "unat (a + 3) = unat a + 3"
proof -
  have b: "unat a + 3 < 4294967296"
    using assms unat_uint_less [of a] unfolding aligned_def by presburger
  then show "unat (a + 1) = unat a + 1" "unat (a + 2) = unat a + 2" "unat (a + 3) = unat a + 3"
    using unat_add_nat [of a 1] unat_add_nat [of a 2] unat_add_nat [of a 3] by simp_all
qed

lemma st32_other:
  assumes "aligned 4 a" and "unat (x::uint) div 4 \<noteq> unat a div 4"
  shows "st32 m a v x = m x"
proof -
  have "x \<noteq> a" "x \<noteq> a + 1" "x \<noteq> a + 2" "x \<noteq> a + 3"
    using assms unat_add_lt4 [OF assms(1)] unfolding aligned_def by auto
  then show ?thesis by (simp add: st32_def)
qed

lemma aligned_4_eq: "aligned 4 a \<Longrightarrow> unat a = 4 * (unat a div 4)"
  unfolding aligned_def by (metis add.right_neutral mult_div_mod_eq)

lemma ld32_cong_div4:
  assumes "aligned 4 a" and "\<And>x::uint. unat x div 4 = unat a div 4 \<Longrightarrow> m x = m' x"
  shows "ld32 m a = ld32 m' a"
proof -
  obtain q where q: "unat a = 4 * q"
    using aligned_4_eq [OF assms(1)] by blast
  then have "unat (a + 1) = 4 * q + 1" "unat (a + 2) = 4 * q + 2" "unat (a + 3) = 4 * q + 3"
    by (simp_all add: unat_add_lt4 [OF assms(1)])
  with q show ?thesis by (intro ld32_cong assms(2)) simp_all
qed

lemma ld32_st32_other:
  assumes "aligned 4 a" and "aligned 4 b" and "a \<noteq> b"
  shows "ld32 (st32 m b v) a = ld32 m a"
proof (rule ld32_cong_div4 [OF assms(1)])
  fix x :: uint assume x: "unat x div 4 = unat a div 4"
  have "unat a div 4 \<noteq> unat b div 4"
    using aligned_4_eq [OF assms(1)] aligned_4_eq [OF assms(2)] assms(3) by (metis uint_eq_iff_unat)
  with x show "st32 m b v x = m x" by (intro st32_other assms(2)) simp
qed

section \<open>Block operations in closed form\<close>

lemma unat_sub_Suc:
  assumes "(x::uint) \<noteq> a"
  shows "unat (x - a) = Suc (unat (x - (a + 1)))"
proof -
  have "x - a \<noteq> 0" using assms by simp
  then have "unat (x - a - 1) = unat (x - a) - 1" and "0 < unat (x - a)"
    by (simp_all add: unat_minus_one unat_gt_0)
  then show ?thesis by (simp add: diff_diff_eq)
qed

lemma stosb_closed:
  "n \<le> 2 ^ 32 \<Longrightarrow> stosb m a d n = (\<lambda>x. if unat (x - a) < n then d else m x)"
proof (induction n arbitrary: m a)
  case 0
  then show ?case by simp
next
  case (Suc n)
  show ?case
  proof
    fix x
    have "unat (x - (a + 1)) = 4294967295" if "x = a"
      using that by (simp add: unsigned_minus_1_eq_mask mask_eq_exp_minus_1)
    then show "stosb m a d (Suc n) x = (if unat (x - a) < Suc n then d else m x)"
      using Suc unat_sub_Suc [of x a] by (cases "x = a") auto
  qed
qed

lemma stosl_pattern:
  "stosl m a (push_bit 24 c OR push_bit 16 c OR push_bit 8 c OR c) n = stosb m a (ucast c) (4 * n)"
  if "c = c AND 0xFF" for c :: uint
proof (induction n arbitrary: m a)
  case 0
  then show ?case by simp
next
  case (Suc n)
  have hi: "\<not> bit c k" if "8 \<le> k" for k
  proof
    assume "bit c k"
    then have "bit (c AND mask 8) k" using \<open>c = c AND 0xFF\<close> by (simp add: mask_eq_exp_minus_1)
    with that show False by (simp add: bit_simps)
  qed
  let ?w = "push_bit 24 c OR push_bit 16 c OR push_bit 8 c OR c"
  have "(ucast ?w :: uchar) = ucast c" "(ucast (drop_bit 8 ?w) :: uchar) = ucast c"
    "(ucast (drop_bit 16 ?w) :: uchar) = ucast c" "(ucast (drop_bit 24 ?w) :: uchar) = ucast c"
    by (rule bit_word_eqI; auto simp: bit_simps hi)+
  then have "st32 m a ?w = m(a := ucast c, a + 1 := ucast c, a + 2 := ucast c, a + 3 := ucast c)"
    by (simp add: st32_def)
  moreover have "4 * Suc n = Suc (Suc (Suc (Suc (4 * n))))" by simp
  moreover have "a + 1 + 1 = a + 2" "a + 2 + 1 = a + 3" "a + 3 + 1 = a + 4" by simp_all
  ultimately show ?case
    by (simp only: stosl.simps stosb.simps Suc.IH)
qed

lemma memset_closed:
  "memset m dst c n = (\<lambda>x. if x - dst < n then ucast c else m x)"
proof (cases "dst mod 4 = 0 \<and> n mod 4 = 0")
  case True
  then have "unat n mod 4 = 0"
    using unat_mod [of n 4] by simp
  then have n4: "4 * unat (n div 4) = unat n"
    by (simp add: unat_div) presburger
  have "(ucast (c AND mask 8) :: uchar) = ucast c"
    by (rule bit_word_eqI) (auto simp: bit_simps)
  then have "(ucast (c AND 0xFF) :: uchar) = ucast c"
    by (simp add: mask_eq_exp_minus_1)
  moreover have "stosl m dst (push_bit 24 (c AND 0xFF) OR push_bit 16 (c AND 0xFF)
      OR push_bit 8 (c AND 0xFF) OR (c AND 0xFF)) (unat (n div 4)) = stosb m dst (ucast (c AND 0xFF)) (unat n)"
    using stosl_pattern [of "c AND 0xFF" m dst "unat (n div 4)"] by (simp only: n4 and.assoc and.idem)
  ultimately have "memset m dst c n = stosb m dst (ucast c) (unat n)"
    using True by (simp only: memset_def Let_def if_True simp_thms)
  then show ?thesis
    by (simp add: stosb_closed word_less_nat_alt less_imp_le)
next
  case False
  then have "memset m dst c n = stosb m dst (ucast c) (unat n)"
    by (auto simp: memset_def)
  then show ?thesis
    by (simp add: stosb_closed word_less_nat_alt less_imp_le)
qed

lemma unat_diff_nat:
  "unat (d::uint) + n \<le> 2 ^ 32 \<Longrightarrow> unat (x - d) < n \<Longrightarrow> unat x = unat d + unat (x - d)"
  by (simp add: unat_sub_wrap split: if_splits)

lemma unat_offset:
  "unat (s::uint) + n \<le> 2 ^ 32 \<Longrightarrow> unat k < n \<Longrightarrow> unat (s + k) = unat s + unat k"
  by (rule unat_add_uint) simp

lemma memmove_up_closed:
  assumes "unat s + n \<le> 2 ^ 32" and "unat d + n \<le> 2 ^ 32" and "unat d \<le> unat s \<or> unat s + n \<le> unat d"
  shows "memmove_up m d s n = (\<lambda>x. if unat (x - d) < n then m (s + (x - d)) else m x)"
  using assms
proof (induction n arbitrary: m d s)
  case 0
  then show ?case by simp
next
  case (Suc n)
  show ?case
  proof (cases n)
    case 0
    have "(unat (x - d) < Suc 0) = (x = d)" for x
      by (simp add: unat_eq_0)
    then show ?thesis using 0 by (auto simp: fun_eq_iff)
  next
    case (Suc k)
    have d1: "unat (d + 1) = unat d + 1" and s1: "unat (s + 1) = unat s + 1"
      using Suc.prems Suc unat_add_nat [of d 1] unat_add_nat [of s 1] by simp_all
    have IH: "memmove_up (m(d := m s)) (d + 1) (s + 1) n =
        (\<lambda>x. if unat (x - (d + 1)) < n then (m(d := m s)) (s + 1 + (x - (d + 1))) else (m(d := m s)) x)"
      by (rule Suc.IH) (use Suc.prems d1 s1 in auto)
    show ?thesis
    proof
      fix x
      have far: "s + (x - d) \<noteq> d" if "x \<noteq> d" and "unat (x - d) < Suc n"
      proof -
        have "unat (s + (x - d)) = unat s + unat (x - d)"
          by (rule unat_offset [OF Suc.prems(1) that(2)])
        moreover have "0 < unat (x - d)" using that(1) by (simp add: unat_gt_0)
        ultimately have "unat (s + (x - d)) \<noteq> unat d" using Suc.prems(3) that(2) by auto
        then show ?thesis by metis
      qed
      have e: "s + 1 + (x - (d + 1)) = s + (x - d)" by simp
      have w: "unat (d - (d + 1)) = 4294967295"
        by (simp add: unsigned_minus_1_eq_mask mask_eq_exp_minus_1)
      show "memmove_up m d s (Suc n) x = (if unat (x - d) < Suc n then m (s + (x - d)) else m x)"
        using far unat_sub_Suc [of x d] Suc.prems(1) w
        by (cases "x = d") (auto simp: IH e)
    qed
  qed
qed

lemma memmove_down_closed:
  assumes "unat s + n < 2 ^ 32" and "unat d + n \<le> 2 ^ 32" and "unat s \<le> unat d"
  shows "memmove_down m (d + of_nat n) (s + of_nat n) n =
    (\<lambda>x. if unat (x - d) < n then m (s + (x - d)) else m x)"
  using assms
proof (induction n arbitrary: m)
  case 0
  then show ?case by simp
next
  case (Suc n)
  let ?m = "m(d + of_nat n := m (s + of_nat n))"
  have IH: "memmove_down ?m (d + of_nat n) (s + of_nat n) n =
      (\<lambda>x. if unat (x - d) < n then ?m (s + (x - d)) else ?m x)"
    by (rule Suc.IH) (use Suc.prems in auto)
  have dn: "unat (d + of_nat n) = unat d + n"
    using Suc.prems by (intro unat_add_nat) simp
  show ?case
  proof
    fix x
    have far: "s + (x - d) \<noteq> d + of_nat n" if "unat (x - d) < n"
    proof -
      have "unat (s + (x - d)) = unat s + unat (x - d)"
        by (rule unat_offset [of _ n]) (use Suc.prems that in auto)
      then have "unat (s + (x - d)) \<noteq> unat (d + of_nat n)" using Suc.prems that dn by auto
      then show ?thesis by metis
    qed
    have last: "x = d + of_nat n" if "unat (x - d) = n"
    proof -
      have "of_nat (unat (x - d)) = x - d" by simp
      with that show ?thesis by (metis add.commute diff_add_cancel)
    qed
    have n: "unat (of_nat n :: uint) = n"
      using Suc.prems by (simp add: unat_of_nat)
    have step: "memmove_down m (d + of_nat (Suc n)) (s + of_nat (Suc n)) (Suc n) x =
        (if unat (x - d) < n then ?m (s + (x - d)) else ?m x)"
      using IH by simp
    consider "unat (x - d) < n" | "unat (x - d) = n" | "n < unat (x - d)" by linarith
    then show "memmove_down m (d + of_nat (Suc n)) (s + of_nat (Suc n)) (Suc n) x =
        (if unat (x - d) < Suc n then m (s + (x - d)) else m x)"
    proof cases
      case 1
      then show ?thesis using far by (simp only: step) simp
    next
      case 2
      from last [OF this] show ?thesis unfolding step using n by simp
    next
      case 3
      then have "x \<noteq> d + of_nat n" using n by auto
      with 3 show ?thesis by (simp only: step) simp
    qed
  qed
qed

lemma memmove_closed:
  assumes "unat src + unat n < 2 ^ 32" and "unat dst + unat n < 2 ^ 32"
  shows "memmove m dst src n = (\<lambda>x. if x - dst < n then m (src + (x - dst)) else m x)"
proof -
  have e: "unat (src + n) = unat src + unat n"
    using assms(1) by (rule unat_add_uint)
  show ?thesis
  proof (cases "src < dst \<and> src + n > dst")
    case True
    then have "unat src \<le> unat dst" by (simp add: word_less_nat_alt)
    with True show ?thesis
      using memmove_down_closed [of src "unat n" dst m] assms
      by (simp add: memmove_def word_less_nat_alt)
  next
    case False
    then have "unat dst \<le> unat src \<or> unat src + unat n \<le> unat dst"
      using e by (auto simp: word_less_nat_alt)
    with False show ?thesis
      using memmove_up_closed [of src "unat n" dst m] assms
      by (auto simp: memmove_def word_less_nat_alt)
  qed
qed

lemma memcmp_loop_zero:
  "memcmp_loop m s1 s2 n = 0 \<longleftrightarrow> (\<forall>i<n. m (s1 + of_nat i) = m (s2 + of_nat i))"
proof (induction n arbitrary: s1 s2)
  case 0
  then show ?case by simp
next
  case (Suc n)
  show ?case
    by (auto simp: Suc.IH less_Suc_eq_0_disj algebra_simps dest: word_eq_iff_unsigned [THEN iffD2])
qed

section \<open>Pages\<close>

text \<open>
  Two addresses lie in the same 4096-byte page when they agree above bit 11.  What is written
  inside one page leaves the words of every other page as they were.
\<close>

definition pgno :: "uint \<Rightarrow> nat" where
  "pgno a = unat a div 4096"

definition same_outside :: "uint \<Rightarrow> memory \<Rightarrow> memory \<Rightarrow> bool" where
  "same_outside p m m' \<longleftrightarrow> (\<forall>x. pgno x \<noteq> pgno p \<longrightarrow> m' x = m x)"

named_theorems page_frame \<open>which page a write touches\<close>

lemma same_outside_refl [simp]: "same_outside p m m"
  by (simp add: same_outside_def)

lemma same_outside_trans:
  "same_outside p m m' \<Longrightarrow> same_outside p m' m'' \<Longrightarrow> same_outside p m m''"
  by (simp add: same_outside_def)

lemma same_outsideD: "same_outside p m m' \<Longrightarrow> pgno x \<noteq> pgno p \<Longrightarrow> m' x = m x"
  by (simp add: same_outside_def)

lemma ld32_same_page:
  assumes "aligned 4 a" and "\<And>x. pgno x = pgno a \<Longrightarrow> m x = m' x"
  shows "ld32 m a = ld32 m' a"
proof (rule ld32_cong_div4 [OF assms(1)])
  fix x :: uint assume "unat x div 4 = unat a div 4"
  moreover have "unat x div 4096 = unat x div 4 div 1024" "unat a div 4096 = unat a div 4 div 1024"
    by (simp_all flip: div_mult2_eq)
  ultimately have "pgno x = pgno a" by (simp add: pgno_def)
  then show "m x = m' x" by (rule assms(2))
qed

lemma ld32_same_outside:
  "aligned 4 a \<Longrightarrow> same_outside p m m' \<Longrightarrow> pgno a \<noteq> pgno p \<Longrightarrow> ld32 m' a = ld32 m a"
  by (rule ld32_same_page) (auto simp: same_outside_def)

lemma same_outside_st32:
  assumes "aligned 4 a" and "pgno a = pgno p"
  shows "same_outside p m (st32 m a v)"
  unfolding same_outside_def
proof (intro allI impI)
  fix x :: uint assume "pgno x \<noteq> pgno p"
  then have "unat x div 4 div 1024 \<noteq> unat a div 4 div 1024"
    using assms(2) by (simp add: pgno_def flip: div_mult2_eq)
  then show "st32 m a v x = m x" by (intro st32_other assms(1)) auto
qed

lemma aligned_page_4: "aligned 4096 p \<Longrightarrow> aligned 4 p"
  unfolding aligned_def mod_eq_0_iff_dvd by (rule dvd_trans [of 4 4096]) simp_all

lemma aligned_pageE:
  assumes "aligned 4096 p"
  obtains q where "unat p = 4096 * q" and "q < 1048576" and "pgno p = q"
proof -
  from assms obtain q where q: "unat p = 4096 * q"
    unfolding aligned_def by (metis mod_0_imp_dvd dvdE)
  moreover have "q < 1048576" using unat_uint_less [of p] q by simp
  ultimately show thesis using that by (simp add: pgno_def)
qed

lemma unat_page_offset:
  assumes "aligned 4096 p" and "k < 4096"
  shows "unat (p + of_nat k) = unat p + k"
  using assms by (auto elim!: aligned_pageE intro!: unat_add_nat)

lemma pgno_offset:
  assumes "aligned 4096 p" and "k < 4096"
  shows "pgno (p + of_nat k) = pgno p"
  using assms by (auto elim!: aligned_pageE simp: pgno_def unat_page_offset)

lemma pgno_eq_aligned:
  "aligned 4096 p \<Longrightarrow> aligned 4096 q \<Longrightarrow> pgno p = pgno q \<longleftrightarrow> p = q"
  by (auto elim!: aligned_pageE simp: uint_eq_iff_unat)

lemma pgno_sub_less:
  assumes "aligned 4096 p"
  shows "unat (x - p) < 4096 \<longleftrightarrow> pgno x = pgno p"
proof -
  from assms obtain q where q: "unat p = 4096 * q" "q < 1048576" "pgno p = q"
    by (rule aligned_pageE)
  show ?thesis
  proof (cases "unat p \<le> unat x")
    case True
    have "(unat x - 4096 * q < 4096) = (unat x div 4096 = q)"
      using True q(1) by (auto simp: div_nat_eqI less_diff_conv2)
    then show ?thesis using True q by (simp add: unat_sub_wrap pgno_def)
  next
    case False
    then have "unat x div 4096 < q" using q(1) by (simp add: less_mult_imp_div_less)
    then show ?thesis using False q by (simp add: unat_sub_wrap pgno_def)
  qed
qed

lemma same_outside_memset:
  "aligned 4096 p \<Longrightarrow> same_outside p m (memset m p c 4096)"
  by (simp add: same_outside_def memset_closed word_less_nat_alt pgno_sub_less)

lemma memset_inside:
  "aligned 4096 p \<Longrightarrow> pgno x = pgno p \<Longrightarrow> memset m p c 4096 x = ucast c"
  by (simp add: memset_closed word_less_nat_alt pgno_sub_less)

lemma memset_page:
  "aligned 4096 p \<Longrightarrow> memset m p c 4096 = (\<lambda>x. if pgno x = pgno p then ucast c else m x)"
  by (simp add: memset_closed word_less_nat_alt pgno_sub_less)

end
