(* ===== verification/Mmu.thy ===== *)
theory Mmu
  imports Memory
begin

text \<open>
  The x86 memory-management definitions of \<^verbatim>\<open>mmu.h\<close>, \<^verbatim>\<open>memlayout.h\<close> and \<^verbatim>\<open>param.h\<close>: page sizes and
  rounding, the three-part virtual address, page-table entry flags, the kernel's address map, and
  the segment and gate descriptors with the macros that build them.
\<close>

unbundle bit_operations_syntax

section \<open>Constants\<close>

definition NPROC :: nat where "NPROC = 64"
definition KSTACKSIZE :: uint where "KSTACKSIZE = 4096"
definition NCPU :: nat where "NCPU = 8"
definition NOFILE :: nat where "NOFILE = 16"
definition NFILE :: nat where "NFILE = 100"
definition NINODE :: nat where "NINODE = 50"
definition NDEV :: nat where "NDEV = 10"
definition ROOTDEV :: uint where "ROOTDEV = 1"
definition MAXARG :: nat where "MAXARG = 32"
definition MAXOPBLOCKS :: nat where "MAXOPBLOCKS = 10"
definition LOGSIZE :: nat where "LOGSIZE = MAXOPBLOCKS * 3"
definition NBUF :: nat where "NBUF = MAXOPBLOCKS * 3"
definition FSSIZE :: nat where "FSSIZE = 1000"

definition EXTMEM :: uint where "EXTMEM = 0x100000"
definition PHYSTOP :: uint where "PHYSTOP = 0xE000000"
definition DEVSPACE :: uint where "DEVSPACE = 0xFE000000"
definition KERNBASE :: uint where "KERNBASE = 0x80000000"
definition KERNLINK :: uint where "KERNLINK = KERNBASE + EXTMEM"

definition V2P :: "uint \<Rightarrow> uint" where "V2P a = a - KERNBASE"
definition P2V :: "uint \<Rightarrow> uint" where "P2V a = a + KERNBASE"

section \<open>Pages and page-table entries\<close>

definition NPDENTRIES :: nat where "NPDENTRIES = 1024"
definition NPTENTRIES :: nat where "NPTENTRIES = 1024"
definition PGSIZE :: uint where "PGSIZE = 4096"
definition PTXSHIFT :: nat where "PTXSHIFT = 12"
definition PDXSHIFT :: nat where "PDXSHIFT = 22"

definition PDX :: "uint \<Rightarrow> uint" where "PDX va = drop_bit PDXSHIFT va AND 0x3FF"
definition PTX :: "uint \<Rightarrow> uint" where "PTX va = drop_bit PTXSHIFT va AND 0x3FF"
definition PGADDR :: "uint \<Rightarrow> uint \<Rightarrow> uint \<Rightarrow> uint" where
  "PGADDR d t off = push_bit PDXSHIFT d OR push_bit PTXSHIFT t OR off"

definition PGROUNDUP :: "uint \<Rightarrow> uint" where
  "PGROUNDUP sz = (sz + PGSIZE - 1) AND NOT (PGSIZE - 1)"
definition PGROUNDDOWN :: "uint \<Rightarrow> uint" where
  "PGROUNDDOWN a = a AND NOT (PGSIZE - 1)"

definition PTE_P :: uint where "PTE_P = 0x001"
definition PTE_W :: uint where "PTE_W = 0x002"
definition PTE_U :: uint where "PTE_U = 0x004"
definition PTE_PS :: uint where "PTE_PS = 0x080"

definition PTE_ADDR :: "uint \<Rightarrow> uint" where "PTE_ADDR pte = pte AND NOT 0xFFF"
definition PTE_FLAGS :: "uint \<Rightarrow> uint" where "PTE_FLAGS pte = pte AND 0xFFF"

lemmas layout_defs = EXTMEM_def PHYSTOP_def DEVSPACE_def KERNBASE_def KERNLINK_def
lemmas pte_flag_defs = PTE_P_def PTE_W_def PTE_U_def PTE_PS_def

section \<open>Segment and gate descriptors\<close>

definition SEG_KCODE :: nat where "SEG_KCODE = 1"
definition SEG_KDATA :: nat where "SEG_KDATA = 2"
definition SEG_UCODE :: nat where "SEG_UCODE = 3"
definition SEG_UDATA :: nat where "SEG_UDATA = 4"
definition SEG_TSS :: nat where "SEG_TSS = 5"
definition NSEGS :: nat where "NSEGS = 6"
definition DPL_USER :: uint where "DPL_USER = 0x3"
definition STA_X :: uint where "STA_X = 0x8"
definition STA_W :: uint where "STA_W = 0x2"
definition STA_R :: uint where "STA_R = 0x2"
definition STS_T32A :: uint where "STS_T32A = 0x9"
definition STS_IG32 :: uint where "STS_IG32 = 0xE"
definition STS_TG32 :: uint where "STS_TG32 = 0xF"

text \<open>The bit fields of \<open>struct segdesc\<close> keep the width the declaration gives them.\<close>

record segdesc =
  lim_15_0 :: "16 word"
  base_15_0 :: "16 word"
  base_23_16 :: "8 word"
  seg_type :: "4 word"
  seg_s :: "1 word"
  seg_dpl :: "2 word"
  seg_p :: "1 word"
  lim_19_16 :: "4 word"
  seg_avl :: "1 word"
  seg_rsv1 :: "1 word"
  seg_db :: "1 word"
  seg_g :: "1 word"
  base_31_24 :: "8 word"

definition SEG :: "uint \<Rightarrow> uint \<Rightarrow> uint \<Rightarrow> uint \<Rightarrow> segdesc" where
  "SEG type base lim dpl =
     \<lparr>lim_15_0 = ucast (drop_bit 12 lim AND 0xffff), base_15_0 = ucast (base AND 0xffff),
      base_23_16 = ucast (drop_bit 16 base AND 0xff), seg_type = ucast type, seg_s = 1,
      seg_dpl = ucast dpl, seg_p = 1, lim_19_16 = ucast (drop_bit 28 lim), seg_avl = 0, seg_rsv1 = 0,
      seg_db = 1, seg_g = 1, base_31_24 = ucast (drop_bit 24 base)\<rparr>"

definition SEG16 :: "uint \<Rightarrow> uint \<Rightarrow> uint \<Rightarrow> uint \<Rightarrow> segdesc" where
  "SEG16 type base lim dpl =
     \<lparr>lim_15_0 = ucast (lim AND 0xffff), base_15_0 = ucast (base AND 0xffff),
      base_23_16 = ucast (drop_bit 16 base AND 0xff), seg_type = ucast type, seg_s = 1,
      seg_dpl = ucast dpl, seg_p = 1, lim_19_16 = ucast (drop_bit 16 lim), seg_avl = 0, seg_rsv1 = 0,
      seg_db = 1, seg_g = 0, base_31_24 = ucast (drop_bit 24 base)\<rparr>"

record gatedesc =
  off_15_0 :: "16 word"
  gate_cs :: "16 word"
  gate_args :: "5 word"
  gate_rsv1 :: "3 word"
  gate_type :: "4 word"
  gate_s :: "1 word"
  gate_dpl :: "2 word"
  gate_p :: "1 word"
  off_31_16 :: "16 word"

definition SETGATE :: "bool \<Rightarrow> uint \<Rightarrow> uint \<Rightarrow> uint \<Rightarrow> gatedesc" where
  "SETGATE istrap sel off d =
     \<lparr>off_15_0 = ucast (off AND 0xffff), gate_cs = ucast sel, gate_args = 0, gate_rsv1 = 0,
      gate_type = ucast (if istrap then STS_TG32 else STS_IG32), gate_s = 0, gate_dpl = ucast d,
      gate_p = 1, off_31_16 = ucast (drop_bit 16 off)\<rparr>"

section \<open>Rounding to pages\<close>

lemma FFF_mask: "(0xFFF::uint) = mask 12" "(0x3FF::uint) = mask 10" "PGSIZE - 1 = mask 12"
  by (simp_all add: mask_eq_exp_minus_1 PGSIZE_def)

lemma unat_PGROUNDDOWN [unat_facts]: "unat (PGROUNDDOWN a) = unat a div 4096 * 4096"
  unfolding PGROUNDDOWN_def FFF_mask by (simp add: unat_and_not_mask)

lemma aligned_PGROUNDDOWN [simp]: "aligned 4096 (PGROUNDDOWN a)"
  by (simp add: aligned_def unat_PGROUNDDOWN)

lemma pgno_PGROUNDDOWN [simp]: "pgno (PGROUNDDOWN a) = pgno a"
  by (simp add: pgno_def unat_PGROUNDDOWN)

lemma PGROUNDDOWN_aligned: "aligned 4096 a \<Longrightarrow> PGROUNDDOWN a = a"
  by (simp flip: pgno_eq_aligned)

lemma unat_PGROUNDUP [unat_facts]:
  assumes "unat a + 4095 < 2 ^ 32"
  shows "unat (PGROUNDUP a) = (unat a + 4095) div 4096 * 4096"
proof -
  have "a + PGSIZE - 1 = a + of_nat 4095" by (simp add: PGSIZE_def)
  moreover have "unat (a + of_nat 4095) = unat a + 4095" using assms by (rule unat_add_nat)
  ultimately have "unat (a + PGSIZE - 1) = unat a + 4095" by metis
  then show ?thesis unfolding PGROUNDUP_def FFF_mask by (simp add: unat_and_not_mask)
qed

lemma aligned_PGROUNDUP [simp]: "aligned 4096 (PGROUNDUP a)"
  unfolding PGROUNDUP_def FFF_mask aligned_def by (simp add: unat_and_not_mask)

lemma PGROUNDUP_aligned: "aligned 4096 a \<Longrightarrow> PGROUNDUP a = a"
proof -
  assume "aligned 4096 a"
  then obtain q where q: "unat a = 4096 * q" "q < 1048576" by (rule aligned_pageE)
  then have "unat (PGROUNDUP a) = (4096 * q + 4095) div 4096 * 4096"
    by (subst unat_PGROUNDUP) auto
  then show ?thesis using q by (simp add: uint_eq_iff_unat)
qed

section \<open>The parts of a virtual address\<close>

lemma unat_PTX [unat_facts]: "unat (PTX va) = pgno va mod 1024"
  unfolding PTX_def FFF_mask PTXSHIFT_def pgno_def
  by (simp add: unat_and_mask unat_drop_bit_eq drop_bit_eq_div unat_div)

lemma unat_PDX [unat_facts]: "unat (PDX va) = pgno va div 1024"
proof -
  have "unat va div 4194304 < 1024"
    using unat_uint_less [of va] by (simp add: less_mult_imp_div_less)
  moreover have "unat va div 4096 div 1024 = unat va div 4194304" by (simp flip: div_mult2_eq)
  ultimately show ?thesis
    unfolding PDX_def FFF_mask PDXSHIFT_def pgno_def
    by (simp add: unat_and_mask unat_drop_bit_eq drop_bit_eq_div unat_div)
qed

lemma PDX_less: "unat (PDX va) < 1024" and PTX_less: "unat (PTX va) < 1024"
  unfolding PDX_def PTX_def FFF_mask by (simp_all add: unat_and_mask)

lemma PDX_PTX_eq_iff: "PDX a = PDX b \<and> PTX a = PTX b \<longleftrightarrow> pgno a = pgno b"
proof
  assume "PDX a = PDX b \<and> PTX a = PTX b"
  then have "pgno a div 1024 = pgno b div 1024" "pgno a mod 1024 = pgno b mod 1024"
    by (simp_all flip: unat_PDX unat_PTX)
  then show "pgno a = pgno b" by (metis div_mult_mod_eq)
next
  assume "pgno a = pgno b"
  then show "PDX a = PDX b \<and> PTX a = PTX b"
    by (simp add: uint_eq_iff_unat unat_PDX unat_PTX)
qed

lemma PDX_pgno: "pgno a = pgno b \<Longrightarrow> PDX a = PDX b" and PTX_pgno: "pgno a = pgno b \<Longrightarrow> PTX a = PTX b"
  using PDX_PTX_eq_iff by blast+

lemma PGADDR_split: "PGADDR (PDX va) (PTX va) (va AND 0xFFF) = va"
proof (rule bit_word_eqI)
  fix n assume "n < LENGTH(32)"
  then consider "n < 12" | "12 \<le> n" "n < 22" | "22 \<le> n" "n < 32" by force
  then show "bit (PGADDR (PDX va) (PTX va) (va AND 0xFFF)) n = bit va n"
    unfolding PGADDR_def PDX_def PTX_def FFF_mask PDXSHIFT_def PTXSHIFT_def
    by cases (auto simp: bit_simps)
qed

section \<open>Page-table entries\<close>

lemma aligned_PTE_ADDR [simp]: "aligned 4096 (PTE_ADDR pte)"
  unfolding PTE_ADDR_def FFF_mask aligned_def by (simp add: unat_and_not_mask)

lemma PTE_ADDR_PGROUNDDOWN: "PTE_ADDR x = PGROUNDDOWN x"
  unfolding PTE_ADDR_def PGROUNDDOWN_def FFF_mask ..

lemma aligned_low_bits: "aligned 4096 p \<Longrightarrow> p AND mask 12 = 0"
  unfolding aligned_def uint_eq_iff_unat unat_and_mask by simp

lemma aligned_bit: "aligned 4096 p \<Longrightarrow> n < 12 \<Longrightarrow> \<not> bit p n"
proof
  assume "aligned 4096 p" and "n < 12" and "bit p n"
  then have "bit (p AND mask 12) n" by (simp add: bit_simps)
  with \<open>aligned 4096 p\<close> show False by (simp add: aligned_low_bits)
qed

lemma small_bit: "unat (f::uint) < 4096 \<Longrightarrow> 12 \<le> n \<Longrightarrow> \<not> bit f n"
proof
  assume f: "unat f < 4096" and n: "12 \<le> n" and "bit f n"
  from f have "f AND mask 12 = f" by (simp add: uint_eq_iff_unat unat_and_mask)
  with \<open>bit f n\<close> have "bit (f AND mask 12) n" by simp
  with n show False by (simp add: bit_simps)
qed

lemma PTE_ADDR_or:
  assumes "aligned 4096 p" and "unat f < 4096"
  shows "PTE_ADDR (p OR f) = p"
proof (rule bit_word_eqI)
  fix n assume "n < LENGTH(32)"
  then show "bit (PTE_ADDR (p OR f)) n = bit p n"
    unfolding PTE_ADDR_def FFF_mask
    using aligned_bit [OF assms(1), of n] small_bit [OF assms(2), of n]
    by (cases "n < 12") (auto simp: bit_simps)
qed

lemma PTE_FLAGS_or:
  assumes "aligned 4096 p" and "unat f < 4096"
  shows "PTE_FLAGS (p OR f) = f"
proof (rule bit_word_eqI)
  fix n assume "n < LENGTH(32)"
  then show "bit (PTE_FLAGS (p OR f)) n = bit f n"
    unfolding PTE_FLAGS_def FFF_mask
    using aligned_bit [OF assms(1), of n] small_bit [OF assms(2), of n]
    by (cases "n < 12") (auto simp: bit_simps)
qed

lemma PTE_split: "PTE_ADDR e OR PTE_FLAGS e = e"
  unfolding PTE_ADDR_def PTE_FLAGS_def FFF_mask by (rule bit_word_eqI) (auto simp: bit_simps)

section \<open>Kernel addresses\<close>

lemma V2P_P2V [simp]: "V2P (P2V a) = a" and P2V_V2P [simp]: "P2V (V2P a) = a"
  by (simp_all add: V2P_def P2V_def)

lemma V2P_eq_iff [simp]: "V2P a = V2P b \<longleftrightarrow> a = b" and P2V_eq_iff [simp]: "P2V a = P2V b \<longleftrightarrow> a = b"
  by (simp_all add: V2P_def P2V_def)

lemma unat_P2V: "unat a < 0x80000000 \<Longrightarrow> unat (P2V a) = unat a + 0x80000000"
  unfolding P2V_def KERNBASE_def by (subst unat_add_uint) simp_all

lemma aligned_add:
  assumes "aligned 4096 a" and "aligned 4096 b"
  shows "aligned 4096 (a + b)"
proof -
  obtain x where x: "unat a = 4096 * x" using assms(1) by (rule aligned_pageE)
  obtain y where y: "unat b = 4096 * y" using assms(2) by (rule aligned_pageE)
  have "unat (a + b) = (4096 * (x + y)) mod (4096 * 1048576)"
    using x y by (simp only: unat_word_ariths distrib_left) simp
  also have "\<dots> = 4096 * ((x + y) mod 1048576)"
    by (rule mult_mod_right [symmetric])
  finally show ?thesis by (simp only: aligned_def) simp
qed

lemma aligned_sub:
  assumes "aligned 4096 a" and "aligned 4096 b"
  shows "aligned 4096 (a - b)"
proof -
  obtain x where x: "unat a = 4096 * x" using assms(1) by (rule aligned_pageE)
  obtain y where y: "unat b = 4096 * y" "y < 1048576" using assms(2) by (rule aligned_pageE)
  show ?thesis
  proof (cases "y \<le> x")
    case True
    then have "unat (a - b) = 4096 * (x - y)"
      using x y by (simp add: unat_sub_wrap diff_mult_distrib2)
    then show ?thesis by (simp add: aligned_def)
  next
    case False
    then have "unat (a - b) = 4096 * (x + 1048576 - y)"
      using x y by (simp add: unat_sub_wrap diff_mult_distrib2 add_mult_distrib2)
    then show ?thesis by (simp add: aligned_def)
  qed
qed

lemma aligned_KERNBASE: "aligned 4096 KERNBASE"
  by (simp add: aligned_def KERNBASE_def)

lemma aligned_PGSIZE: "aligned 4096 PGSIZE"
  by (simp add: aligned_def PGSIZE_def)

lemma aligned_P2V [simp]: "aligned 4096 (P2V a) \<longleftrightarrow> aligned 4096 a"
  using aligned_add [OF _ aligned_KERNBASE, of a] aligned_sub [OF _ aligned_KERNBASE, of "P2V a"]
  by (auto simp: P2V_def)

lemma aligned_V2P [simp]: "aligned 4096 (V2P a) \<longleftrightarrow> aligned 4096 a"
  using aligned_P2V [of "V2P a"] by simp

lemma aligned_0 [simp]: "aligned k 0"
  by (simp add: aligned_def)

end
