(* ===== verification/Spinlock.thy ===== *)
theory Spinlock
  imports Mmu
begin

text \<open>
  Per-CPU state, interrupt nesting and spin locks: \<open>struct cpu\<close> of \<^verbatim>\<open>proc.h\<close>, \<open>cpuid\<close> and \<open>mycpu\<close> of
  \<^verbatim>\<open>proc.c\<close>, and \<^verbatim>\<open>spinlock.c\<close>.  The state \<open>hw\<close> is what one CPU sees: the table of CPUs, its own local
  APIC id and its interrupt flag.  The operations are polymorphic in the record's extension, so
  every later state of the kernel, which extends \<open>hw\<close>, uses them as they are.
\<close>

section \<open>State\<close>

text \<open>
  \<open>struct cpu\<close>: \<open>cproc\<close> is the index in the process table of the process running on the CPU, and
  the task state keeps the three fields the kernel writes.  The saved scheduler context and the
  \<open>started\<close> flag belong to assembly code and to booting, and are not represented.  \<open>ncli\<close> counts nested
  critical sections; it is an unbounded integer, so that \<open>2 ^ 31\<close> nested calls of \<open>pushcli\<close> are outside the model.

  \<open>struct spinlock\<close> keeps what decides who holds the lock.  Its field \<open>pcs\<close>, the program counters at the time of the last
  \<open>acquire\<close>, is written for debugging and read by no code; it is not represented, and neither are the
  two statements of \<open>acquire\<close> and \<open>release\<close> that write it.  That a lock is as before means its other fields.
\<close>

record cpu =
  apicid :: uchar
  ts_esp0 :: uint
  ts_ss0 :: ushort
  ts_iomb :: ushort
  gdt :: "segdesc list"
  ncli :: int
  intena :: bool
  cproc :: "nat option"

record hw =
  cpus :: "cpu list"
  ncpu :: nat
  lapicid :: uchar
  ifl :: bool
  cr3 :: uint

record spinlock =
  locked :: uint
  lname :: string
  lcpu :: "nat option"

section \<open>Which CPU\<close>

fun cpu_search :: "cpu list \<Rightarrow> uchar \<Rightarrow> nat \<Rightarrow> nat option" where
  "cpu_search [] apic i = None"
| "cpu_search (c # cs) apic i = (if apicid c = apic then Some i else cpu_search cs apic (Suc i))"

definition mycpu :: "'a hw_scheme \<Rightarrow> nat outcome" where
  "mycpu s =
     (if ifl s then Panic ''mycpu called with interrupts enabled''
      else case cpu_search (take (ncpu s) (cpus s)) (lapicid s) 0 of
             Some i \<Rightarrow> Ret i
           | None \<Rightarrow> Panic ''unknown apicid'')"

definition cpuid :: "'a hw_scheme \<Rightarrow> nat outcome" where
  "cpuid s = mycpu s"

definition upd_cpu :: "nat \<Rightarrow> (cpu \<Rightarrow> cpu) \<Rightarrow> 'a hw_scheme \<Rightarrow> 'a hw_scheme" where
  "upd_cpu i f s = s\<lparr>cpus := (cpus s)[i := f (cpus s ! i)]\<rparr>"

section \<open>Interrupt nesting\<close>

definition pushcli :: "'a hw_scheme \<Rightarrow> 'a hw_scheme outcome" where
  "pushcli s =
     (let eflags = ifl s; s = s\<lparr>ifl := False\<rparr> in
      andthen (mycpu s) (\<lambda>i.
        let s = (if ncli (cpus s ! i) = 0 then upd_cpu i (\<lambda>c. c\<lparr>intena := eflags\<rparr>) s else s) in
        Ret (upd_cpu i (\<lambda>c. c\<lparr>ncli := ncli c + 1\<rparr>) s)))"

definition popcli :: "'a hw_scheme \<Rightarrow> 'a hw_scheme outcome" where
  "popcli s =
     (if ifl s then Panic ''popcli - interruptible''
      else andthen (mycpu s) (\<lambda>i.
        let s = upd_cpu i (\<lambda>c. c\<lparr>ncli := ncli c - 1\<rparr>) s in
        if ncli (cpus s ! i) < 0 then Panic ''popcli''
        else if ncli (cpus s ! i) = 0 \<and> intena (cpus s ! i) then Ret (s\<lparr>ifl := True\<rparr>)
        else Ret s))"

section \<open>Locks\<close>

definition initlock :: "string \<Rightarrow> spinlock" where
  "initlock name = \<lparr>locked = 0, lname = name, lcpu = None\<rparr>"

definition holding :: "spinlock \<Rightarrow> 'a hw_scheme \<Rightarrow> (bool \<times> 'a hw_scheme) outcome" where
  "holding lk s =
     andthen (pushcli s) (\<lambda>s.
     andthen (mycpu s) (\<lambda>i.
     let r = (locked lk \<noteq> 0 \<and> lcpu lk = Some i) in
     andthen (popcli s) (\<lambda>s. Ret (r, s))))"

text \<open>
  The loop around \<open>xchg\<close> leaves only when it reads 0; while the lock is taken it never returns by
  itself (the interleaving with the other CPUs is the step relation below).
\<close>

definition acquire :: "spinlock \<Rightarrow> 'a hw_scheme \<Rightarrow> (spinlock \<times> 'a hw_scheme) outcome" where
  "acquire lk s =
     andthen (pushcli s) (\<lambda>s.
     andthen (holding lk s) (\<lambda>(h, s).
     if h then Panic ''acquire''
     else if locked lk \<noteq> 0 then Diverge
     else andthen (mycpu s) (\<lambda>i. Ret (lk\<lparr>locked := 1, lcpu := Some i\<rparr>, s))))"

definition release :: "spinlock \<Rightarrow> 'a hw_scheme \<Rightarrow> (spinlock \<times> 'a hw_scheme) outcome" where
  "release lk s =
     andthen (holding lk s) (\<lambda>(h, s).
     if \<not> h then Panic ''release''
     else let lk = lk\<lparr>lcpu := None\<rparr>; lk = lk\<lparr>locked := 0\<rparr> in
          andthen (popcli s) (\<lambda>s. Ret (lk, s)))"

text \<open>
  \<open>getcallerpcs\<close> follows the chain of saved frame pointers: at most ten frames, stopping at a null
  or user address; the rest of the array is zeroed.
\<close>

fun getcallerpcs_loop :: "memory \<Rightarrow> uint \<Rightarrow> nat \<Rightarrow> uint list" where
  "getcallerpcs_loop m ebp 0 = []"
| "getcallerpcs_loop m ebp (Suc k) =
     (if ebp = 0 \<or> ebp < KERNBASE \<or> ebp = 0xffffffff then replicate (Suc k) 0
      else ld32 m (ebp + 4) # getcallerpcs_loop m (ld32 m ebp) k)"

definition getcallerpcs :: "memory \<Rightarrow> uint \<Rightarrow> uint list" where
  "getcallerpcs m v = getcallerpcs_loop m (v - 8) 10"

section \<open>Lemmas\<close>

text \<open>
  \<open>hw_ok\<close>: the CPU finds itself in the table, its nesting depth is not negative, and interrupts
  are off whenever the depth is positive.
\<close>

definition cur_cpu :: "'a hw_scheme \<Rightarrow> nat option" where
  "cur_cpu s = cpu_search (take (ncpu s) (cpus s)) (lapicid s) 0"

definition hw_ok :: "'a hw_scheme \<Rightarrow> bool" where
  "hw_ok s \<longleftrightarrow> (case cur_cpu s of None \<Rightarrow> False
     | Some i \<Rightarrow> 0 \<le> ncli (cpus s ! i) \<and> (0 < ncli (cpus s ! i) \<longrightarrow> \<not> ifl s))"

definition here :: "'a hw_scheme \<Rightarrow> nat" where
  "here s = the (cur_cpu s)"

definition depth :: "'a hw_scheme \<Rightarrow> int" where
  "depth s = ncli (cpus s ! here s)"

lemma cpu_search_Some:
  "cpu_search cs a i = Some k \<Longrightarrow> i \<le> k \<and> k - i < length cs \<and> apicid (cs ! (k - i)) = a"
proof (induction cs a i rule: cpu_search.induct)
  case (1 a i)
  then show ?case by simp
next
  case (2 c cs a i)
  show ?case
  proof (cases "apicid c = a")
    case True
    with 2 show ?thesis by simp
  next
    case False
    with 2 have k: "Suc i \<le> k" "k - Suc i < length cs" "apicid (cs ! (k - Suc i)) = a" by auto
    then have "k - i = Suc (k - Suc i)" by simp
    with k show ?thesis by simp
  qed
qed

lemma cpu_search_map_apicid:
  "map apicid cs = map apicid cs' \<Longrightarrow> cpu_search cs a i = cpu_search cs' a i"
proof (induction cs arbitrary: cs' i)
  case Nil
  then show ?case by simp
next
  case (Cons c cs)
  then obtain d ds where "cs' = d # ds" "apicid c = apicid d" "map apicid cs = map apicid ds"
    by (cases cs') auto
  with Cons.IH show ?case by simp
qed

lemma cur_cpu_bound: "cur_cpu s = Some i \<Longrightarrow> i < length (cpus s) \<and> i < ncpu s"
  unfolding cur_cpu_def by (auto dest: cpu_search_Some)

lemma mycpu_off: "\<not> ifl s \<Longrightarrow> cur_cpu s = Some i \<Longrightarrow> mycpu s = Ret i"
  by (simp add: mycpu_def cur_cpu_def)

lemma cur_cpu_upd [simp]:
  assumes "\<And>c. apicid (f c) = apicid c"
  shows "cur_cpu (upd_cpu i f s) = cur_cpu s"
proof -
  have "map apicid (take (ncpu s) ((cpus s)[i := f (cpus s ! i)])) = map apicid (take (ncpu s) (cpus s))"
  proof (rule nth_equalityI)
    fix k assume "k < length (map apicid (take (ncpu s) ((cpus s)[i := f (cpus s ! i)])))"
    then show "map apicid (take (ncpu s) ((cpus s)[i := f (cpus s ! i)])) ! k =
        map apicid (take (ncpu s) (cpus s)) ! k"
      by (cases "k = i") (simp_all add: assms)
  qed simp
  then show ?thesis
    unfolding cur_cpu_def upd_cpu_def by (auto intro!: cpu_search_map_apicid)
qed

lemma cur_cpu_ifl [simp]: "cur_cpu (s\<lparr>ifl := b\<rparr>) = cur_cpu s"
  by (simp add: cur_cpu_def)

text \<open>
  \<open>cli_in\<close> is the state after \<open>pushcli\<close>; \<open>settle\<close> is the state after a matched pair: only the
  saved interrupt flag can differ from the state before.
\<close>

definition save_if :: "bool \<Rightarrow> cpu \<Rightarrow> cpu" where
  "save_if b c = (if ncli c = 0 then c\<lparr>intena := b\<rparr> else c)"

definition cli_in :: "'a hw_scheme \<Rightarrow> 'a hw_scheme" where
  "cli_in s = upd_cpu (here s) (\<lambda>c. (save_if (ifl s) c)\<lparr>ncli := ncli c + 1\<rparr>) (s\<lparr>ifl := False\<rparr>)"

definition settle :: "'a hw_scheme \<Rightarrow> 'a hw_scheme" where
  "settle s = upd_cpu (here s) (save_if (ifl s)) s"

lemma apicid_save_if [simp]: "apicid (save_if b c) = apicid c" and ncli_save_if [simp]: "ncli (save_if b c) = ncli c"
  and cproc_save_if [simp]: "cproc (save_if b c) = cproc c"
  by (simp_all add: save_if_def)

lemma save_if_same_ncli [simp]: "(save_if b c)\<lparr>ncli := ncli c\<rparr> = save_if b c"
  by (rule cpu.equality) (simp_all add: save_if_def)

lemma hw_okE:
  assumes "hw_ok s"
  obtains "cur_cpu s = Some (here s)" and "here s < length (cpus s)" and "0 \<le> depth s"
    and "0 < depth s \<longrightarrow> \<not> ifl s"
proof -
  from assms obtain i where i: "cur_cpu s = Some i"
    by (auto simp: hw_ok_def split: option.splits)
  then have "here s = i" by (simp add: here_def)
  with i assms show thesis
    using that cur_cpu_bound [OF i] by (simp add: hw_ok_def depth_def)
qed

lemma hw_ok_iff:
  "hw_ok s \<longleftrightarrow> cur_cpu s \<noteq> None \<and> 0 \<le> depth s \<and> (0 < depth s \<longrightarrow> \<not> ifl s)"
  by (auto simp: hw_ok_def depth_def here_def split: option.splits)

lemma cpus_upd_cpu [simp]: "cpus (upd_cpu i f s) = (cpus s)[i := f (cpus s ! i)]"
  and ifl_upd_cpu [simp]: "ifl (upd_cpu i f s) = ifl s"
  and lapicid_upd_cpu [simp]: "lapicid (upd_cpu i f s) = lapicid s"
  and ncpu_upd_cpu [simp]: "ncpu (upd_cpu i f s) = ncpu s"
  and cr3_upd_cpu [simp]: "cr3 (upd_cpu i f s) = cr3 s"
  and more_upd_cpu [simp]: "hw.more (upd_cpu i f s) = hw.more s"
  by (simp_all add: upd_cpu_def)

lemma here_upd [simp]: "(\<And>c. apicid (f c) = apicid c) \<Longrightarrow> here (upd_cpu i f s) = here s"
  and here_ifl [simp]: "here (s\<lparr>ifl := b\<rparr>) = here s"
  by (simp_all add: here_def)

lemma cur_cpu_settle [simp]: "cur_cpu (settle s) = cur_cpu s" and cur_cpu_cli_in [simp]: "cur_cpu (cli_in s) = cur_cpu s"
  and here_settle [simp]: "here (settle s) = here s" and here_cli_in [simp]: "here (cli_in s) = here s"
  and ifl_settle [simp]: "ifl (settle s) = ifl s" and ifl_cli_in [simp]: "ifl (cli_in s) = False"
  by (simp_all add: settle_def cli_in_def)

lemma depth_settle [simp]: "hw_ok s \<Longrightarrow> depth (settle s) = depth s"
  by (auto simp: depth_def settle_def elim: hw_okE)

lemma depth_cli_in [simp]: "hw_ok s \<Longrightarrow> depth (cli_in s) = depth s + 1"
  by (auto simp: depth_def cli_in_def elim: hw_okE)

lemma hw_ok_settle [simp]: "hw_ok s \<Longrightarrow> hw_ok (settle s)"
  by (auto simp: hw_ok_iff [of "settle s"] elim: hw_okE)

lemma hw_ok_cli_in [simp]: "hw_ok s \<Longrightarrow> hw_ok (cli_in s)"
  by (auto simp: hw_ok_iff [of "cli_in s"] elim: hw_okE)

lemma pushcli_eq: "hw_ok s \<Longrightarrow> pushcli s = Ret (cli_in s)"
  by (erule hw_okE) (simp add: pushcli_def mycpu_off cli_in_def save_if_def upd_cpu_def Let_def)

lemma popcli_nested:
  assumes "hw_ok s" and "1 < depth s"
  shows "popcli s = Ret (upd_cpu (here s) (\<lambda>c. c\<lparr>ncli := ncli c - 1\<rparr>) s)"
  using assms by (auto elim!: hw_okE simp: popcli_def mycpu_off Let_def depth_def)

lemma popcli_cli_in:
  assumes "hw_ok s"
  shows "popcli (cli_in s) = Ret (settle s)"
proof -
  from assms obtain a: "cur_cpu s = Some (here s)" and b: "here s < length (cpus s)"
    and c: "0 \<le> depth s" and d: "0 < depth s \<longrightarrow> \<not> ifl s" by (rule hw_okE)
  have u: "upd_cpu (here s) (\<lambda>c. c\<lparr>ncli := ncli c - 1\<rparr>) (cli_in s) = (settle s)\<lparr>ifl := False\<rparr>"
    using b by (intro hw.equality) (simp_all add: cli_in_def settle_def upd_cpu_def)
  let ?c = "save_if (ifl s) (cpus s ! here s)"
  have "cpus (settle s) ! here s = ?c" using b by (simp add: settle_def)
  then have p: "popcli (cli_in s) = (if ncli ?c < 0 then Panic ''popcli''
      else if ncli ?c = 0 \<and> intena ?c then Ret ((settle s)\<lparr>ifl := True\<rparr>) else Ret ((settle s)\<lparr>ifl := False\<rparr>))"
    using a by (simp add: popcli_def mycpu_off u Let_def del: cpus_upd_cpu)
  have "(settle s)\<lparr>ifl := ifl s\<rparr> = settle s" by (rule hw.equality) simp_all
  then show ?thesis
    using c d unfolding p depth_def by (cases "ifl s") (auto simp: save_if_def)
qed

lemma settle_nested: "0 < depth s \<Longrightarrow> settle s = s"
  by (auto simp: settle_def upd_cpu_def save_if_def depth_def list_update_beyond)

lemma holding_nested:
  assumes "hw_ok s" and "0 < depth s"
  shows "holding lk s = Ret (locked lk \<noteq> 0 \<and> lcpu lk = Some (here s), s)"
proof -
  have "mycpu (cli_in s) = Ret (here s)"
    using assms(1) by (auto elim!: hw_okE simp: mycpu_off)
  then show ?thesis
    using assms by (simp add: holding_def pushcli_eq popcli_cli_in settle_nested)
qed

lemma acquire_free:
  assumes "hw_ok s" and "locked lk = 0"
  shows "acquire lk s = Ret (lk\<lparr>locked := 1, lcpu := Some (here s)\<rparr>, cli_in s)"
proof -
  have "0 < depth (cli_in s)" using assms(1) by (auto elim: hw_okE)
  moreover have "mycpu (cli_in s) = Ret (here s)"
    using assms(1) by (auto elim!: hw_okE simp: mycpu_off)
  ultimately show ?thesis
    using assms by (simp add: acquire_def pushcli_eq holding_nested)
qed

lemma acquire_held:
  assumes "hw_ok s" and "locked lk \<noteq> 0" and "lcpu lk = Some (here s)"
  shows "acquire lk s = Panic ''acquire''"
proof -
  have "0 < depth (cli_in s)" using assms(1) by (auto elim: hw_okE)
  then show ?thesis using assms by (simp add: acquire_def pushcli_eq holding_nested)
qed

lemma release_held:
  assumes "hw_ok s" and "0 < depth s" and "locked lk \<noteq> 0" and "lcpu lk = Some (here s)"
  shows "release lk s = andthen (popcli s) (\<lambda>s. Ret (lk\<lparr>lcpu := None, locked := 0\<rparr>, s))"
  using assms by (simp add: release_def holding_nested)

section \<open>Several CPUs and one lock\<close>

text \<open>
  The memory accesses of \<open>acquire\<close> and \<open>release\<close> to the lock, as the CPUs interleave them: the
  atomic \<open>xchg\<close> that finds the lock taken (and stores the 1 that is there) or free, the store of
  \<open>lk->cpu\<close>, the critical section, the clearing of \<open>lk->cpu\<close>, and the final store of 0.
\<close>

datatype phase = Outside | Spinning | Taken | Critical | Leaving

record lock_sys =
  lk :: spinlock
  ph :: "nat \<Rightarrow> phase"

definition lock_init :: lock_sys where
  "lock_init = \<lparr>lk = initlock ''lock'', ph = (\<lambda>_. Outside)\<rparr>"

inductive lock_step :: "lock_sys \<Rightarrow> lock_sys \<Rightarrow> bool" where
  enter: "ph s i = Outside \<Longrightarrow> lock_step s (s\<lparr>ph := (ph s)(i := Spinning)\<rparr>)"
| xchg_busy: "ph s i = Spinning \<Longrightarrow> locked (lk s) \<noteq> 0 \<Longrightarrow>
     lock_step s (s\<lparr>lk := (lk s)\<lparr>locked := 1\<rparr>\<rparr>)"
| xchg_free: "ph s i = Spinning \<Longrightarrow> locked (lk s) = 0 \<Longrightarrow>
     lock_step s (s\<lparr>lk := (lk s)\<lparr>locked := 1\<rparr>, ph := (ph s)(i := Taken)\<rparr>)"
| set_cpu: "ph s i = Taken \<Longrightarrow>
     lock_step s (s\<lparr>lk := (lk s)\<lparr>lcpu := Some i\<rparr>, ph := (ph s)(i := Critical)\<rparr>)"
| clear_cpu: "ph s i = Critical \<Longrightarrow>
     lock_step s (s\<lparr>lk := (lk s)\<lparr>lcpu := None\<rparr>, ph := (ph s)(i := Leaving)\<rparr>)"
| unlock: "ph s i = Leaving \<Longrightarrow>
     lock_step s (s\<lparr>lk := (lk s)\<lparr>locked := 0\<rparr>, ph := (ph s)(i := Outside)\<rparr>)"

inductive lock_reach :: "lock_sys \<Rightarrow> bool" where
  start: "lock_reach lock_init"
| step: "lock_reach s \<Longrightarrow> lock_step s t \<Longrightarrow> lock_reach t"

inductive_cases lock_stepE: "lock_step s t"

definition owner :: "phase \<Rightarrow> bool" where
  "owner p \<longleftrightarrow> p \<in> {Taken, Critical, Leaving}"

definition held_by :: "lock_sys \<Rightarrow> nat \<Rightarrow> bool" where
  "held_by s i \<longleftrightarrow> owner (ph s i) \<and> (\<forall>j. j \<noteq> i \<longrightarrow> \<not> owner (ph s j)) \<and> locked (lk s) \<noteq> 0
     \<and> lcpu (lk s) = (if ph s i = Critical then Some i else None)"

definition unheld :: "lock_sys \<Rightarrow> bool" where
  "unheld s \<longleftrightarrow> (\<forall>j. \<not> owner (ph s j)) \<and> locked (lk s) = 0 \<and> lcpu (lk s) = None"

definition lock_inv :: "lock_sys \<Rightarrow> bool" where
  "lock_inv s \<longleftrightarrow> unheld s \<or> (\<exists>i. held_by s i)"

lemma owner_simps [simp]:
  "owner Taken" "owner Critical" "owner Leaving" "\<not> owner Outside" "\<not> owner Spinning"
  by (simp_all add: owner_def)

lemma lock_inv_init: "lock_inv lock_init"
  by (simp add: lock_inv_def lock_init_def initlock_def unheld_def)

lemma held_by_owner: "lock_inv s \<Longrightarrow> owner (ph s i) \<Longrightarrow> held_by s i"
  unfolding lock_inv_def held_by_def unheld_def by metis

lemma lock_step_inv:
  assumes "lock_step s t" and "lock_inv s"
  shows "lock_inv t"
  using assms(1)
proof cases
  case (enter i)
  have "owner (ph t j) = owner (ph s j)" and "(ph t j = Critical) = (ph s j = Critical)" for j
    using enter by (cases "j = i"; simp)+
  with enter assms(2) show ?thesis by (simp add: lock_inv_def held_by_def unheld_def)
next
  case (xchg_busy i)
  with assms(2) show ?thesis by (auto simp: lock_inv_def held_by_def unheld_def)
next
  case (xchg_free i)
  then have "unheld s" using assms(2) by (auto simp: lock_inv_def held_by_def)
  with xchg_free have "held_by t i" by (simp add: held_by_def unheld_def)
  then show ?thesis by (auto simp: lock_inv_def)
next
  case (set_cpu i)
  then have "held_by s i" using assms(2) by (intro held_by_owner) simp_all
  with set_cpu have "held_by t i" by (simp add: held_by_def)
  then show ?thesis by (auto simp: lock_inv_def)
next
  case (clear_cpu i)
  then have "held_by s i" using assms(2) by (intro held_by_owner) simp_all
  with clear_cpu have "held_by t i" by (simp add: held_by_def)
  then show ?thesis by (auto simp: lock_inv_def)
next
  case (unlock i)
  then have "held_by s i" using assms(2) by (intro held_by_owner) simp_all
  with unlock have "unheld t" by (simp add: held_by_def unheld_def)
  then show ?thesis by (auto simp: lock_inv_def)
qed

lemma lock_reach_inv: "lock_reach s \<Longrightarrow> lock_inv s"
  by (induction rule: lock_reach.induct) (auto intro: lock_inv_init lock_step_inv)

section \<open>Properties\<close>

text \<open>
  C29: mutual exclusion.  In every state the CPUs can reach by interleaving their accesses to a lock,
  at most one of them is between its winning \<open>xchg\<close> and its final store; the lock word is
  nonzero exactly while there is one, and \<open>lk->cpu\<close>, which \<open>holding\<close> reads, names exactly the CPU that is in
  its critical section.
\<close>

theorem spinlock_mutual_exclusion:
  assumes "lock_reach s"
  shows "(owner (ph s i) \<and> owner (ph s j) \<longrightarrow> i = j)
    \<and> (locked (lk s) \<noteq> 0 \<longleftrightarrow> (\<exists>i. owner (ph s i)))
    \<and> (lcpu (lk s) = Some i \<longleftrightarrow> ph s i = Critical)"
proof (intro conjI impI)
  have inv: "lock_inv s" using assms by (rule lock_reach_inv)
  show "i = j" if "owner (ph s i) \<and> owner (ph s j)"
    using held_by_owner [OF inv, of i] that by (auto simp: held_by_def)
  show "locked (lk s) \<noteq> 0 \<longleftrightarrow> (\<exists>i. owner (ph s i))"
    using inv by (auto simp: lock_inv_def held_by_def unheld_def)
  show "lcpu (lk s) = Some i \<longleftrightarrow> ph s i = Critical"
  proof (cases "owner (ph s i)")
    case True
    from held_by_owner [OF inv this] show ?thesis by (simp add: held_by_def)
  next
    case False
    then have "lcpu (lk s) \<noteq> Some i"
      using inv by (auto simp: lock_inv_def held_by_def unheld_def split: if_splits)
    with False show ?thesis by auto
  qed
qed

definition lock_busy :: lock_sys where
  "lock_busy = \<lparr>lk = \<lparr>locked = 1, lname = ''lock'', lcpu = Some 1\<rparr>,
     ph = (\<lambda>_. Outside)(1 := Critical, 2 := Spinning)\<rparr>"

lemma lock_busy_reach: "lock_reach lock_busy"
proof -
  let ?s1 = "lock_init\<lparr>ph := (ph lock_init)(2 := Spinning)\<rparr>"
  let ?s2 = "?s1\<lparr>ph := (ph ?s1)(1 := Spinning)\<rparr>"
  let ?s3 = "?s2\<lparr>lk := (lk ?s2)\<lparr>locked := 1\<rparr>, ph := (ph ?s2)(1 := Taken)\<rparr>"
  let ?s4 = "?s3\<lparr>lk := (lk ?s3)\<lparr>lcpu := Some 1\<rparr>, ph := (ph ?s3)(1 := Critical)\<rparr>"
  have "lock_reach ?s1" by (rule lock_reach.step [OF lock_reach.start]) (rule lock_step.enter, simp add: lock_init_def)
  then have "lock_reach ?s2" by (rule lock_reach.step) (rule lock_step.enter, simp add: lock_init_def)
  then have "lock_reach ?s3" by (rule lock_reach.step) (rule lock_step.xchg_free, simp_all add: lock_init_def initlock_def)
  then have "lock_reach ?s4" by (rule lock_reach.step) (rule lock_step.set_cpu, simp)
  moreover have "?s4 = lock_busy"
    by (rule lock_sys.equality) (auto simp: lock_busy_def lock_init_def initlock_def)
  ultimately show ?thesis by simp
qed

theorem spinlock_mutual_exclusion_witness:
  "lock_reach lock_busy \<and> ph lock_busy 1 = Critical \<and> lcpu (lk lock_busy) = Some 1 \<and> \<not> owner (ph lock_busy 2)"
proof -
  have "ph lock_busy 1 = Critical" by (simp add: lock_busy_def)
  with spinlock_mutual_exclusion [OF lock_busy_reach, of 1 2] show ?thesis
    using lock_busy_reach by auto
qed

text \<open>
  C30: on a consistent CPU, \<open>acquire\<close> of a free lock returns with interrupts off and the lock marked as held
  by this CPU; acquiring it again on the same CPU stops the machine instead of spinning; and the
  matching \<open>release\<close> gives back the free lock (apart from its debugging field \<open>pcs\<close>, which is not modelled) and the
  state before, interrupts as they were.
  Releasing a lock the CPU does not hold stops the machine.
\<close>

theorem acquire_release_roundtrip:
  assumes "hw_ok s" and "locked l = 0" and "lcpu l = None"
  shows "release l s = Panic ''release'' \<and> (\<exists>l' s'. acquire l s = Ret (l', s') \<and> \<not> ifl s' \<and> depth s' = depth s + 1
      \<and> acquire l' s' = Panic ''acquire''
      \<and> release l' s' = Ret (l, settle s) \<and> ifl (settle s) = ifl s \<and> depth (settle s) = depth s)"
proof
  let ?l = "l\<lparr>locked := 1, lcpu := Some (here s)\<rparr>" and ?s = "cli_in s"
  have ok: "hw_ok ?s" and d: "0 < depth ?s" using assms(1) by (auto elim: hw_okE)
  have undo: "l\<lparr>lcpu := None, locked := 0\<rparr> = l" by (rule spinlock.equality) (simp_all add: assms)
  have "release ?l ?s = Ret (l, settle s)"
    using release_held [OF ok d, of ?l] by (simp add: popcli_cli_in assms(1) undo)
  moreover have "acquire ?l ?s = Panic ''acquire''" using ok by (intro acquire_held) simp_all
  ultimately show "\<exists>l' s'. acquire l s = Ret (l', s') \<and> \<not> ifl s' \<and> depth s' = depth s + 1
      \<and> acquire l' s' = Panic ''acquire''
      \<and> release l' s' = Ret (l, settle s) \<and> ifl (settle s) = ifl s \<and> depth (settle s) = depth s"
    using assms acquire_free [OF assms(1,2)] by auto
  have "mycpu ?s = Ret (here s)"
    using assms(1) by (auto elim!: hw_okE simp: mycpu_off)
  then show "release l s = Panic ''release''"
    using assms by (simp add: release_def holding_def pushcli_eq popcli_cli_in)
qed

definition cpu0 :: cpu where
  "cpu0 = \<lparr>apicid = 0, ts_esp0 = 0, ts_ss0 = 0, ts_iomb = 0, gdt = [], ncli = 0, intena = False, cproc = None\<rparr>"

definition hw_one :: hw where
  "hw_one = \<lparr>cpus = [cpu0], ncpu = 1, lapicid = 0, ifl = True, cr3 = 0\<rparr>"

theorem acquire_release_roundtrip_witness:
  "\<exists>lk' s'. acquire (initlock ''l'') hw_one = Ret (lk', s') \<and> \<not> ifl s' \<and> release lk' s' = Ret (initlock ''l'', settle hw_one)"
proof -
  have "hw_ok hw_one" by (simp add: hw_ok_def cur_cpu_def hw_one_def cpu0_def)
  from acquire_release_roundtrip [OF this, of "initlock ''l''"] show ?thesis by (auto simp: initlock_def)
qed

end
