(* ===== verification/Kalloc.thy ===== *)
theory Kalloc
  imports Spinlock
begin

text \<open>
  The physical page allocator, \<^verbatim>\<open>kalloc.c\<close>.  Free pages are linked through their own first word; the
  state \<open>kst\<close> extends a CPU's view with kernel memory, the head of that list, the allocator's lock and
  the two linker symbols \<open>end\<close> and \<open>data\<close>.
\<close>

unbundle bit_operations_syntax

section \<open>State and operations\<close>

record kst = hw +
  mem :: memory
  freelist :: uint
  use_lock :: bool
  kmem_lock :: spinlock
  kend :: uint
  kdata :: uint

definition kmem_acquire :: "'a kst_scheme \<Rightarrow> 'a kst_scheme outcome" where
  "kmem_acquire s =
     (if use_lock s then andthen (acquire (kmem_lock s) s) (\<lambda>(l, s). Ret (s\<lparr>kmem_lock := l\<rparr>)) else Ret s)"

definition kmem_release :: "'a kst_scheme \<Rightarrow> 'a kst_scheme outcome" where
  "kmem_release s =
     (if use_lock s then andthen (release (kmem_lock s) s) (\<lambda>(l, s). Ret (s\<lparr>kmem_lock := l\<rparr>)) else Ret s)"

definition kfree :: "uint \<Rightarrow> 'a kst_scheme \<Rightarrow> 'a kst_scheme outcome" where
  "kfree v s =
     (if v mod PGSIZE \<noteq> 0 \<or> v < kend s \<or> V2P v \<ge> PHYSTOP then Panic ''kfree''
      else
        let s = s\<lparr>mem := memset (mem s) v 1 PGSIZE\<rparr> in
        andthen (kmem_acquire s) (\<lambda>s.
        let s = s\<lparr>mem := st32 (mem s) v (freelist s)\<rparr>; s = s\<lparr>freelist := v\<rparr> in
        kmem_release s))"

definition kalloc :: "'a kst_scheme \<Rightarrow> (uint \<times> 'a kst_scheme) outcome" where
  "kalloc s =
     andthen (kmem_acquire s) (\<lambda>s.
     let r = freelist s;
         s = (if r \<noteq> 0 then s\<lparr>freelist := ld32 (mem s) r\<rparr> else s) in
     andthen (kmem_release s) (\<lambda>s. Ret (r, s)))"

text \<open>
  \<open>freerange\<close> visits each page of the address space at most once before it stops; the first
  argument bounds the iterations by the number of pages, 2^20.
\<close>

fun freerange_loop :: "nat \<Rightarrow> uint \<Rightarrow> uint \<Rightarrow> 'a kst_scheme \<Rightarrow> 'a kst_scheme outcome" where
  "freerange_loop 0 p vend s = Diverge"
| "freerange_loop (Suc fuel) p vend s =
     (if p + PGSIZE \<le> vend then andthen (kfree p s) (freerange_loop fuel (p + PGSIZE) vend)
      else Ret s)"

definition freerange :: "uint \<Rightarrow> uint \<Rightarrow> 'a kst_scheme \<Rightarrow> 'a kst_scheme outcome" where
  "freerange vstart vend s = freerange_loop (2 ^ 20) (PGROUNDUP vstart) vend s"

definition kinit1 :: "uint \<Rightarrow> uint \<Rightarrow> 'a kst_scheme \<Rightarrow> 'a kst_scheme outcome" where
  "kinit1 vstart vend s = freerange vstart vend (s\<lparr>kmem_lock := initlock ''kmem'', use_lock := False\<rparr>)"

definition kinit2 :: "uint \<Rightarrow> uint \<Rightarrow> 'a kst_scheme \<Rightarrow> 'a kst_scheme outcome" where
  "kinit2 vstart vend s = andthen (freerange vstart vend s) (\<lambda>s. Ret (s\<lparr>use_lock := True\<rparr>))"

section \<open>The lock around a critical section\<close>

lemma hw_of_kst [simp]:
  "cur_cpu (s\<lparr>freelist := x\<rparr>) = cur_cpu s" "cur_cpu (s\<lparr>mem := m\<rparr>) = cur_cpu s"
  "cur_cpu (s\<lparr>kmem_lock := l\<rparr>) = cur_cpu s"
  by (simp_all add: cur_cpu_def)

lemma here_of_kst [simp]:
  "here (s\<lparr>freelist := x\<rparr>) = here s" "here (s\<lparr>mem := m\<rparr>) = here s"
  "here (s\<lparr>kmem_lock := l\<rparr>) = here s"
  by (simp_all add: here_def)

lemma depth_of_kst [simp]:
  "depth (s\<lparr>freelist := x\<rparr>) = depth s" "depth (s\<lparr>mem := m\<rparr>) = depth s"
  "depth (s\<lparr>kmem_lock := l\<rparr>) = depth s"
  by (simp_all add: depth_def)

lemma hw_ok_of_kst [simp]:
  "hw_ok (s\<lparr>freelist := x\<rparr>) = hw_ok s" "hw_ok (s\<lparr>mem := m\<rparr>) = hw_ok s"
  "hw_ok (s\<lparr>kmem_lock := l\<rparr>) = hw_ok s"
  by (simp_all add: hw_ok_iff)

lemma popcli_of_kst:
  "popcli (s\<lparr>freelist := x\<rparr>) = andthen (popcli s) (\<lambda>s. Ret (s\<lparr>freelist := x\<rparr>))"
  "popcli (s\<lparr>mem := m\<rparr>) = andthen (popcli s) (\<lambda>s. Ret (s\<lparr>mem := m\<rparr>))"
  "popcli (s\<lparr>kmem_lock := l\<rparr>) = andthen (popcli s) (\<lambda>s. Ret (s\<lparr>kmem_lock := l\<rparr>))"
  by (cases "cpu_search (take (ncpu s) (cpus s)) (lapicid s) 0";
      simp add: popcli_def mycpu_def Let_def upd_cpu_def)+

text \<open>\<open>ksettle\<close> is the effect of taking and giving back the allocator's lock, when it is in use.\<close>

definition ksettle :: "'a kst_scheme \<Rightarrow> 'a kst_scheme" where
  "ksettle s = (if use_lock s then settle s else s)"

definition lock_free :: "spinlock \<Rightarrow> bool" where
  "lock_free l \<longleftrightarrow> locked l = 0 \<and> lcpu l = None"

lemma settle_fields [simp]:
  "mem (settle s) = mem s" "freelist (settle s) = freelist s" "use_lock (settle s) = use_lock s"
  "kmem_lock (settle s) = kmem_lock s" "kend (settle s) = kend s" "kdata (settle s) = kdata s"
  by (simp_all add: settle_def upd_cpu_def)

lemma cli_in_fields [simp]:
  "mem (cli_in s) = mem s" "freelist (cli_in s) = freelist s" "use_lock (cli_in s) = use_lock s"
  "kmem_lock (cli_in s) = kmem_lock s" "kend (cli_in s) = kend s" "kdata (cli_in s) = kdata s"
  by (simp_all add: cli_in_def upd_cpu_def)

lemma settle_of_kst:
  "settle (s\<lparr>freelist := x\<rparr>) = (settle s)\<lparr>freelist := x\<rparr>"
  "settle (s\<lparr>mem := m\<rparr>) = (settle s)\<lparr>mem := m\<rparr>"
  "settle (s\<lparr>kmem_lock := l\<rparr>) = (settle s)\<lparr>kmem_lock := l\<rparr>"
  by (simp_all add: settle_def upd_cpu_def)

lemma lock_restore:
  "lock_free l \<Longrightarrow> l\<lparr>locked := 1, lcpu := Some i, lcpu := None, locked := 0\<rparr> = l"
  by (simp add: lock_free_def)

text \<open>
  A critical section that changes memory and the list head between taking the free lock and
  giving it back: the changes remain, the lock is free again and the interrupt state is settled.
\<close>

lemma kmem_section:
  assumes "hw_ok s" and "lock_free (kmem_lock s)"
  shows "andthen (kmem_acquire s) (\<lambda>t. andthen (kmem_release (t\<lparr>mem := m, freelist := x\<rparr>)) f)
       = f ((ksettle s)\<lparr>mem := m, freelist := x\<rparr>)"
proof (cases "use_lock s")
  case False
  then show ?thesis by (simp add: kmem_acquire_def kmem_release_def ksettle_def)
next
  case True
  let ?l = "(kmem_lock s)\<lparr>locked := 1, lcpu := Some (here s)\<rparr>"
  let ?t = "(cli_in s)\<lparr>kmem_lock := ?l, mem := m, freelist := x\<rparr>"
  have a: "kmem_acquire s = Ret ((cli_in s)\<lparr>kmem_lock := ?l\<rparr>)"
    using assms True by (simp add: kmem_acquire_def acquire_free lock_free_def)
  have "0 < depth ?t" using assms(1) by (auto elim: hw_okE)
  moreover have "hw_ok ?t" using assms(1) by simp
  moreover have "popcli ?t = Ret ((settle s)\<lparr>kmem_lock := ?l, mem := m, freelist := x\<rparr>)"
    using assms(1) by (simp add: popcli_of_kst popcli_cli_in)
  ultimately have "release ?l ?t = Ret (?l\<lparr>lcpu := None, locked := 0\<rparr>, (settle s)\<lparr>kmem_lock := ?l, mem := m, freelist := x\<rparr>)"
    by (simp add: release_held)
  moreover have "?l\<lparr>lcpu := None, locked := 0\<rparr> = kmem_lock s"
    using assms(2) by (simp add: lock_free_def)
  ultimately have "kmem_release ?t = Ret ((settle s)\<lparr>kmem_lock := kmem_lock s, mem := m, freelist := x\<rparr>)"
    using True by (simp add: kmem_release_def)
  moreover have "(settle s)\<lparr>kmem_lock := kmem_lock s\<rparr> = settle s"
    by (rule kst.equality) simp_all
  ultimately show ?thesis
    using True a by (simp add: ksettle_def)
qed

section \<open>The free list\<close>

text \<open>
  \<open>chain m p ps\<close>: the list that starts at \<open>p\<close> and is linked through the first word of each page
  visits exactly \<open>ps\<close>.  A page the allocator may own is page aligned, not below \<open>end\<close>, and below
  \<open>PHYSTOP\<close> as a physical address: the three checks of \<open>kfree\<close>.
\<close>

fun chain :: "memory \<Rightarrow> uint \<Rightarrow> uint list \<Rightarrow> bool" where
  "chain m p [] \<longleftrightarrow> p = 0"
| "chain m p (q # qs) \<longleftrightarrow> p = q \<and> chain m (ld32 m q) qs"

definition page_ok :: "'a kst_scheme \<Rightarrow> uint \<Rightarrow> bool" where
  "page_ok s v \<longleftrightarrow> aligned 4096 v \<and> kend s \<le> v \<and> V2P v < PHYSTOP"

definition kmem_inv :: "'a kst_scheme \<Rightarrow> uint list \<Rightarrow> bool" where
  "kmem_inv s fl \<longleftrightarrow> hw_ok s \<and> lock_free (kmem_lock s) \<and> chain (mem s) (freelist s) fl \<and> distinct fl
     \<and> (\<forall>p \<in> set fl. page_ok s p)"

lemma page_ok_range: "page_ok s v \<Longrightarrow> 0x80000000 \<le> unat v \<and> unat v + 4096 \<le> 0x8E000000"
proof -
  assume ok: "page_ok s v"
  then obtain q where q: "unat v = 4096 * q"
    unfolding page_ok_def by (auto elim: aligned_pageE)
  have "unat (v - KERNBASE) < 0xE000000"
    using ok by (simp add: page_ok_def V2P_def PHYSTOP_def word_less_nat_alt)
  then have "0x80000000 \<le> unat v \<and> unat v < 0x8E000000"
    using unat_uint_less [of v] by (simp add: unat_sub_wrap KERNBASE_def split: if_splits)
  with q show ?thesis by auto
qed

lemma page_ok_nonzero: "page_ok s v \<Longrightarrow> v \<noteq> 0"
  using page_ok_range by fastforce

lemma page_ok_aligned: "page_ok s v \<Longrightarrow> aligned 4096 v"
  by (simp add: page_ok_def)

lemma page_ok_fields [simp]:
  "page_ok (s\<lparr>freelist := x\<rparr>) v = page_ok s v" "page_ok (s\<lparr>mem := m\<rparr>) v = page_ok s v"
  "page_ok (s\<lparr>kmem_lock := l\<rparr>) v = page_ok s v" "page_ok (settle s) v = page_ok s v"
  "page_ok (ksettle s) v = page_ok s v"
  by (simp_all add: page_ok_def ksettle_def)

lemma ksettle_fields [simp]:
  "mem (ksettle s) = mem s" "freelist (ksettle s) = freelist s" "use_lock (ksettle s) = use_lock s"
  "kmem_lock (ksettle s) = kmem_lock s" "kend (ksettle s) = kend s" "kdata (ksettle s) = kdata s"
  "ifl (ksettle s) = ifl s" "hw_ok s \<Longrightarrow> hw_ok (ksettle s)"
  by (simp_all add: ksettle_def)

lemma chain_frame:
  assumes "\<And>q. q \<in> set qs \<Longrightarrow> ld32 m' q = ld32 m q"
  shows "chain m' p qs = chain m p qs"
  using assms by (induction qs arbitrary: p) auto

lemma chain_same_outside:
  assumes "same_outside v m m'" and "\<And>q. q \<in> set qs \<Longrightarrow> aligned 4096 q \<and> q \<noteq> v" and "aligned 4096 v"
  shows "chain m' p qs = chain m p qs"
proof (rule chain_frame)
  fix q assume "q \<in> set qs"
  then have "aligned 4096 q" "pgno q \<noteq> pgno v"
    using assms(2,3) by (auto simp: pgno_eq_aligned)
  then show "ld32 m' q = ld32 m q"
    by (intro ld32_same_outside [OF _ assms(1)] aligned_page_4)
qed

lemma kmem_inv_ksettle [simp]: "kmem_inv s fl \<Longrightarrow> kmem_inv (ksettle s) fl"
  by (simp add: kmem_inv_def)

lemma chain_Nil_head: "chain m p qs \<Longrightarrow> (\<And>q. q \<in> set qs \<Longrightarrow> q \<noteq> 0) \<Longrightarrow> p = 0 \<longleftrightarrow> qs = []"
  by (cases qs) auto

section \<open>What kalloc and kfree do\<close>

lemma kmem_acquire_fields:
  "kmem_acquire s = Ret t \<Longrightarrow> hw_ok s \<Longrightarrow> lock_free (kmem_lock s) \<Longrightarrow> mem t = mem s \<and> freelist t = freelist s"
  by (auto simp: kmem_acquire_def acquire_free lock_free_def split: if_splits)

lemma kalloc_eq:
  assumes "hw_ok s" and "lock_free (kmem_lock s)"
  shows "kalloc s = Ret (freelist s,
    (ksettle s)\<lparr>freelist := (if freelist s \<noteq> 0 then ld32 (mem s) (freelist s) else 0)\<rparr>)"
proof -
  let ?x = "if freelist s \<noteq> 0 then ld32 (mem s) (freelist s) else 0"
  have "kalloc s = andthen (kmem_acquire s) (\<lambda>t. andthen (kmem_release (t\<lparr>mem := mem s, freelist := ?x\<rparr>))
      (\<lambda>u. Ret (freelist s, u)))"
    unfolding kalloc_def
  proof (rule andthen_eqI)
    fix t assume "kmem_acquire s = Ret t"
    then have f: "mem t = mem s" "freelist t = freelist s"
      using kmem_acquire_fields assms by blast+
    then have e: "(if freelist t \<noteq> 0 then t\<lparr>freelist := ld32 (mem t) (freelist t)\<rparr> else t)
        = t\<lparr>mem := mem s, freelist := ?x\<rparr>"
      by (intro kst.equality) simp_all
    show "(let r = freelist t; s = (if r \<noteq> 0 then t\<lparr>freelist := ld32 (mem t) r\<rparr> else t)
        in andthen (kmem_release s) (\<lambda>s. Ret (r, s)))
      = andthen (kmem_release (t\<lparr>mem := mem s, freelist := ?x\<rparr>)) (\<lambda>u. Ret (freelist s, u))"
      unfolding Let_def e by (simp only: f)
  qed
  also have "\<dots> = Ret (freelist s, (ksettle s)\<lparr>mem := mem s, freelist := ?x\<rparr>)"
    by (rule kmem_section [OF assms])
  also have "(ksettle s)\<lparr>mem := mem s, freelist := ?x\<rparr> = (ksettle s)\<lparr>freelist := ?x\<rparr>"
    by (rule kst.equality) simp_all
  finally show ?thesis .
qed

lemma kalloc_Nil: "kmem_inv s [] \<Longrightarrow> kalloc s = Ret (0, ksettle s)"
proof -
  assume "kmem_inv s []"
  then have "freelist s = 0" "hw_ok s" "lock_free (kmem_lock s)" by (simp_all add: kmem_inv_def)
  moreover from this have "(ksettle s)\<lparr>freelist := 0\<rparr> = ksettle s"
    by (intro kst.equality) simp_all
  ultimately show ?thesis by (simp add: kalloc_eq)
qed

lemma kalloc_Cons:
  assumes "kmem_inv s (p # fl)"
  shows "kalloc s = Ret (p, (ksettle s)\<lparr>freelist := ld32 (mem s) p\<rparr>)"
    and "kmem_inv ((ksettle s)\<lparr>freelist := ld32 (mem s) p\<rparr>) fl"
proof -
  have "freelist s = p" "p \<noteq> 0" "hw_ok s" "lock_free (kmem_lock s)"
    using assms page_ok_nonzero by (auto simp: kmem_inv_def)
  then show "kalloc s = Ret (p, (ksettle s)\<lparr>freelist := ld32 (mem s) p\<rparr>)"
    by (simp add: kalloc_eq)
  show "kmem_inv ((ksettle s)\<lparr>freelist := ld32 (mem s) p\<rparr>) fl"
    using assms by (simp add: kmem_inv_def)
qed

lemma mod_PGSIZE_aligned: "v mod PGSIZE = 0 \<longleftrightarrow> aligned 4096 v"
proof -
  have "unat (v mod PGSIZE) = unat v mod 4096" by (simp add: PGSIZE_def unat_mod)
  then show ?thesis by (simp add: aligned_def uint_eq_iff_unat)
qed

lemma kfree_bad: "\<not> page_ok s v \<Longrightarrow> kfree v s = Panic ''kfree''"
  unfolding kfree_def page_ok_def mod_PGSIZE_aligned by (simp add: not_le not_less)

lemma kfree_eq:
  assumes "hw_ok s" and "lock_free (kmem_lock s)" and "page_ok s v"
  shows "kfree v s = Ret ((ksettle s)\<lparr>mem := st32 (memset (mem s) v 1 4096) v (freelist s), freelist := v\<rparr>)"
proof -
  let ?s = "s\<lparr>mem := memset (mem s) v 1 PGSIZE\<rparr>"
  have i: "hw_ok ?s" "lock_free (kmem_lock ?s)" using assms(1,2) by simp_all
  have "kfree v s = andthen (kmem_acquire ?s) (\<lambda>t. let t = t\<lparr>mem := st32 (mem t) v (freelist t)\<rparr>;
      t = t\<lparr>freelist := v\<rparr> in kmem_release t)"
    using assms(3) unfolding kfree_def page_ok_def mod_PGSIZE_aligned by (auto simp: Let_def)
  also have "\<dots> = andthen (kmem_acquire ?s) (\<lambda>t. andthen (kmem_release
      (t\<lparr>mem := st32 (memset (mem s) v 1 PGSIZE) v (freelist s), freelist := v\<rparr>)) Ret)"
  proof (rule andthen_eqI)
    fix t assume "kmem_acquire ?s = Ret t"
    from kmem_acquire_fields [OF this i] have "mem t = memset (mem s) v 1 PGSIZE" "freelist t = freelist s"
      by simp_all
    moreover have "andthen m Ret = m" for m :: "'a kst_scheme outcome" by (cases m) auto
    ultimately show "(let t = t\<lparr>mem := st32 (mem t) v (freelist t)\<rparr>; t = t\<lparr>freelist := v\<rparr> in kmem_release t)
      = andthen (kmem_release (t\<lparr>mem := st32 (memset (mem s) v 1 PGSIZE) v (freelist s), freelist := v\<rparr>)) Ret"
      by (simp add: Let_def)
  qed
  also have "\<dots> = Ret ((ksettle ?s)\<lparr>mem := st32 (memset (mem s) v 1 PGSIZE) v (freelist s), freelist := v\<rparr>)"
    by (rule kmem_section [OF i])
  finally show ?thesis
    by (simp add: ksettle_def settle_of_kst PGSIZE_def)
qed

lemma kfree_inv:
  assumes "kmem_inv s fl" and "page_ok s v" and "v \<notin> set fl"
  shows "kmem_inv ((ksettle s)\<lparr>mem := st32 (memset (mem s) v 1 4096) v (freelist s), freelist := v\<rparr>) (v # fl)"
proof -
  have v: "aligned 4096 v" "aligned 4 v"
    using assms(2) by (auto simp: page_ok_def aligned_page_4)
  let ?m = "st32 (memset (mem s) v 1 4096) v (freelist s)"
  have "same_outside v (mem s) ?m"
    using v by (intro same_outside_trans [OF same_outside_memset same_outside_st32]) simp_all
  moreover have "aligned 4096 q \<and> q \<noteq> v" if "q \<in> set fl" for q
    using assms that by (auto simp: kmem_inv_def page_ok_def)
  ultimately have "chain ?m (freelist s) fl = chain (mem s) (freelist s) fl"
    using v(1) by (intro chain_same_outside)
  with assms show ?thesis by (simp add: kmem_inv_def)
qed

lemma kalloc_other_fields:
  "kmem_inv s fl \<Longrightarrow> kalloc s = Ret (p, t) \<Longrightarrow>
     mem t = mem s \<and> kend t = kend s \<and> kdata t = kdata s \<and> use_lock t = use_lock s \<and> ifl t = ifl s"
  by (auto simp: kmem_inv_def kalloc_eq)

lemma kfree_other_fields:
  assumes "kmem_inv s fl" and "page_ok s v" and "kfree v s = Ret t"
  shows "same_outside v (mem s) (mem t) \<and> kend t = kend s \<and> kdata t = kdata s \<and> use_lock t = use_lock s
    \<and> ifl t = ifl s"
proof -
  have t: "t = (ksettle s)\<lparr>mem := st32 (memset (mem s) v 1 4096) v (freelist s), freelist := v\<rparr>"
    using assms by (simp add: kmem_inv_def kfree_eq)
  have "aligned 4096 v" using assms(2) by (rule page_ok_aligned)
  then have "same_outside v (mem s) (st32 (memset (mem s) v 1 4096) v (freelist s))"
    by (intro same_outside_trans [OF same_outside_memset same_outside_st32]) (simp_all add: aligned_page_4)
  with t show ?thesis by simp
qed

text \<open>
  \<open>kframe s t\<close>: what an operation on memory leaves alone.  The CPUs may differ in the saved
  interrupt flag only.
\<close>

definition kframe :: "'a kst_scheme \<Rightarrow> 'a kst_scheme \<Rightarrow> bool" where
  "kframe s t \<longleftrightarrow> kend t = kend s \<and> kdata t = kdata s \<and> use_lock t = use_lock s \<and> ifl t = ifl s \<and> cr3 t = cr3 s
     \<and> ncpu t = ncpu s \<and> lapicid t = lapicid s \<and> map apicid (cpus t) = map apicid (cpus s)
     \<and> map cproc (cpus t) = map cproc (cpus s) \<and> map ncli (cpus t) = map ncli (cpus s) \<and> kst.more t = kst.more s"

lemma kframe_refl [simp]: "kframe s s"
  by (simp add: kframe_def)

lemma kframe_trans: "kframe s t \<Longrightarrow> kframe t u \<Longrightarrow> kframe s u"
  by (simp add: kframe_def)

lemma kframe_mem [simp]: "kframe s (t\<lparr>mem := m\<rparr>) = kframe s t" "kframe s (t\<lparr>freelist := p\<rparr>) = kframe s t"
  by (simp_all add: kframe_def)

lemma map_save_if: "\<lbrakk>\<And>b c. f (save_if b c) = f c\<rbrakk> \<Longrightarrow> map f (xs[i := save_if b (xs ! i)]) = map f xs"
  by (simp add: map_update list_update_id) (metis list_update_beyond list_update_id map_update not_le)

lemma kframe_ksettle [simp]: "kframe s (ksettle s)"
  by (auto simp: kframe_def ksettle_def settle_def upd_cpu_def map_save_if)

lemma page_ok_kframe: "kframe s t \<Longrightarrow> page_ok t = page_ok s"
  by (simp add: kframe_def page_ok_def fun_eq_iff)

lemma kalloc_kframe: "kmem_inv s fl \<Longrightarrow> kalloc s = Ret (p, t) \<Longrightarrow> kframe s t"
  by (auto simp: kmem_inv_def kalloc_eq)

lemma kfree_kframe: "kmem_inv s fl \<Longrightarrow> kfree v s = Ret t \<Longrightarrow> kframe s t"
  by (cases "page_ok s v") (auto simp: kmem_inv_def kfree_eq kfree_bad)

section \<open>The allocator's interface\<close>

text \<open>
  What the rest of the kernel relies on: a pool of pages, given as the list of the free ones,
  from which \<open>alloc\<close> takes the first and to which \<open>free\<close> returns one; the null pointer stands for
  an empty pool.
\<close>

locale page_pool =
  fixes alloc :: "'s \<Rightarrow> (uint \<times> 's) outcome"
    and free :: "uint \<Rightarrow> 's \<Rightarrow> 's outcome"
    and pool :: "'s \<Rightarrow> uint list \<Rightarrow> bool"
    and valid :: "'s \<Rightarrow> uint \<Rightarrow> bool"
  assumes pool_distinct: "pool s fl \<Longrightarrow> distinct fl"
    and pool_valid: "pool s fl \<Longrightarrow> p \<in> set fl \<Longrightarrow> valid s p"
    and valid_not_null: "valid s p \<Longrightarrow> p \<noteq> 0"
    and alloc_none: "pool s [] \<Longrightarrow> \<exists>t. alloc s = Ret (0, t) \<and> pool t [] \<and> valid t = valid s"
    and alloc_some: "pool s (p # fl) \<Longrightarrow> \<exists>t. alloc s = Ret (p, t) \<and> pool t fl \<and> valid t = valid s"
    and free_ok: "pool s fl \<Longrightarrow> valid s p \<Longrightarrow> p \<notin> set fl \<Longrightarrow>
      \<exists>t. free p s = Ret t \<and> pool t (p # fl) \<and> valid t = valid s"
begin

lemma alloc_returns:
  assumes "pool s fl"
  shows "\<exists>p t. alloc s = Ret (p, t) \<and> pool t (tl fl) \<and> valid t = valid s \<and> (p = 0 \<longleftrightarrow> fl = [])
    \<and> (fl \<noteq> [] \<longrightarrow> p = hd fl \<and> valid s p)"
proof (cases fl)
  case Nil
  with assms alloc_none show ?thesis by fastforce
next
  case (Cons q qs)
  with assms obtain t where "alloc s = Ret (q, t)" "pool t qs" "valid t = valid s"
    using alloc_some by blast
  moreover have "valid s q" using assms Cons by (auto intro: pool_valid)
  ultimately show ?thesis using Cons valid_not_null by auto
qed

lemma alloc_not_free:
  assumes "pool s fl" and "alloc s = Ret (p, t)" and "p \<noteq> 0"
  shows "p \<in> set fl \<and> (\<exists>fl'. pool t fl' \<and> p \<notin> set fl' \<and> set fl = insert p (set fl'))"
proof (cases fl)
  case Nil
  with assms alloc_none show ?thesis by fastforce
next
  case (Cons q qs)
  with assms have "pool t qs" "p = q" using alloc_some by fastforce+
  moreover have "q \<notin> set qs" using pool_distinct assms(1) Cons by fastforce
  ultimately show ?thesis using Cons by auto
qed

lemma alloc_twice:
  assumes "pool s fl" and "alloc s = Ret (p, t)" and "alloc t = Ret (q, u)" and "p \<noteq> 0"
  shows "p \<noteq> q"
proof
  assume "p = q"
  from alloc_not_free [OF assms(1,2,4)] obtain fl' where "pool t fl'" "p \<notin> set fl'" by blast
  with alloc_not_free [of t fl' q u] assms(3,4) \<open>p = q\<close> show False by auto
qed

lemma free_alloc:
  assumes "pool s fl" and "valid s p" and "p \<notin> set fl"
  shows "\<exists>t u. free p s = Ret t \<and> alloc t = Ret (p, u) \<and> pool u fl"
  using free_ok [OF assms] alloc_some by blast

end

interpretation kpool: page_pool kalloc kfree kmem_inv page_ok
proof unfold_locales
  fix s :: "'a kst_scheme" and fl p
  show "kmem_inv s fl \<Longrightarrow> distinct fl" by (simp add: kmem_inv_def)
  show "kmem_inv s fl \<Longrightarrow> p \<in> set fl \<Longrightarrow> page_ok s p" by (simp add: kmem_inv_def)
  show "page_ok s p \<Longrightarrow> p \<noteq> 0" by (rule page_ok_nonzero)
  show "kmem_inv s [] \<Longrightarrow> \<exists>t. kalloc s = Ret (0, t) \<and> kmem_inv t [] \<and> page_ok t = page_ok s"
    by (auto simp: kalloc_Nil fun_eq_iff)
  show "kmem_inv s (p # fl) \<Longrightarrow> \<exists>t. kalloc s = Ret (p, t) \<and> kmem_inv t fl \<and> page_ok t = page_ok s"
    using kalloc_Cons [of s p fl] by (auto simp: fun_eq_iff)
  show "kmem_inv s fl \<Longrightarrow> page_ok s p \<Longrightarrow> p \<notin> set fl \<Longrightarrow>
      \<exists>t. kfree p s = Ret t \<and> kmem_inv t (p # fl) \<and> page_ok t = page_ok s"
    using kfree_inv [of s fl p] kfree_eq [of s p] by (auto simp: fun_eq_iff kmem_inv_def)
qed

section \<open>Initialisation\<close>

definition page_seq :: "uint \<Rightarrow> nat \<Rightarrow> uint list" where
  "page_seq p n = map (\<lambda>k. p + of_nat (4096 * k)) [0..<n]"

lemma page_seq_0 [simp]: "page_seq p 0 = []"
  by (simp add: page_seq_def)

lemma page_seq_Suc: "page_seq p (Suc n) = p # page_seq (p + PGSIZE) n"
proof -
  have "[0..<Suc n] = 0 # map Suc [0..<n]" by (simp add: upt_conv_Cons map_Suc_upt)
  then show ?thesis by (simp add: page_seq_def PGSIZE_def algebra_simps)
qed

lemma page_seq_unat:
  assumes "q \<in> set (page_seq p n)" and "unat p + 4096 * n < 2 ^ 32"
  obtains k where "k < n" and "unat q = unat p + 4096 * k"
proof -
  from assms(1) obtain k where k: "k < n" "q = p + of_nat (4096 * k)"
    by (auto simp: page_seq_def)
  moreover have "unat (p + of_nat (4096 * k)) = unat p + 4096 * k"
    using assms(2) k(1) by (intro unat_add_nat) simp
  ultimately show thesis using that by simp
qed

lemma unat_add_PGSIZE: "unat p + 4096 < 2 ^ 32 \<Longrightarrow> unat (p + PGSIZE) = unat p + 4096"
  using unat_add_nat [of p 4096] by (simp add: PGSIZE_def)

lemma freerange_loop_spec:
  assumes "kmem_inv s fl" and "unat p + 4096 * n \<le> unat vend" and "unat vend < unat p + 4096 * n + 4096"
    and "unat vend < 0xFFFFF000" and "\<forall>q \<in> set (page_seq p n). page_ok s q \<and> q \<notin> set fl" and "n < fuel"
  shows "\<exists>t. freerange_loop fuel p vend s = Ret t \<and> kmem_inv t (rev (page_seq p n) @ fl)
    \<and> page_ok t = page_ok s \<and> use_lock t = use_lock s"
  using assms
proof (induction n arbitrary: p s fl fuel)
  case 0
  then obtain f where f: "fuel = Suc f" by (cases fuel) auto
  have "unat (p + PGSIZE) = unat p + 4096" using 0 by (intro unat_add_PGSIZE) simp
  then have "\<not> p + PGSIZE \<le> vend" using 0 by (simp add: word_le_nat_alt)
  then show ?case using 0 f by auto
next
  case (Suc n)
  then obtain f where f: "fuel = Suc f" "n < f" by (cases fuel) auto
  have p1: "unat (p + PGSIZE) = unat p + 4096" using Suc.prems by (intro unat_add_PGSIZE) simp
  have le: "p + PGSIZE \<le> vend" using Suc.prems p1 by (simp add: word_le_nat_alt)
  have "page_ok s p" "p \<notin> set fl" using Suc.prems(5) by (simp_all add: page_seq_Suc)
  then obtain t where t: "kfree p s = Ret t" "kmem_inv t (p # fl)" "page_ok t = page_ok s" "use_lock t = use_lock s"
    using kpool.free_ok [OF Suc.prems(1)] kfree_other_fields [OF Suc.prems(1)] by metis
  have far: "q \<noteq> p" if "q \<in> set (page_seq (p + PGSIZE) n)" for q
  proof -
    have "unat (p + PGSIZE) + 4096 * n < 2 ^ 32" using Suc.prems p1 by simp
    with that obtain k where "unat q = unat (p + PGSIZE) + 4096 * k" by (rule page_seq_unat)
    with p1 show ?thesis by auto
  qed
  have "\<exists>u. freerange_loop f (p + PGSIZE) vend t = Ret u \<and> kmem_inv u (rev (page_seq (p + PGSIZE) n) @ (p # fl))
      \<and> page_ok u = page_ok t \<and> use_lock u = use_lock t"
    by (rule Suc.IH) (use Suc.prems p1 t far f in \<open>auto simp: page_seq_Suc\<close>)
  then show ?case using t f le by (auto simp: page_seq_Suc)
qed

lemma page_ok_in_range:
  assumes "aligned 4096 p" and "kend s \<le> p" and "KERNBASE \<le> p" and "unat p + 4096 * n \<le> 0x8E000000"
    and "q \<in> set (page_seq p n)"
  shows "page_ok s q"
proof -
  from assms(5) obtain k where k: "k < n" "unat q = unat p + 4096 * k"
    by (rule page_seq_unat) (use assms(4) in simp)
  have "aligned 4096 q" using k(2) assms(1) by (simp add: aligned_def)
  moreover have "kend s \<le> q" "KERNBASE \<le> q"
    using assms(2,3) k(2) by (simp_all add: word_le_nat_alt)
  moreover have "unat (V2P q) = unat q - 0x80000000"
    using \<open>KERNBASE \<le> q\<close> by (simp add: V2P_def unat_sub_uint KERNBASE_def)
  then have "V2P q < PHYSTOP"
    using k assms(4) by (simp add: word_less_nat_alt PHYSTOP_def)
  ultimately show ?thesis by (simp add: page_ok_def)
qed

lemma freerange_spec:
  assumes "kmem_inv s fl" and "kend s \<le> vstart" and "KERNBASE \<le> vstart" and "vstart \<le> vend" and "unat vend \<le> 0x8E000000"
    and n: "n = (unat vend - unat (PGROUNDUP vstart)) div 4096"
    and "\<forall>q \<in> set (page_seq (PGROUNDUP vstart) n). q \<notin> set fl"
    and "PGROUNDUP vstart \<le> vend"
  shows "\<exists>t. freerange vstart vend s = Ret t \<and> kmem_inv t (rev (page_seq (PGROUNDUP vstart) n) @ fl)
    \<and> page_ok t = page_ok s \<and> use_lock t = use_lock s"
proof -
  let ?p = "PGROUNDUP vstart"
  have v: "unat vstart \<le> unat vend" using assms(4) by (simp add: word_le_nat_alt)
  then have "unat ?p = (unat vstart + 4095) div 4096 * 4096"
    using assms(5) by (intro unat_PGROUNDUP) simp
  then have up: "unat vstart \<le> unat ?p" by simp
  have pv: "unat ?p \<le> unat vend" using assms(8) by (simp add: word_le_nat_alt)
  have lo: "unat ?p + 4096 * n \<le> unat vend" and hi: "unat vend < unat ?p + 4096 * n + 4096"
    using pv unfolding n by (simp_all add: mult.commute)
  have "\<forall>q \<in> set (page_seq ?p n). page_ok s q"
  proof
    fix q assume "q \<in> set (page_seq ?p n)"
    then show "page_ok s q"
      using assms(2,3) up lo assms(5)
      by (intro page_ok_in_range [of ?p s n q]) (simp_all add: word_le_nat_alt)
  qed
  moreover have "n < 2 ^ 20" using assms(5) unfolding n by simp
  ultimately show ?thesis
    unfolding freerange_def using lo hi assms by (intro freerange_loop_spec) auto
qed

lemma set_page_seq:
  assumes "aligned 4096 p" and "unat p + 4096 * n < 2 ^ 32"
  shows "set (page_seq p n) = {q. aligned 4096 q \<and> unat p \<le> unat q \<and> unat q < unat p + 4096 * n}"
proof (intro equalityI subsetI)
  fix q assume "q \<in> set (page_seq p n)"
  then obtain k where "k < n" "unat q = unat p + 4096 * k"
    using assms(2) by (rule page_seq_unat)
  then show "q \<in> {q. aligned 4096 q \<and> unat p \<le> unat q \<and> unat q < unat p + 4096 * n}"
    using assms(1) by (simp add: aligned_def)
next
  fix q assume "q \<in> {q. aligned 4096 q \<and> unat p \<le> unat q \<and> unat q < unat p + 4096 * n}"
  then have q: "aligned 4096 q" "unat p \<le> unat q" "unat q < unat p + 4096 * n" by auto
  obtain x where x: "unat p = 4096 * x" using assms(1) by (rule aligned_pageE)
  obtain y where y: "unat q = 4096 * y" using q(1) by (rule aligned_pageE)
  have "unat (p + of_nat (4096 * (y - x))) = unat p + 4096 * (y - x)"
    using assms(2) q x y by (intro unat_add_nat) simp
  also have "\<dots> = unat q" using x y q(2) by simp
  finally have "q = p + of_nat (4096 * (y - x))" by (simp only: uint_eq_iff_unat)
  moreover have "y - x < n" using x y q(2,3) by linarith
  ultimately show "q \<in> set (page_seq p n)" by (auto simp: page_seq_def)
qed

lemma PGROUNDUP_least:
  assumes "aligned 4096 q" and "unat a \<le> unat q" and "unat a + 4095 < 2 ^ 32"
  shows "unat (PGROUNDUP a) \<le> unat q"
proof -
  obtain y where y: "unat q = 4096 * y" using assms(1) by (rule aligned_pageE)
  then have "(unat a + 4095) div 4096 \<le> y" using assms(2) by simp
  then have "(unat a + 4095) div 4096 * 4096 \<le> y * 4096" by (rule mult_right_mono) simp
  then show ?thesis using y assms(3) by (simp add: unat_PGROUNDUP)
qed

lemma PGROUNDUP_ge: "unat a + 4095 < 2 ^ 32 \<Longrightarrow> unat a \<le> unat (PGROUNDUP a)"
  by (simp add: unat_PGROUNDUP)

section \<open>A concrete machine\<close>

text \<open>
  One CPU at boot, with the kernel image ending at 0x80110000; and the same machine with two free
  pages.  The witnesses of the properties run on them.
\<close>

definition boot_kst :: kst where
  "boot_kst = \<lparr>cpus = [cpu0], ncpu = 1, lapicid = 0, ifl = False, cr3 = 0, mem = (\<lambda>_. 0), freelist = 0,
     use_lock = True, kmem_lock = initlock ''kmem'', kend = 0x80110000, kdata = 0x80108000\<rparr>"

definition two_pages :: kst where
  "two_pages = boot_kst\<lparr>mem := st32 (\<lambda>_. 0) 0x80400000 0x80401000, freelist := 0x80400000\<rparr>"

lemma ld32_zero [simp]: "ld32 (\<lambda>_. 0) a = 0"
  by (simp add: ld32_def)

lemma hw_ok_boot: "hw_ok boot_kst"
  by (simp add: hw_ok_def cur_cpu_def boot_kst_def cpu0_def)

lemma two_pages_inv: "kmem_inv two_pages [0x80400000, 0x80401000]"
proof -
  have "hw_ok two_pages" using hw_ok_boot by (simp add: two_pages_def)
  moreover have "ld32 (st32 (\<lambda>_. 0) 0x80400000 0x80401000) 0x80401000 = 0"
    by (subst ld32_st32_other) (simp_all add: aligned_def)
  ultimately show ?thesis
    by (simp add: kmem_inv_def two_pages_def boot_kst_def lock_free_def initlock_def page_ok_def aligned_def
        V2P_def KERNBASE_def PHYSTOP_def)
qed

section \<open>Properties\<close>

text \<open>
  C9: \<open>kalloc\<close> takes the first page of the free list, or returns null exactly when the list is
  empty; the page it hands out is a valid page that is no longer free, memory is not touched, and
  the allocator's lock is free again.
\<close>

theorem kalloc_takes_head:
  assumes "kmem_inv s fl"
  shows "\<exists>p t. kalloc s = Ret (p, t) \<and> kmem_inv t (tl fl) \<and> (p = 0 \<longleftrightarrow> fl = [])
    \<and> (fl \<noteq> [] \<longrightarrow> p = hd fl \<and> page_ok s p \<and> p \<notin> set (tl fl)) \<and> mem t = mem s \<and> lock_free (kmem_lock t)"
proof -
  obtain p t where t: "kalloc s = Ret (p, t)" "kmem_inv t (tl fl)" "p = 0 \<longleftrightarrow> fl = []"
    "fl \<noteq> [] \<longrightarrow> p = hd fl \<and> page_ok s p"
    using kpool.alloc_returns [OF assms] by blast
  moreover have "hd fl \<notin> set (tl fl)" if "fl \<noteq> []"
    using that kpool.pool_distinct [OF assms] by (cases fl) auto
  ultimately show ?thesis
    using kalloc_other_fields [OF assms t(1)] by (auto simp: kmem_inv_def)
qed

theorem kalloc_takes_head_witness:
  "kmem_inv two_pages [0x80400000, 0x80401000] \<and>
   (\<exists>t. kalloc two_pages = Ret (0x80400000, t) \<and> kmem_inv t [0x80401000])"
  using two_pages_inv kalloc_takes_head [OF two_pages_inv] by auto

text \<open>
  C8: \<open>kfree\<close> stops the machine on an address that is not a page of the allocator; a valid page that
  is not free yet becomes the head of the free list, only that page of memory changes, and a
  following \<open>kalloc\<close> hands the same page out again.
\<close>

theorem kfree_then_kalloc:
  assumes "kmem_inv s fl"
  shows "(\<not> page_ok s v \<longrightarrow> kfree v s = Panic ''kfree'') \<and>
    (page_ok s v \<and> v \<notin> set fl \<longrightarrow> (\<exists>t u. kfree v s = Ret t \<and> kmem_inv t (v # fl) \<and> same_outside v (mem s) (mem t)
       \<and> kalloc t = Ret (v, u) \<and> kmem_inv u fl))"
proof (intro conjI impI)
  show "\<not> page_ok s v \<Longrightarrow> kfree v s = Panic ''kfree''" by (rule kfree_bad)
next
  assume v: "page_ok s v \<and> v \<notin> set fl"
  then obtain t where t: "kfree v s = Ret t" "kmem_inv t (v # fl)"
    using kpool.free_ok [OF assms] by blast
  moreover obtain u where "kalloc t = Ret (v, u)" "kmem_inv u fl"
    using kpool.alloc_some [OF t(2)] by blast
  moreover have "same_outside v (mem s) (mem t)"
    using kfree_other_fields [OF assms _ t(1)] v by blast
  ultimately show "\<exists>t u. kfree v s = Ret t \<and> kmem_inv t (v # fl) \<and> same_outside v (mem s) (mem t)
       \<and> kalloc t = Ret (v, u) \<and> kmem_inv u fl" by blast
qed

theorem kfree_then_kalloc_witness:
  "page_ok two_pages 0x80405000 \<and> kfree 0x80405800 two_pages = Panic ''kfree'' \<and>
   (\<exists>t u. kfree 0x80405000 two_pages = Ret t \<and> kalloc t = Ret (0x80405000, u))"
proof -
  have "page_ok two_pages 0x80405000" "\<not> page_ok two_pages 0x80405800"
    by (simp_all add: page_ok_def two_pages_def boot_kst_def aligned_def V2P_def KERNBASE_def PHYSTOP_def)
  then show ?thesis
    using kfree_then_kalloc [OF two_pages_inv, of "0x80405000"] kfree_then_kalloc [OF two_pages_inv, of "0x80405800"]
    by auto
qed

text \<open>
  \<open>free_list\<close> is the part of the invariant that does not speak of the CPU.  While locking is off, \<open>kfree\<close> does not
  look at the CPU at all, so the first phase of the initialisation runs before the CPUs are known.
\<close>

definition free_list :: "'a kst_scheme \<Rightarrow> uint list \<Rightarrow> bool" where
  "free_list s fl \<longleftrightarrow> lock_free (kmem_lock s) \<and> chain (mem s) (freelist s) fl \<and> distinct fl \<and> (\<forall>p \<in> set fl. page_ok s p)"

definition same_pages :: "'a kst_scheme \<Rightarrow> 'a kst_scheme \<Rightarrow> bool" where
  "same_pages s t \<longleftrightarrow> mem t = mem s \<and> freelist t = freelist s \<and> use_lock t = use_lock s \<and> kmem_lock t = kmem_lock s \<and> kend t = kend s"

definition same_hw :: "'a kst_scheme \<Rightarrow> 'a kst_scheme \<Rightarrow> bool" where
  "same_hw s t \<longleftrightarrow> cpus t = cpus s \<and> ncpu t = ncpu s \<and> lapicid t = lapicid s \<and> ifl t = ifl s \<and> kend t = kend s"

lemma kmem_inv_free_list: "kmem_inv s fl \<longleftrightarrow> hw_ok s \<and> free_list s fl"
  by (simp add: kmem_inv_def free_list_def)

lemma free_list_same: "same_pages s t \<Longrightarrow> free_list s fl \<longleftrightarrow> free_list t fl"
  by (simp add: same_pages_def free_list_def page_ok_def)

lemma hw_ok_same: "same_hw s t \<Longrightarrow> hw_ok s \<longleftrightarrow> hw_ok t"
  by (simp add: same_hw_def hw_ok_iff cur_cpu_def here_def depth_def)

lemma kfree_nolock:
  assumes "\<not> use_lock s" and "page_ok s v"
  shows "kfree v s = Ret (s\<lparr>mem := st32 (memset (mem s) v 1 PGSIZE) v (freelist s), freelist := v\<rparr>)"
  using assms unfolding kfree_def page_ok_def mod_PGSIZE_aligned
  by (auto simp: kmem_acquire_def kmem_release_def Let_def)

lemma freerange_loop_nolock:
  "\<not> use_lock s \<Longrightarrow> same_pages s s' \<Longrightarrow> freerange_loop fuel p vend s = Ret t \<Longrightarrow>
   \<exists>t'. freerange_loop fuel p vend s' = Ret t' \<and> same_pages t t' \<and> same_hw s' t'"
proof (induction fuel arbitrary: p s s')
  case (Suc fuel)
  show ?case
  proof (cases "p + PGSIZE \<le> vend")
    case True
    then obtain u where u: "kfree p s = Ret u" "freerange_loop fuel (p + PGSIZE) vend u = Ret t"
      using Suc.prems(3) by (auto elim: andthen_RetE)
    have ok: "page_ok s p" using u(1) kfree_bad [of s p] by (cases "page_ok s p") simp_all
    have "page_ok s' p" "\<not> use_lock s'" using ok Suc.prems(1,2) by (simp_all add: same_pages_def page_ok_def)
    note u' = kfree_nolock [OF this(2,1)]
    let ?u = "s'\<lparr>mem := st32 (memset (mem s') p 1 PGSIZE) p (freelist s'), freelist := p\<rparr>"
    have "same_pages u ?u" "\<not> use_lock u" "same_hw s' ?u"
      using u(1) kfree_nolock [OF Suc.prems(1) ok] Suc.prems(1,2) by (auto simp: same_pages_def same_hw_def)
    then show ?thesis using Suc.IH [OF _ _ u(2)] u' True by (fastforce simp: same_hw_def)
  next
    case False
    then show ?thesis using Suc.prems by (auto simp: same_hw_def)
  qed
qed simp

lemma freerange_nolock:
  assumes "\<not> use_lock s" and "free_list s fl" and "kend s \<le> vstart" and "KERNBASE \<le> vstart" and "vstart \<le> vend"
    and "unat vend \<le> 0x8E000000" and n: "n = (unat vend - unat (PGROUNDUP vstart)) div 4096"
    and "\<forall>q \<in> set (page_seq (PGROUNDUP vstart) n). q \<notin> set fl" and "PGROUNDUP vstart \<le> vend"
  shows "\<exists>t. freerange vstart vend s = Ret t \<and> free_list t (rev (page_seq (PGROUNDUP vstart) n) @ fl)
    \<and> same_hw s t \<and> \<not> use_lock t"
proof -
  let ?s = "s\<lparr>cpus := [cpu0], ncpu := 1, lapicid := 0, ifl := False\<rparr>"
  have same: "same_pages ?s s" by (simp add: same_pages_def)
  have "hw_ok ?s" by (simp add: hw_ok_def cur_cpu_def cpu0_def)
  then have "kmem_inv ?s fl" using assms(2) free_list_same [OF same] by (simp add: kmem_inv_free_list)
  then obtain t where t: "freerange vstart vend ?s = Ret t" "kmem_inv t (rev (page_seq (PGROUNDUP vstart) n) @ fl)" "use_lock t = use_lock ?s"
    using freerange_spec [of ?s fl vstart vend n] assms by auto
  obtain t' where "freerange vstart vend s = Ret t'" "same_pages t t'" "same_hw s t'"
    using freerange_loop_nolock [OF _ same t(1) [unfolded freerange_def]] assms(1) by (auto simp: freerange_def)
  then show ?thesis using t free_list_same assms(1) by (auto simp: kmem_inv_free_list same_pages_def)
qed

text \<open>The pages between two aligned addresses of the kernel's half of memory.\<close>

lemma page_range:
  assumes "aligned 4096 p" and "aligned 4096 e" and "unat p \<le> unat e" and "0x80000000 \<le> unat p" and "unat e \<le> 0x8E000000"
    and "kend s \<le> p"
  shows "set (page_seq p ((unat e - unat p) div 4096)) = {v. page_ok s v \<and> p \<le> v \<and> v < e}"
proof -
  obtain x y where xy: "unat p = 4096 * x" "unat e = 4096 * y" using assms(1,2) by (metis aligned_pageE)
  then have n: "unat p + 4096 * ((unat e - unat p) div 4096) = unat e"
    using assms(3) nonzero_mult_div_cancel_left [of 4096 "y - x"] by (simp add: diff_mult_distrib2)
  then have "set (page_seq p ((unat e - unat p) div 4096)) = {v. aligned 4096 v \<and> unat p \<le> unat v \<and> unat v < unat e}"
    using set_page_seq [OF assms(1)] assms(5) by simp
  moreover have "unat (V2P v) < 0xE000000 \<longleftrightarrow> 0x80000000 \<le> unat v \<and> unat v < 0x8E000000" for v
    using unat_uint_less [of v] by (auto simp: V2P_def unat_sub_wrap KERNBASE_def)
  ultimately show ?thesis
    using assms(4-6) by (auto simp: page_ok_def word_le_nat_alt word_less_nat_alt PHYSTOP_def)
qed

text \<open>
  C7: the two phases in which \<open>main\<close> gives memory to the allocator.  The first runs before the CPUs are known,
  with locking off: it puts exactly the pages between the end of the kernel and 4 MB on the empty free
  list, each once.  The second runs when the CPU is known and takes the free list as the code in
  between has left it, which allocates pages: it adds exactly the pages from 4 MB up to the end of memory and
  switches locking on.
\<close>

theorem kinit_frees_all_pages:
  assumes "freelist s = 0" and "KERNBASE \<le> kend s" and "kend s \<le> P2V 0x400000"
  shows "runs (kinit1 (kend s) (P2V 0x400000) s) (\<lambda>t. \<not> use_lock t \<and>
      (\<exists>fl. free_list t fl \<and> set fl = {v. page_ok s v \<and> v < P2V 0x400000}))
    \<and> (\<forall>t fl. free_list t fl \<and> (\<forall>v\<in>set fl. v < P2V 0x400000) \<and> \<not> use_lock t \<and> hw_ok t \<and> kend t = kend s \<longrightarrow>
        runs (kinit2 (P2V 0x400000) (P2V PHYSTOP) t) (\<lambda>u. use_lock u \<and>
          (\<exists>fl'. kmem_inv u fl' \<and> set fl' = set fl \<union> {v. page_ok s v \<and> P2V 0x400000 \<le> v})))"
proof (intro conjI allI impI)
  let ?s = "s\<lparr>kmem_lock := initlock ''kmem'', use_lock := False\<rparr>" and ?p = "PGROUNDUP (kend s)" and ?q = "P2V 0x400000 :: uint"
  have q: "unat ?q = 0x80400000" "aligned 4096 ?q" by (simp_all add: P2V_def KERNBASE_def aligned_def)
  have k: "unat (kend s) \<le> 0x80400000" "0x80000000 \<le> unat (kend s)"
    using assms(2,3) q by (simp_all add: word_le_nat_alt KERNBASE_def)
  have pq: "unat ?p \<le> unat ?q" and kp: "unat (kend s) \<le> unat ?p"
    using PGROUNDUP_least [OF q(2), of "kend s"] PGROUNDUP_ge [of "kend s"] k q by simp_all
  have "page_ok s v \<and> ?p \<le> v \<longleftrightarrow> page_ok s v" for v
    using PGROUNDUP_least [of v "kend s"] k by (auto simp: page_ok_def word_le_nat_alt)
  then have set: "set (page_seq ?p ((unat ?q - unat ?p) div 4096)) = {v. page_ok s v \<and> v < ?q}"
    using page_range [OF aligned_PGROUNDUP q(2) pq, of s] kp k q by (auto simp: word_le_nat_alt)
  define n where "n = (unat ?q - unat ?p) div 4096"
  have "free_list ?s []" using assms(1) by (simp add: free_list_def lock_free_def initlock_def)
  then have "\<exists>t. freerange (kend s) ?q ?s = Ret t \<and> free_list t (rev (page_seq ?p n) @ []) \<and> same_hw ?s t \<and> \<not> use_lock t"
    by (intro freerange_nolock [OF _ _ _ _ _ _ n_def]) (use assms(2,3) k q pq in \<open>simp_all add: word_le_nat_alt\<close>)
  then obtain t where "freerange (kend s) ?q ?s = Ret t" "free_list t (rev (page_seq ?p n))" "\<not> use_lock t" by auto
  moreover have "set (rev (page_seq ?p n)) = {v. page_ok s v \<and> v < ?q}" unfolding set_rev n_def by (rule set)
  ultimately show "runs (kinit1 (kend s) ?q s) (\<lambda>t. \<not> use_lock t \<and> (\<exists>fl. free_list t fl \<and> set fl = {v. page_ok s v \<and> v < ?q}))"
    unfolding runs_iff kinit1_def by blast
next
  fix t fl
  let ?q = "P2V 0x400000 :: uint" and ?e = "P2V PHYSTOP"
  assume a: "free_list t fl \<and> (\<forall>v\<in>set fl. v < ?q) \<and> \<not> use_lock t \<and> hw_ok t \<and> kend t = kend s"
  have q: "unat ?q = 0x80400000" "unat ?e = 0x8E000000" "aligned 4096 ?q" "aligned 4096 ?e"
    by (simp_all add: P2V_def KERNBASE_def PHYSTOP_def aligned_def)
  have kq: "kend t \<le> ?q" using a assms(3) by simp
  have "page_ok t v \<and> v < ?e \<longleftrightarrow> page_ok s v" for v
    using a page_ok_range [of t v] q by (auto simp: page_ok_def word_less_nat_alt)
  then have set: "set (page_seq ?q ((unat ?e - unat ?q) div 4096)) = {v. page_ok s v \<and> ?q \<le> v}"
    using page_range [OF q(3,4), of t] kq q by auto
  note up = PGROUNDUP_aligned [OF q(3)]
  define n where "n = (unat ?e - unat ?q) div 4096"
  have disj: "\<forall>v\<in>set (page_seq ?q n). v \<notin> set fl" using set a unfolding n_def by auto
  have "\<exists>u. freerange ?q ?e t = Ret u \<and> free_list u (rev (page_seq (PGROUNDUP ?q) n) @ fl) \<and> same_hw t u \<and> \<not> use_lock u"
  proof (rule freerange_nolock)
    show "n = (unat ?e - unat (PGROUNDUP ?q)) div 4096" by (simp only: up n_def)
  qed (use a kq q disj in \<open>simp_all add: up word_le_nat_alt KERNBASE_def\<close>)
  then obtain u where u: "freerange ?q ?e t = Ret u" "free_list u (rev (page_seq ?q n) @ fl)" "same_hw t u" unfolding up by blast
  let ?u = "u\<lparr>use_lock := True\<rparr>"
  have "hw_ok u" using hw_ok_same [OF u(3)] a by simp
  then have "kmem_inv ?u (rev (page_seq ?q n) @ fl)"
    using u(2) by (simp add: kmem_inv_free_list free_list_def hw_ok_iff depth_def here_def cur_cpu_def page_ok_def)
  moreover have "set (rev (page_seq ?q n) @ fl) = set fl \<union> {v. page_ok s v \<and> ?q \<le> v}"
    unfolding set_append set_rev n_def set by blast
  ultimately have "\<exists>fl'. kmem_inv ?u fl' \<and> set fl' = set fl \<union> {v. page_ok s v \<and> ?q \<le> v}" by blast
  moreover have "kinit2 ?q ?e t = Ret ?u" using u(1) by (simp add: kinit2_def)
  ultimately show "runs (kinit2 ?q ?e t) (\<lambda>u. use_lock u \<and> (\<exists>fl'. kmem_inv u fl' \<and> set fl' = set fl \<union> {v. page_ok s v \<and> ?q \<le> v}))"
    by simp
qed

text \<open>A machine as \<open>main\<close> finds it, before the CPUs are known.\<close>

definition early_kst :: kst where
  "early_kst = boot_kst\<lparr>cpus := [], ncpu := 0, use_lock := False\<rparr>"

theorem kinit_frees_all_pages_witness:
  "runs (kinit1 (kend early_kst) (P2V 0x400000) early_kst) (\<lambda>t. \<not> use_lock t \<and>
      (\<exists>fl. free_list t fl \<and> set fl = {v. page_ok early_kst v \<and> v < P2V 0x400000}))
    \<and> runs (kinit2 (P2V 0x400000) (P2V PHYSTOP) (boot_kst\<lparr>use_lock := False, freelist := 0x80200000\<rparr>)) (\<lambda>u. use_lock u \<and>
        (\<exists>fl. kmem_inv u fl \<and> set fl = {0x80200000} \<union> {v. page_ok early_kst v \<and> P2V 0x400000 \<le> v}))"
proof -
  have e: "freelist early_kst = 0" "KERNBASE \<le> kend early_kst" "kend early_kst \<le> P2V 0x400000"
    by (simp_all add: early_kst_def boot_kst_def KERNBASE_def P2V_def)
  let ?t = "boot_kst\<lparr>use_lock := False, freelist := 0x80200000\<rparr>"
  have "free_list ?t [0x80200000]" "\<forall>v\<in>set [0x80200000]. v < P2V 0x400000" "hw_ok ?t"
    using hw_ok_boot by (simp_all add: free_list_def boot_kst_def lock_free_def initlock_def page_ok_def aligned_def
        V2P_def P2V_def KERNBASE_def PHYSTOP_def hw_ok_iff depth_def here_def cur_cpu_def)
  moreover have "\<not> use_lock ?t" "kend ?t = kend early_kst" by (simp_all add: early_kst_def boot_kst_def)
  ultimately have t: "free_list ?t [0x80200000] \<and> (\<forall>v\<in>set [0x80200000]. v < P2V 0x400000) \<and> \<not> use_lock ?t \<and> hw_ok ?t \<and> kend ?t = kend early_kst"
    by blast
  show ?thesis
    using kinit_frees_all_pages [OF e(1-3), THEN conjunct1]
      kinit_frees_all_pages [OF e(1-3), THEN conjunct2, THEN spec, THEN spec, THEN mp, OF t] by simp
qed

end
