(* ===== verification/Vm.thy ===== *)
theory Vm
  imports Kalloc
begin

text \<open>
  Page tables: \<^verbatim>\<open>vm.c\<close> over the byte-level memory.  The first part translates the file; the second
  reads a page directory as a map from pages to entries and shows what \<open>walkpgdir\<close> and \<open>mappages\<close>
  do to it.  The operations on user memory are studied in the theory \<open>Uvm\<close>.

  A page directory is the kernel address of its page.  The null pointer is 0.  Messages printed on
  the console when memory runs out are not represented.
\<close>

section \<open>Walking and mapping\<close>

definition walkpgdir :: "uint \<Rightarrow> uint \<Rightarrow> bool \<Rightarrow> 'a kst_scheme \<Rightarrow> (uint \<times> 'a kst_scheme) outcome" where
  "walkpgdir pgdir va alloc s =
     (let pde = pgdir + 4 * PDX va in
      if ld32 (mem s) pde AND PTE_P \<noteq> 0 then
        let pgtab = P2V (PTE_ADDR (ld32 (mem s) pde)) in Ret (pgtab + 4 * PTX va, s)
      else if \<not> alloc then Ret (0, s)
      else andthen (kalloc s) (\<lambda>(pgtab, s).
        if pgtab = 0 then Ret (0, s)
        else
          let s = s\<lparr>mem := memset (mem s) pgtab 0 PGSIZE\<rparr>;
              s = s\<lparr>mem := st32 (mem s) pde (V2P pgtab OR PTE_P OR PTE_W OR PTE_U)\<rparr> in
          Ret (pgtab + 4 * PTX va, s)))"

text \<open>
  The loop of \<open>mappages\<close> moves from page to page until it meets \<open>last\<close> (here \<open>lst\<close>), which it does within the
  2^20 pages of the address space; the first argument counts them.
\<close>

fun mappages_loop :: "nat \<Rightarrow> uint \<Rightarrow> uint \<Rightarrow> uint \<Rightarrow> uint \<Rightarrow> uint \<Rightarrow> 'a kst_scheme \<Rightarrow>
    (int \<times> 'a kst_scheme) outcome" where
  "mappages_loop 0 pgdir a lst pa perm s = Diverge"
| "mappages_loop (Suc fuel) pgdir a lst pa perm s =
     andthen (walkpgdir pgdir a True s) (\<lambda>(pte, s).
     if pte = 0 then Ret (-1, s)
     else if ld32 (mem s) pte AND PTE_P \<noteq> 0 then Panic ''remap''
     else
       let s = s\<lparr>mem := st32 (mem s) pte (pa OR perm OR PTE_P)\<rparr> in
       if a = lst then Ret (0, s)
       else mappages_loop fuel pgdir (a + PGSIZE) lst (pa + PGSIZE) perm s)"

definition mappages :: "uint \<Rightarrow> uint \<Rightarrow> uint \<Rightarrow> uint \<Rightarrow> uint \<Rightarrow> 'a kst_scheme \<Rightarrow>
    (int \<times> 'a kst_scheme) outcome" where
  "mappages pgdir va sz pa perm s =
     mappages_loop (2 ^ 20) pgdir (PGROUNDDOWN va) (PGROUNDDOWN (va + sz - 1)) pa perm s"

section \<open>User memory\<close>

text \<open>
  \<open>deallocuvm\<close> moves to the start of the next 4 MB when a page table is missing.  Its loop and
  that of \<open>allocuvm\<close> visit each page at most once.
\<close>

fun deallocuvm_loop :: "nat \<Rightarrow> uint \<Rightarrow> uint \<Rightarrow> uint \<Rightarrow> 'a kst_scheme \<Rightarrow> 'a kst_scheme outcome" where
  "deallocuvm_loop 0 pgdir a oldsz s = Diverge"
| "deallocuvm_loop (Suc fuel) pgdir a oldsz s =
     (if a < oldsz then
        andthen (walkpgdir pgdir a False s) (\<lambda>(pte, s).
        if pte = 0 then deallocuvm_loop fuel pgdir (PGADDR (PDX a + 1) 0 0 - PGSIZE + PGSIZE) oldsz s
        else if ld32 (mem s) pte AND PTE_P \<noteq> 0 then
          let pa = PTE_ADDR (ld32 (mem s) pte) in
          if pa = 0 then Panic ''kfree''
          else andthen (kfree (P2V pa) s) (\<lambda>s.
            deallocuvm_loop fuel pgdir (a + PGSIZE) oldsz (s\<lparr>mem := st32 (mem s) pte 0\<rparr>))
        else deallocuvm_loop fuel pgdir (a + PGSIZE) oldsz s)
      else Ret s)"

definition deallocuvm :: "uint \<Rightarrow> uint \<Rightarrow> uint \<Rightarrow> 'a kst_scheme \<Rightarrow> (uint \<times> 'a kst_scheme) outcome" where
  "deallocuvm pgdir oldsz newsz s =
     (if newsz \<ge> oldsz then Ret (oldsz, s)
      else andthen (deallocuvm_loop (2 ^ 20) pgdir (PGROUNDUP newsz) oldsz s) (\<lambda>s. Ret (newsz, s)))"

fun allocuvm_loop :: "nat \<Rightarrow> uint \<Rightarrow> uint \<Rightarrow> uint \<Rightarrow> uint \<Rightarrow> 'a kst_scheme \<Rightarrow> (uint \<times> 'a kst_scheme) outcome" where
  "allocuvm_loop 0 pgdir a oldsz newsz s = Diverge"
| "allocuvm_loop (Suc fuel) pgdir a oldsz newsz s =
     (if a < newsz then
        andthen (kalloc s) (\<lambda>(page, s).
        if page = 0 then andthen (deallocuvm pgdir newsz oldsz s) (\<lambda>(_, s). Ret (0, s))
        else
          let s = s\<lparr>mem := memset (mem s) page 0 PGSIZE\<rparr> in
          andthen (mappages pgdir a PGSIZE (V2P page) (PTE_W OR PTE_U) s) (\<lambda>(r, s).
          if r < 0 then
            andthen (deallocuvm pgdir newsz oldsz s) (\<lambda>(_, s).
            andthen (kfree page s) (\<lambda>s. Ret (0, s)))
          else allocuvm_loop fuel pgdir (a + PGSIZE) oldsz newsz s))
      else Ret (newsz, s))"

definition allocuvm :: "uint \<Rightarrow> uint \<Rightarrow> uint \<Rightarrow> 'a kst_scheme \<Rightarrow> (uint \<times> 'a kst_scheme) outcome" where
  "allocuvm pgdir oldsz newsz s =
     (if newsz \<ge> KERNBASE then Ret (0, s)
      else if newsz < oldsz then Ret (oldsz, s)
      else allocuvm_loop (2 ^ 20) pgdir (PGROUNDUP oldsz) oldsz newsz s)"

text \<open>The second loop of \<open>freevm\<close>; the first argument counts the entries that are left.\<close>

fun freevm_loop :: "nat \<Rightarrow> uint \<Rightarrow> uint \<Rightarrow> 'a kst_scheme \<Rightarrow> 'a kst_scheme outcome" where
  "freevm_loop 0 pgdir i s = Ret s"
| "freevm_loop (Suc n) pgdir i s =
     (if ld32 (mem s) (pgdir + 4 * i) AND PTE_P \<noteq> 0 then
        andthen (kfree (P2V (PTE_ADDR (ld32 (mem s) (pgdir + 4 * i)))) s) (freevm_loop n pgdir (i + 1))
      else freevm_loop n pgdir (i + 1) s)"

definition freevm :: "uint \<Rightarrow> 'a kst_scheme \<Rightarrow> 'a kst_scheme outcome" where
  "freevm pgdir s =
     (if pgdir = 0 then Panic ''freevm: no pgdir''
      else
        andthen (deallocuvm pgdir KERNBASE 0 s) (\<lambda>(_, s).
        andthen (freevm_loop NPDENTRIES pgdir 0 s) (kfree pgdir)))"

definition clearpteu :: "uint \<Rightarrow> uint \<Rightarrow> 'a kst_scheme \<Rightarrow> 'a kst_scheme outcome" where
  "clearpteu pgdir uva s =
     andthen (walkpgdir pgdir uva False s) (\<lambda>(pte, s).
     if pte = 0 then Panic ''clearpteu''
     else Ret (s\<lparr>mem := st32 (mem s) pte (ld32 (mem s) pte AND NOT PTE_U)\<rparr>))"

text \<open>
  \<open>uva2ka\<close> dereferences the result of \<open>walkpgdir\<close> without comparing it with null.
\<close>

definition uva2ka :: "uint \<Rightarrow> uint \<Rightarrow> 'a kst_scheme \<Rightarrow> (uint \<times> 'a kst_scheme) outcome" where
  "uva2ka pgdir uva s =
     andthen (walkpgdir pgdir uva False s) (\<lambda>(pte, s).
     if pte = 0 then Undef ''null pte''
     else if ld32 (mem s) pte AND PTE_P = 0 then Ret (0, s)
     else if ld32 (mem s) pte AND PTE_U = 0 then Ret (0, s)
     else Ret (P2V (PTE_ADDR (ld32 (mem s) pte)), s))"

text \<open>
  Each round of \<open>copyout\<close> but the first and the last copies a whole page, so the loop makes at most
  2^20 + 1 rounds.
\<close>

fun copyout_loop :: "nat \<Rightarrow> uint \<Rightarrow> uint \<Rightarrow> uint \<Rightarrow> uint \<Rightarrow> 'a kst_scheme \<Rightarrow> (int \<times> 'a kst_scheme) outcome" where
  "copyout_loop 0 pgdir va buf len s = Diverge"
| "copyout_loop (Suc fuel) pgdir va buf len s =
     (if len > 0 then
        let va0 = PGROUNDDOWN va in
        andthen (uva2ka pgdir va0 s) (\<lambda>(pa0, s).
        if pa0 = 0 then Ret (-1, s)
        else
          let n = PGSIZE - (va - va0);
              n = (if n > len then len else n);
              s = s\<lparr>mem := memmove (mem s) (pa0 + (va - va0)) buf n\<rparr> in
          copyout_loop fuel pgdir (va0 + PGSIZE) (buf + n) (len - n) s)
      else Ret (0, s))"

definition copyout :: "uint \<Rightarrow> uint \<Rightarrow> uint \<Rightarrow> uint \<Rightarrow> 'a kst_scheme \<Rightarrow> (int \<times> 'a kst_scheme) outcome" where
  "copyout pgdir va p len s = copyout_loop (2 ^ 20 + 2) pgdir va p len s"

section \<open>Kernel address spaces\<close>

text \<open>\<open>struct kmap\<close> and its table; \<open>data\<close>, placed by the linker script, is the state's \<open>kdata\<close>.\<close>

record kmap =
  k_virt :: uint
  phys_start :: uint
  phys_end :: uint
  k_perm :: uint

definition kmaps :: "uint \<Rightarrow> kmap list" where
  "kmaps data =
     [\<lparr>k_virt = KERNBASE, phys_start = 0, phys_end = EXTMEM, k_perm = PTE_W\<rparr>,
      \<lparr>k_virt = KERNLINK, phys_start = V2P KERNLINK, phys_end = V2P data, k_perm = 0\<rparr>,
      \<lparr>k_virt = data, phys_start = V2P data, phys_end = PHYSTOP, k_perm = PTE_W\<rparr>,
      \<lparr>k_virt = DEVSPACE, phys_start = DEVSPACE, phys_end = 0, k_perm = PTE_W\<rparr>]"

fun setupkvm_loop :: "kmap list \<Rightarrow> uint \<Rightarrow> 'a kst_scheme \<Rightarrow> (uint \<times> 'a kst_scheme) outcome" where
  "setupkvm_loop [] pgdir s = Ret (pgdir, s)"
| "setupkvm_loop (k # ks) pgdir s =
     andthen (mappages pgdir (k_virt k) (phys_end k - phys_start k) (phys_start k) (k_perm k) s) (\<lambda>(r, s).
     if r < 0 then andthen (freevm pgdir s) (\<lambda>s. Ret (0, s))
     else setupkvm_loop ks pgdir s)"

definition setupkvm :: "'a kst_scheme \<Rightarrow> (uint \<times> 'a kst_scheme) outcome" where
  "setupkvm s =
     andthen (kalloc s) (\<lambda>(pgdir, s).
     if pgdir = 0 then Ret (0, s)
     else
       let s = s\<lparr>mem := memset (mem s) pgdir 0 PGSIZE\<rparr> in
       if P2V PHYSTOP > DEVSPACE then Panic ''PHYSTOP too high''
       else setupkvm_loop (kmaps (kdata s)) pgdir s)"

fun copyuvm_loop :: "nat \<Rightarrow> uint \<Rightarrow> uint \<Rightarrow> uint \<Rightarrow> uint \<Rightarrow> 'a kst_scheme \<Rightarrow> (uint \<times> 'a kst_scheme) outcome" where
  "copyuvm_loop 0 pgdir d i sz s = Diverge"
| "copyuvm_loop (Suc fuel) pgdir d i sz s =
     (if i < sz then
        andthen (walkpgdir pgdir i False s) (\<lambda>(pte, s).
        if pte = 0 then Panic ''copyuvm: pte should exist''
        else if ld32 (mem s) pte AND PTE_P = 0 then Panic ''copyuvm: page not present''
        else
          let pa = PTE_ADDR (ld32 (mem s) pte); flags = PTE_FLAGS (ld32 (mem s) pte) in
          andthen (kalloc s) (\<lambda>(page, s).
          if page = 0 then andthen (freevm d s) (\<lambda>s. Ret (0, s))
          else
            let s = s\<lparr>mem := memmove (mem s) page (P2V pa) PGSIZE\<rparr> in
            andthen (mappages d i PGSIZE (V2P page) flags s) (\<lambda>(r, s).
            if r < 0 then andthen (kfree page s) (\<lambda>s. andthen (freevm d s) (\<lambda>s. Ret (0, s)))
            else copyuvm_loop fuel pgdir d (i + PGSIZE) sz s)))
      else Ret (d, s))"

definition copyuvm :: "uint \<Rightarrow> uint \<Rightarrow> 'a kst_scheme \<Rightarrow> (uint \<times> 'a kst_scheme) outcome" where
  "copyuvm pgdir sz s =
     andthen (setupkvm s) (\<lambda>(d, s). if d = 0 then Ret (0, s) else copyuvm_loop (2 ^ 20) pgdir d 0 sz s)"

text \<open>
  \<open>inituvm\<close> ignores the results of \<open>kalloc\<close> and \<open>mappages\<close>; writing through the null page is
  undefined.  \<open>loaduvm\<close> reads the file through \<open>readi\<close>, its first argument.
\<close>

definition inituvm :: "uint \<Rightarrow> uint \<Rightarrow> uint \<Rightarrow> 'a kst_scheme \<Rightarrow> 'a kst_scheme outcome" where
  "inituvm pgdir init sz s =
     (if sz \<ge> PGSIZE then Panic ''inituvm: more than a page''
      else andthen (kalloc s) (\<lambda>(page, s).
        if page = 0 then Undef ''memset of null''
        else
          let s = s\<lparr>mem := memset (mem s) page 0 PGSIZE\<rparr> in
          andthen (mappages pgdir 0 PGSIZE (V2P page) (PTE_W OR PTE_U) s) (\<lambda>(_, s).
          Ret (s\<lparr>mem := memmove (mem s) page init sz\<rparr>))))"

fun loaduvm_loop :: "(uint \<Rightarrow> uint \<Rightarrow> uint \<Rightarrow> 'a kst_scheme \<Rightarrow> (int \<times> 'a kst_scheme) outcome) \<Rightarrow>
    nat \<Rightarrow> uint \<Rightarrow> uint \<Rightarrow> uint \<Rightarrow> uint \<Rightarrow> uint \<Rightarrow> 'a kst_scheme \<Rightarrow> (int \<times> 'a kst_scheme) outcome" where
  "loaduvm_loop readi 0 pgdir addr offset i sz s = Diverge"
| "loaduvm_loop readi (Suc fuel) pgdir addr offset i sz s =
     (if i < sz then
        andthen (walkpgdir pgdir (addr + i) False s) (\<lambda>(pte, s).
        if pte = 0 then Panic ''loaduvm: address should exist''
        else
          let pa = PTE_ADDR (ld32 (mem s) pte);
              n = (if sz - i < PGSIZE then sz - i else PGSIZE) in
          andthen (readi (P2V pa) (offset + i) n s) (\<lambda>(r, s).
          if (of_int r :: uint) \<noteq> n then Ret (-1, s)
          else loaduvm_loop readi fuel pgdir addr offset (i + PGSIZE) sz s))
      else Ret (0, s))"

definition loaduvm :: "(uint \<Rightarrow> uint \<Rightarrow> uint \<Rightarrow> 'a kst_scheme \<Rightarrow> (int \<times> 'a kst_scheme) outcome) \<Rightarrow>
    uint \<Rightarrow> uint \<Rightarrow> uint \<Rightarrow> uint \<Rightarrow> 'a kst_scheme \<Rightarrow> (int \<times> 'a kst_scheme) outcome" where
  "loaduvm readi pgdir addr offset sz s =
     (if addr mod PGSIZE \<noteq> 0 then Panic ''loaduvm: addr must be page aligned''
      else loaduvm_loop readi (2 ^ 20 + 1) pgdir addr offset 0 sz s)"

section \<open>Switching\<close>

text \<open>
  The state adds \<open>kpgdir\<close> and the address the linker gives to the array \<open>cpus\<close>.  A \<open>struct cpu\<close> takes
  176 bytes and its 104-byte task state lies at offset 8.  \<open>switchuvm\<close> receives the \<open>kstack\<close> and
  \<open>pgdir\<close> of the process, or \<open>None\<close> for a null pointer.
\<close>

record vst = kst +
  kpgdir :: uint
  cpus_addr :: uint

definition seginit :: "'a hw_scheme \<Rightarrow> 'a hw_scheme outcome" where
  "seginit s =
     andthen (cpuid s) (\<lambda>i. Ret (upd_cpu i (\<lambda>c. c\<lparr>gdt := (gdt c)
       [SEG_KCODE := SEG (STA_X OR STA_R) 0 0xffffffff 0,
        SEG_KDATA := SEG STA_W 0 0xffffffff 0,
        SEG_UCODE := SEG (STA_X OR STA_R) 0 0xffffffff DPL_USER,
        SEG_UDATA := SEG STA_W 0 0xffffffff DPL_USER]\<rparr>) s))"

definition switchkvm :: "'a vst_scheme \<Rightarrow> 'a vst_scheme" where
  "switchkvm s = s\<lparr>cr3 := V2P (kpgdir s)\<rparr>"

definition kvmalloc :: "'a vst_scheme \<Rightarrow> 'a vst_scheme outcome" where
  "kvmalloc s = andthen (setupkvm s) (\<lambda>(d, s). Ret (switchkvm (s\<lparr>kpgdir := d\<rparr>)))"

definition switchuvm :: "(uint \<times> uint) option \<Rightarrow> 'a vst_scheme \<Rightarrow> 'a vst_scheme outcome" where
  "switchuvm p s =
     (case p of
        None \<Rightarrow> Panic ''switchuvm: no process''
      | Some (kstack, pgdir) \<Rightarrow>
          if kstack = 0 then Panic ''switchuvm: no kstack''
          else if pgdir = 0 then Panic ''switchuvm: no pgdir''
          else
            andthen (pushcli s) (\<lambda>s.
            andthen (mycpu s) (\<lambda>i.
            let ts = cpus_addr s + 176 * of_nat i + 8;
                s = upd_cpu i (\<lambda>c. c\<lparr>gdt := (gdt c)[SEG_TSS := (SEG16 STS_T32A ts 103 0)\<lparr>seg_s := 0\<rparr>],
                  ts_ss0 := of_nat (SEG_KDATA * 8), ts_esp0 := kstack + KSTACKSIZE, ts_iomb := 0xFFFF\<rparr>) s;
                s = s\<lparr>cr3 := V2P pgdir\<rparr> in
            popcli s)))"

text \<open>\<open>struct mem_struct\<close> of \<^verbatim>\<open>vm.h\<close>, and \<open>walkpt\<close>, which returns 0 and fills in nothing.\<close>

record mem_struct =
  ms_va :: uint
  ms_pd_index :: uint
  ms_pt_index :: uint
  ms_pg_offset :: uint
  ms_cr3 :: uint
  ms_pde :: uint
  ms_ppn_pde :: uint
  ms_pgtab :: uint
  ms_pte :: uint
  ms_ppn_pte :: uint
  ms_pa :: uint

definition walkpt :: "mem_struct \<Rightarrow> uint \<Rightarrow> int \<times> mem_struct" where
  "walkpt my_struct va = (0, my_struct)"

end
