(* ===== verification/Pagemap.thy ===== *)
theory Pagemap
  imports Vm
begin

text \<open>
  A page directory read as a map: \<open>entry m pgdir va\<close> is the page-table entry the hardware finds for
  \<open>va\<close>, 0 when there is no page table.  \<open>pt_inv\<close> says that the directory and its page tables are
  distinct pages of the allocator that are not free.  On this invariant, \<open>walkpgdir\<close> does not
  change the map, storing through the slot it returns updates the map at one page, and \<open>mappages\<close>
  maps the pages of a range.
\<close>

section \<open>Slots of a page\<close>

lemma slot_props:
  assumes "aligned 4096 p" and "unat i < 1024"
  shows "unat (p + 4 * i) = unat p + 4 * unat i" and "aligned 4 (p + 4 * i)" and "pgno (p + 4 * i) = pgno p"
proof -
  obtain q where q: "unat p = 4096 * q" "q < 1048576" "pgno p = q" using assms(1) by (rule aligned_pageE)
  have i: "unat (4 * i) = 4 * unat i" using assms(2) by (simp add: unat_word_ariths)
  have "unat p + unat (4 * i) < 2 ^ 32" using i q assms(2) by simp
  then show u: "unat (p + 4 * i) = unat p + 4 * unat i" using i by (simp add: unat_add_uint)
  have "4096 * q + 4 * unat i = 4 * (1024 * q + unat i)" by simp
  then show "aligned 4 (p + 4 * i)" unfolding aligned_def u q(1) by (metis mod_mult_self1_is_0)
  have "(4096 * q + 4 * unat i) div 4096 = q" using assms(2) by (simp add: div_nat_eqI)
  then show "pgno (p + 4 * i) = pgno p" using u q by (simp add: pgno_def)
qed

lemma slot_eq_iff:
  assumes "aligned 4096 p" and "aligned 4096 q" and "unat i < 1024" and "unat j < 1024"
  shows "p + 4 * i = q + 4 * j \<longleftrightarrow> p = q \<and> i = j"
proof
  assume e: "p + 4 * i = q + 4 * j"
  have "pgno p = pgno q" using slot_props(3) assms e by metis
  then have "p = q" using assms by (simp add: pgno_eq_aligned)
  moreover have "unat i = unat j"
    using slot_props(1) [OF assms(1,3)] slot_props(1) [OF assms(2,4)] e \<open>p = q\<close> by simp
  ultimately show "p = q \<and> i = j" by (simp add: uint_eq_iff_unat)
qed simp

lemma ld32_st32_slot:
  assumes "aligned 4096 p" and "aligned 4096 q" and "unat i < 1024" and "unat j < 1024"
  shows "ld32 (st32 m (q + 4 * j) v) (p + 4 * i) = (if p = q \<and> i = j then v else ld32 m (p + 4 * i))"
  using assms slot_eq_iff [OF assms] by (simp add: ld32_st32_other slot_props)

lemma ld32_memset_slot:
  assumes "aligned 4096 p" and "aligned 4096 q" and "unat i < 1024"
  shows "ld32 (memset m q 0 4096) (p + 4 * i) = (if p = q then 0 else ld32 m (p + 4 * i))"
proof (cases "p = q")
  case True
  have "ld32 (memset m q 0 4096) (p + 4 * i) = ld32 (\<lambda>_. 0) (p + 4 * i)"
    using assms True by (intro ld32_same_page) (simp_all add: slot_props memset_inside)
  with True show ?thesis by simp
next
  case False
  then have "pgno p \<noteq> pgno q" using assms by (simp add: pgno_eq_aligned)
  with False assms show ?thesis
    by (simp add: ld32_same_outside [OF _ same_outside_memset] slot_props)
qed

lemma ld32_page_slot:
  assumes "aligned 4096 p" and "unat i < 1024" and "\<And>x. pgno x = pgno p \<Longrightarrow> m' x = m x"
  shows "ld32 m' (p + 4 * i) = ld32 m (p + 4 * i)"
  using assms by (intro ld32_same_page) (auto simp: slot_props)

section \<open>The map of a page directory\<close>

definition pde_at :: "memory \<Rightarrow> uint \<Rightarrow> uint \<Rightarrow> uint" where
  "pde_at m pgdir i = ld32 m (pgdir + 4 * i)"

definition present :: "uint \<Rightarrow> bool" where
  "present e \<longleftrightarrow> e AND PTE_P \<noteq> 0"

definition table_of :: "uint \<Rightarrow> uint" where
  "table_of e = P2V (PTE_ADDR e)"

definition slot :: "memory \<Rightarrow> uint \<Rightarrow> uint \<Rightarrow> uint" where
  "slot m pgdir va = table_of (pde_at m pgdir (PDX va)) + 4 * PTX va"

definition mapped_table :: "memory \<Rightarrow> uint \<Rightarrow> uint \<Rightarrow> bool" where
  "mapped_table m pgdir va \<longleftrightarrow> present (pde_at m pgdir (PDX va))"

definition entry :: "memory \<Rightarrow> uint \<Rightarrow> uint \<Rightarrow> uint" where
  "entry m pgdir va = (if mapped_table m pgdir va then ld32 m (slot m pgdir va) else 0)"

definition tables :: "memory \<Rightarrow> uint \<Rightarrow> uint set" where
  "tables m pgdir = {p. \<exists>i. unat i < 1024 \<and> present (pde_at m pgdir i) \<and> p = table_of (pde_at m pgdir i)}"

definition region :: "memory \<Rightarrow> uint \<Rightarrow> uint list \<Rightarrow> uint set" where
  "region m pgdir fl = insert pgdir (tables m pgdir \<union> set fl)"

definition tables_ok :: "memory \<Rightarrow> uint \<Rightarrow> bool" where
  "tables_ok m pgdir \<longleftrightarrow> pgdir \<notin> tables m pgdir
     \<and> (\<forall>i j. unat i < 1024 \<and> unat j < 1024 \<and> present (pde_at m pgdir i) \<and> present (pde_at m pgdir j)
          \<and> table_of (pde_at m pgdir i) = table_of (pde_at m pgdir j) \<longrightarrow> i = j)"

definition pt_inv :: "'a kst_scheme \<Rightarrow> uint list \<Rightarrow> uint \<Rightarrow> bool" where
  "pt_inv s fl pgdir \<longleftrightarrow> kmem_inv s fl \<and> page_ok s pgdir \<and> pgdir \<notin> set fl
     \<and> (\<forall>p \<in> tables (mem s) pgdir. page_ok s p \<and> p \<notin> set fl) \<and> tables_ok (mem s) pgdir"

lemma aligned_table_of [simp]: "aligned 4096 (table_of e)"
  by (simp add: table_of_def)

lemma tables_PDX: "mapped_table m pgdir va \<Longrightarrow> table_of (pde_at m pgdir (PDX va)) \<in> tables m pgdir"
  using PDX_less by (auto simp: tables_def mapped_table_def)

lemma present_0 [simp]: "\<not> present 0"
  by (simp add: present_def)

lemma present_bit: "present e \<longleftrightarrow> bit e 0"
  by (simp add: present_def PTE_P_def and_one_eq bit_0 odd_iff_mod_2_eq_one)

lemma present_or: "present (x OR f) \<longleftrightarrow> present x \<or> present f"
  by (simp add: present_bit bit_simps)

lemma present_PTE_P [simp]: "present PTE_P"
  by (simp add: present_def PTE_P_def)

lemma table_of_pde:
  assumes "aligned 4096 p"
  shows "table_of (V2P p OR PTE_P OR PTE_W OR PTE_U) = p" "present (V2P p OR PTE_P OR PTE_W OR PTE_U)"
proof -
  have "V2P p OR PTE_P OR PTE_W OR PTE_U = V2P p OR 7"
    by (simp add: pte_flag_defs or.assoc)
  moreover have "PTE_ADDR (V2P p OR 7) = V2P p"
    using assms by (intro PTE_ADDR_or) simp_all
  ultimately show "table_of (V2P p OR PTE_P OR PTE_W OR PTE_U) = p" by (simp add: table_of_def)
  show "present (V2P p OR PTE_P OR PTE_W OR PTE_U)"
    by (simp add: present_or)
qed

lemma entry_cong:
  assumes "pgno a = pgno b"
  shows "entry m pgdir a = entry m pgdir b" "slot m pgdir a = slot m pgdir b"
    "mapped_table m pgdir a = mapped_table m pgdir b"
  using PDX_pgno [OF assms] PTX_pgno [OF assms] by (simp_all add: entry_def slot_def mapped_table_def)

text \<open>Memory that agrees on the directory and its tables gives the same map.\<close>

definition agree_on :: "uint set \<Rightarrow> memory \<Rightarrow> memory \<Rightarrow> bool" where
  "agree_on P m m' \<longleftrightarrow> (\<forall>p\<in>P. \<forall>x. pgno x = pgno p \<longrightarrow> m' x = m x)"

lemma agree_onD: "agree_on P m m' \<Longrightarrow> p \<in> P \<Longrightarrow> pgno x = pgno p \<Longrightarrow> m' x = m x"
  by (auto simp: agree_on_def)

lemma agree_on_mono: "agree_on P m m' \<Longrightarrow> Q \<subseteq> P \<Longrightarrow> agree_on Q m m'"
  by (auto simp: agree_on_def)

lemma agree_on_trans: "agree_on P m m' \<Longrightarrow> agree_on P m' m'' \<Longrightarrow> agree_on P m m''"
  by (auto simp: agree_on_def)

lemma agree_on_refl [simp]: "agree_on P m m"
  by (auto simp: agree_on_def)

lemma agree_on_same_outside:
  assumes "same_outside v m m'" and "aligned 4096 v" and "\<And>p. p \<in> P \<Longrightarrow> aligned 4096 p \<and> p \<noteq> v"
  shows "agree_on P m m'"
  unfolding agree_on_def
proof (intro ballI allI impI)
  fix p x assume "p \<in> P" "pgno x = pgno p"
  then have "pgno x \<noteq> pgno v" using assms by (metis pgno_eq_aligned)
  with assms(1) show "m' x = m x" by (rule same_outsideD)
qed

lemma pde_at_agree:
  assumes "agree_on {pgdir} m m'" and "aligned 4096 pgdir" and "unat i < 1024"
  shows "pde_at m' pgdir i = pde_at m pgdir i"
  unfolding pde_at_def by (rule ld32_page_slot [OF assms(2,3)]) (auto intro: agree_onD [OF assms(1)])

lemma tables_agree:
  assumes "agree_on {pgdir} m m'" and "aligned 4096 pgdir"
  shows "tables m' pgdir = tables m pgdir" "tables_ok m' pgdir = tables_ok m pgdir"
    "mapped_table m' pgdir va = mapped_table m pgdir va" "slot m' pgdir va = slot m pgdir va"
proof -
  note * = pde_at_agree [OF assms]
  show t: "tables m' pgdir = tables m pgdir"
    unfolding tables_def by (intro Collect_cong iff_exI) (simp add: * cong: conj_cong)
  have "(\<forall>i j. unat i < 1024 \<and> unat j < 1024 \<and> present (pde_at m' pgdir i) \<and> present (pde_at m' pgdir j)
        \<and> table_of (pde_at m' pgdir i) = table_of (pde_at m' pgdir j) \<longrightarrow> i = j) =
    (\<forall>i j. unat i < 1024 \<and> unat j < 1024 \<and> present (pde_at m pgdir i) \<and> present (pde_at m pgdir j)
        \<and> table_of (pde_at m pgdir i) = table_of (pde_at m pgdir j) \<longrightarrow> i = j)"
    by (intro iff_allI) (simp add: * cong: conj_cong)
  then show "tables_ok m' pgdir = tables_ok m pgdir" unfolding tables_ok_def t by simp
  show "mapped_table m' pgdir va = mapped_table m pgdir va" "slot m' pgdir va = slot m pgdir va"
    by (simp_all add: mapped_table_def slot_def * PDX_less)
qed

lemma entry_agree:
  assumes "agree_on (insert pgdir (tables m pgdir)) m m'" and "aligned 4096 pgdir"
  shows "entry m' pgdir va = entry m pgdir va"
proof -
  have a: "agree_on {pgdir} m m'" using assms(1) by (rule agree_on_mono) simp
  have "ld32 m' (slot m pgdir va) = ld32 m (slot m pgdir va)" if "mapped_table m pgdir va"
    unfolding slot_def using assms(1) tables_PDX [OF that]
    by (intro ld32_page_slot aligned_table_of PTX_less) (auto intro: agree_onD)
  then show ?thesis by (simp add: entry_def tables_agree [OF a assms(2)])
qed

lemma kmem_inv_agree:
  assumes "kmem_inv s fl" and "agree_on (set fl) (mem s) m'"
  shows "kmem_inv (s\<lparr>mem := m'\<rparr>) fl"
proof -
  have "chain m' (freelist s) fl = chain (mem s) (freelist s) fl"
  proof (rule chain_frame)
    fix q assume q: "q \<in> set fl"
    then have "aligned 4 q" using assms(1) by (auto simp: kmem_inv_def page_ok_def intro: aligned_page_4)
    then show "ld32 m' q = ld32 (mem s) q"
      using assms(2) q by (intro ld32_same_page) (auto intro: agree_onD)
  qed
  then show ?thesis using assms(1) by (simp add: kmem_inv_def)
qed

lemma pt_inv_agree:
  assumes "pt_inv s fl pgdir" and "agree_on (insert pgdir (set fl)) (mem s) m'"
  shows "pt_inv (s\<lparr>mem := m'\<rparr>) fl pgdir"
proof -
  have "aligned 4096 pgdir" using assms(1) by (auto simp: pt_inv_def intro: page_ok_aligned)
  moreover have "agree_on {pgdir} (mem s) m'" using assms(2) by (rule agree_on_mono) simp
  moreover have "kmem_inv (s\<lparr>mem := m'\<rparr>) fl"
    using assms by (intro kmem_inv_agree) (auto simp: pt_inv_def elim: agree_on_mono)
  ultimately show ?thesis using assms(1) by (simp add: pt_inv_def tables_agree)
qed

section \<open>Storing through a slot\<close>

lemma pt_inv_aligned: "pt_inv s fl pgdir \<Longrightarrow> aligned 4096 pgdir"
  by (auto simp: pt_inv_def intro: page_ok_aligned)

lemma pt_inv_table:
  assumes "pt_inv s fl pgdir" and "mapped_table (mem s) pgdir va"
  shows "page_ok s (table_of (pde_at (mem s) pgdir (PDX va)))" "table_of (pde_at (mem s) pgdir (PDX va)) \<notin> set fl"
    "table_of (pde_at (mem s) pgdir (PDX va)) \<noteq> pgdir"
  using assms tables_PDX [OF assms(2)] by (auto simp: pt_inv_def tables_ok_def)

definition unchanged_outside :: "uint set \<Rightarrow> memory \<Rightarrow> memory \<Rightarrow> bool" where
  "unchanged_outside P m m' \<longleftrightarrow> (\<forall>x. (\<forall>p\<in>P. pgno x \<noteq> pgno p) \<longrightarrow> m' x = m x)"

lemma unchanged_outside_refl [simp]: "unchanged_outside P m m"
  by (simp add: unchanged_outside_def)

lemma unchanged_outside_trans:
  "unchanged_outside P m m' \<Longrightarrow> unchanged_outside P m' m'' \<Longrightarrow> unchanged_outside P m m''"
  by (simp add: unchanged_outside_def)

lemma unchanged_outside_mono: "unchanged_outside P m m' \<Longrightarrow> P \<subseteq> Q \<Longrightarrow> unchanged_outside Q m m'"
  by (auto simp: unchanged_outside_def)

lemma unchanged_outside_same: "same_outside p m m' \<Longrightarrow> p \<in> P \<Longrightarrow> unchanged_outside P m m'"
  by (auto simp: unchanged_outside_def same_outside_def)

lemma agree_on_unchanged:
  assumes "unchanged_outside P m m'" and "\<And>p. p \<in> P \<Longrightarrow> aligned 4096 p"
    and "\<And>q. q \<in> Q \<Longrightarrow> aligned 4096 q \<and> q \<notin> P"
  shows "agree_on Q m m'"
  unfolding agree_on_def
proof (intro ballI allI impI)
  fix q x assume q: "q \<in> Q" "pgno x = pgno q"
  then have "\<forall>p\<in>P. pgno x \<noteq> pgno p" using assms(2,3) by (metis pgno_eq_aligned)
  then show "m' x = m x" using assms(1) by (simp add: unchanged_outside_def)
qed

lemma slot_in_table:
  "aligned 4 (slot m pgdir va)" "pgno (slot m pgdir va) = pgno (table_of (pde_at m pgdir (PDX va)))"
  by (simp_all add: slot_def slot_props PTX_less)

lemma slot_store_outside: "same_outside (table_of (pde_at m pgdir (PDX va))) m (st32 m (slot m pgdir va) v)"
  by (intro same_outside_st32 slot_in_table)

lemma slot_nonzero:
  assumes "pt_inv s fl pgdir" and "mapped_table (mem s) pgdir va"
  shows "slot (mem s) pgdir va \<noteq> 0"
proof
  assume "slot (mem s) pgdir va = 0"
  then have "unat (table_of (pde_at (mem s) pgdir (PDX va))) = 0"
    using slot_props(1) [OF aligned_table_of PTX_less, of "pde_at (mem s) pgdir (PDX va)" va]
    by (simp add: slot_def)
  with page_ok_range [OF pt_inv_table(1) [OF assms]] show False by simp
qed

lemma slot_eq_pgno:
  assumes "pt_inv s fl pgdir" and "mapped_table (mem s) pgdir va" and "mapped_table (mem s) pgdir va'"
  shows "slot (mem s) pgdir va' = slot (mem s) pgdir va \<longleftrightarrow> pgno va' = pgno va"
proof
  assume "slot (mem s) pgdir va' = slot (mem s) pgdir va"
  then have e: "table_of (pde_at (mem s) pgdir (PDX va')) = table_of (pde_at (mem s) pgdir (PDX va)) \<and> PTX va' = PTX va"
    unfolding slot_def by (subst (asm) slot_eq_iff) (simp_all add: PTX_less)
  have "tables_ok (mem s) pgdir" using assms(1) by (simp add: pt_inv_def)
  then have "PDX va' = PDX va"
    using e assms(2,3) PDX_less unfolding tables_ok_def mapped_table_def by blast
  with e show "pgno va' = pgno va" by (simp flip: PDX_PTX_eq_iff)
next
  assume "pgno va' = pgno va"
  then show "slot (mem s) pgdir va' = slot (mem s) pgdir va" by (rule entry_cong)
qed

lemma store_agree:
  assumes "pt_inv s fl pgdir" and "mapped_table (mem s) pgdir va"
  shows "agree_on (insert pgdir (set fl)) (mem s) (st32 (mem s) (slot (mem s) pgdir va) v)"
proof (rule agree_on_same_outside [OF slot_store_outside aligned_table_of])
  fix p assume "p \<in> insert pgdir (set fl)"
  then show "aligned 4096 p \<and> p \<noteq> table_of (pde_at (mem s) pgdir (PDX va))"
    using assms pt_inv_table [OF assms] by (auto simp: pt_inv_def kmem_inv_def page_ok_def)
qed

lemma store_entry:
  fixes v :: uint
  assumes "pt_inv s fl pgdir" and "mapped_table (mem s) pgdir va"
  defines "m' \<equiv> st32 (mem s) (slot (mem s) pgdir va) v"
  shows "pt_inv (s\<lparr>mem := m'\<rparr>) fl pgdir" and "tables m' pgdir = tables (mem s) pgdir"
    and "mapped_table m' pgdir va' = mapped_table (mem s) pgdir va'"
    and "entry m' pgdir va' = (if pgno va' = pgno va then v else entry (mem s) pgdir va')"
proof -
  have a: "agree_on (insert pgdir (set fl)) (mem s) m'"
    unfolding m'_def by (rule store_agree [OF assms(1,2)])
  then have b: "agree_on {pgdir} (mem s) m'" by (rule agree_on_mono) simp
  note t = tables_agree [OF b pt_inv_aligned [OF assms(1)]]
  show "pt_inv (s\<lparr>mem := m'\<rparr>) fl pgdir" using assms(1) a by (rule pt_inv_agree)
  show "tables m' pgdir = tables (mem s) pgdir" "mapped_table m' pgdir va' = mapped_table (mem s) pgdir va'"
    by (rule t)+
  show "entry m' pgdir va' = (if pgno va' = pgno va then v else entry (mem s) pgdir va')"
  proof (cases "mapped_table (mem s) pgdir va'")
    case True
    have "ld32 m' (slot (mem s) pgdir va') = (if pgno va' = pgno va then v else ld32 (mem s) (slot (mem s) pgdir va'))"
      using slot_eq_pgno [OF assms(1,2) True] slot_in_table(1)
      by (auto simp: m'_def ld32_st32_other)
    with True show ?thesis by (simp add: entry_def t)
  next
    case False
    with assms(2) have "pgno va' \<noteq> pgno va" using entry_cong(3) by metis
    with False show ?thesis by (simp add: entry_def t)
  qed
qed

section \<open>A new page table\<close>

definition add_table :: "memory \<Rightarrow> uint \<Rightarrow> uint \<Rightarrow> uint \<Rightarrow> memory" where
  "add_table m pgdir va p = st32 (memset m p 0 4096) (pgdir + 4 * PDX va) (V2P p OR PTE_P OR PTE_W OR PTE_U)"

lemma add_table_pde:
  assumes "aligned 4096 pgdir" and "aligned 4096 p" and "p \<noteq> pgdir" and "unat i < 1024"
  shows "pde_at (add_table m pgdir va p) pgdir i =
    (if i = PDX va then V2P p OR PTE_P OR PTE_W OR PTE_U else pde_at m pgdir i)"
  using assms by (simp add: pde_at_def add_table_def ld32_st32_slot ld32_memset_slot PDX_less)

lemma add_table_slot:
  assumes "aligned 4096 pgdir" and "aligned 4096 p" and "p \<noteq> pgdir" and "aligned 4096 q" and "q \<noteq> pgdir" and "unat i < 1024"
  shows "ld32 (add_table m pgdir va p) (q + 4 * i) = (if q = p then 0 else ld32 m (q + 4 * i))"
  using assms by (simp add: add_table_def ld32_st32_slot ld32_memset_slot PDX_less)

lemma add_table_unchanged:
  assumes "aligned 4096 pgdir" and "aligned 4096 p"
  shows "unchanged_outside {pgdir, p} m (add_table m pgdir va p)"
proof -
  have "unchanged_outside {pgdir, p} m (memset m p 0 4096)"
    using assms by (intro unchanged_outside_same [OF same_outside_memset]) simp_all
  moreover have "unchanged_outside {pgdir, p} (memset m p 0 4096) (add_table m pgdir va p)"
    unfolding add_table_def using assms
    by (intro unchanged_outside_same [OF same_outside_st32, of _ pgdir]) (simp_all add: slot_props PDX_less)
  ultimately show ?thesis by (rule unchanged_outside_trans)
qed

definition new_table :: "'a kst_scheme \<Rightarrow> uint \<Rightarrow> uint list \<Rightarrow> uint \<Rightarrow> uint \<Rightarrow> bool" where
  "new_table s p fl pgdir va \<longleftrightarrow> pt_inv s (p # fl) pgdir \<and> \<not> mapped_table (mem s) pgdir va"

lemma new_table_inv: "new_table s p fl pgdir va \<Longrightarrow> pt_inv s (p # fl) pgdir"
  by (simp add: new_table_def)

lemma new_table_pages:
  assumes "new_table s p fl pgdir va"
  shows "aligned 4096 pgdir" "aligned 4096 p" "p \<noteq> pgdir" "p \<notin> set fl" "p \<notin> tables (mem s) pgdir"
  using new_table_inv [OF assms] by (auto simp: pt_inv_def kmem_inv_def page_ok_def)

lemma new_table_pde:
  assumes "new_table s p fl pgdir va"
  shows "\<not> present (pde_at (mem s) pgdir (PDX va))"
    and "unat i < 1024 \<Longrightarrow> pde_at (add_table (mem s) pgdir va p) pgdir i =
      (if i = PDX va then V2P p OR PTE_P OR PTE_W OR PTE_U else pde_at (mem s) pgdir i)"
  using assms add_table_pde [OF new_table_pages(1-3) [OF assms]] by (simp_all add: new_table_def mapped_table_def)

lemma new_table_tables:
  assumes nt: "new_table s p fl pgdir va"
  shows "tables (add_table (mem s) pgdir va p) pgdir = insert p (tables (mem s) pgdir)"
  (is "?T' = insert p ?T")
proof (rule set_eqI)
  fix q
  show "q \<in> ?T' \<longleftrightarrow> q \<in> insert p ?T"
  proof
    assume "q \<in> ?T'"
    then obtain i where "unat i < 1024" "present (pde_at (add_table (mem s) pgdir va p) pgdir i)"
      "q = table_of (pde_at (add_table (mem s) pgdir va p) pgdir i)" by (auto simp: tables_def)
    then show "q \<in> insert p ?T"
      using table_of_pde [OF new_table_pages(2) [OF nt]] by (cases "i = PDX va") (auto simp: new_table_pde(2) [OF nt] tables_def)
  next
    assume "q \<in> insert p ?T"
    then consider "q = p" | i where "unat i < 1024" "present (pde_at (mem s) pgdir i)" "q = table_of (pde_at (mem s) pgdir i)"
      by (auto simp: tables_def)
    then show "q \<in> ?T'"
    proof cases
      case 1
      then show ?thesis
        using table_of_pde [OF new_table_pages(2) [OF nt]] PDX_less [of va] by (auto simp: tables_def new_table_pde(2) [OF nt] intro!: exI [of _ "PDX va"])
    next
      case (2 i)
      then have "i \<noteq> PDX va" using new_table_pde(1) [OF nt] by auto
      with 2 show ?thesis by (auto simp: tables_def new_table_pde(2) [OF nt] intro!: exI [of _ i])
    qed
  qed
qed

lemma new_table_tables_ok:
  assumes nt: "new_table s p fl pgdir va"
  shows "tables_ok (add_table (mem s) pgdir va p) pgdir"
proof -
  have old: "pgdir \<notin> tables (mem s) pgdir"
    "\<And>i j. unat i < 1024 \<Longrightarrow> unat j < 1024 \<Longrightarrow> present (pde_at (mem s) pgdir i) \<Longrightarrow> present (pde_at (mem s) pgdir j) \<Longrightarrow>
      table_of (pde_at (mem s) pgdir i) = table_of (pde_at (mem s) pgdir j) \<Longrightarrow> i = j"
    using new_table_inv [OF nt] by (auto simp: pt_inv_def tables_ok_def)
  have fresh: "table_of (pde_at (mem s) pgdir i) \<noteq> p" if "unat i < 1024" "present (pde_at (mem s) pgdir i)" for i
    using new_table_pages(5) [OF nt] that by (auto simp: tables_def)
  show ?thesis
    unfolding tables_ok_def new_table_tables [OF nt]
  proof (intro conjI allI impI)
    show "pgdir \<notin> insert p (tables (mem s) pgdir)" using old(1) new_table_pages(3) [OF nt] by auto
  next
    fix i j
    let ?m = "add_table (mem s) pgdir va p"
    assume a: "unat i < 1024 \<and> unat j < 1024 \<and> present (pde_at ?m pgdir i) \<and> present (pde_at ?m pgdir j)
        \<and> table_of (pde_at ?m pgdir i) = table_of (pde_at ?m pgdir j)"
    then show "i = j"
      using table_of_pde(1) [OF new_table_pages(2) [OF nt]] old(2) [of i j] fresh [of i] fresh [of j]
      by (cases "i = PDX va"; cases "j = PDX va") (auto simp: new_table_pde(2) [OF nt])
  qed
qed

lemma new_table_mapped:
  assumes nt: "new_table s p fl pgdir va"
  shows "mapped_table (add_table (mem s) pgdir va p) pgdir va' \<longleftrightarrow> mapped_table (mem s) pgdir va' \<or> PDX va' = PDX va"
  using table_of_pde(2) [OF new_table_pages(2) [OF nt]] by (auto simp: mapped_table_def new_table_pde(2) [OF nt] PDX_less)

lemma new_table_entry:
  assumes nt: "new_table s p fl pgdir va"
  shows "entry (add_table (mem s) pgdir va p) pgdir va' = entry (mem s) pgdir va'"
proof (cases "PDX va' = PDX va")
  case True
  then have "slot (add_table (mem s) pgdir va p) pgdir va' = p + 4 * PTX va'"
    by (simp add: slot_def new_table_pde(2) [OF nt] PDX_less table_of_pde [OF new_table_pages(2) [OF nt]])
  then have "entry (add_table (mem s) pgdir va p) pgdir va' = 0"
    by (simp add: entry_def add_table_slot [OF new_table_pages(1-3) [OF nt]] new_table_pages [OF nt] PTX_less)
  with True nt show ?thesis by (simp add: entry_def mapped_table_def new_table_def)
next
  case False
  let ?q = "table_of (pde_at (mem s) pgdir (PDX va'))"
  have "slot (add_table (mem s) pgdir va p) pgdir va' = slot (mem s) pgdir va'"
    using False by (simp add: slot_def new_table_pde(2) [OF nt] PDX_less)
  moreover have "ld32 (add_table (mem s) pgdir va p) (?q + 4 * PTX va') = ld32 (mem s) (?q + 4 * PTX va')"
    if "mapped_table (mem s) pgdir va'"
  proof -
    have "?q \<noteq> pgdir" "?q \<noteq> p" using pt_inv_table [OF new_table_inv [OF nt] that] by auto
    then show ?thesis by (simp add: add_table_slot [OF new_table_pages(1-3) [OF nt]] PTX_less)
  qed
  ultimately show ?thesis using False by (simp add: entry_def new_table_mapped [OF nt] slot_def)
qed

lemma new_table_pt_inv:
  assumes nt: "new_table s p fl pgdir va"
  shows "pt_inv ((ksettle s)\<lparr>freelist := ld32 (mem s) p, mem := add_table (mem s) pgdir va p\<rparr>) fl pgdir"
proof -
  let ?t = "(ksettle s)\<lparr>freelist := ld32 (mem s) p\<rparr>"
  have k: "kmem_inv ?t fl" using kalloc_Cons(2) new_table_inv [OF nt] by (auto simp: pt_inv_def)
  have "agree_on (set fl) (mem s) (add_table (mem s) pgdir va p)"
  proof (rule agree_on_unchanged [OF add_table_unchanged])
    show "aligned 4096 q \<and> q \<notin> {pgdir, p}" if "q \<in> set fl" for q
      using that new_table_inv [OF nt] new_table_pages [OF nt] by (auto simp: pt_inv_def kmem_inv_def page_ok_def)
  qed (use new_table_pages [OF nt] in auto)
  then have "kmem_inv (?t\<lparr>mem := add_table (mem s) pgdir va p\<rparr>) fl"
    using k by (intro kmem_inv_agree) simp_all
  moreover have "pgdir \<notin> set fl \<and> page_ok s pgdir \<and> page_ok s p
      \<and> (\<forall>q\<in>tables (mem s) pgdir. page_ok s q \<and> q \<notin> set fl)"
    using new_table_inv [OF nt] by (auto simp: pt_inv_def kmem_inv_def)
  ultimately show ?thesis
    using new_table_tables_ok [OF nt] new_table_pages(4) [OF nt] by (simp add: pt_inv_def new_table_tables [OF nt])
qed


section \<open>What walkpgdir does\<close>

text \<open>
  \<open>pt_step\<close>: the invariant holds again, only free pages have become page tables, and memory outside
  the free pages, the directory and its tables is untouched.
\<close>

definition pt_step :: "'a kst_scheme \<Rightarrow> uint list \<Rightarrow> 'a kst_scheme \<Rightarrow> uint list \<Rightarrow> uint \<Rightarrow> bool" where
  "pt_step s fl t fl' pgdir \<longleftrightarrow> pt_inv t fl' pgdir \<and> kframe s t
     \<and> region (mem t) pgdir fl' = region (mem s) pgdir fl
     \<and> unchanged_outside (region (mem s) pgdir fl) (mem s) (mem t) \<and> (\<exists>k. fl' = drop k fl)"

lemma pt_step_refl: "pt_inv s fl pgdir \<Longrightarrow> pt_step s fl s fl pgdir"
  by (auto simp: pt_step_def intro: exI [of _ 0])

lemma pt_step_trans:
  assumes "pt_step s fl t fl' pgdir" and "pt_step t fl' u fl'' pgdir"
  shows "pt_step s fl u fl'' pgdir"
proof -
  from assms obtain k l where "fl' = drop k fl" "fl'' = drop l fl'" by (auto simp: pt_step_def)
  then have "fl'' = drop (l + k) fl" by simp
  with assms show ?thesis
    by (auto simp: pt_step_def intro: kframe_trans unchanged_outside_trans)
qed

lemma pt_step_inv: "pt_step s fl t fl' pgdir \<Longrightarrow> pt_inv t fl' pgdir"
  by (simp add: pt_step_def)

lemma walk_mapped:
  "mapped_table (mem s) pgdir va \<Longrightarrow> walkpgdir pgdir va alloc s = Ret (slot (mem s) pgdir va, s)"
  by (simp add: walkpgdir_def mapped_table_def present_def pde_at_def slot_def table_of_def Let_def)

lemma walk_noalloc:
  "walkpgdir pgdir va False s = Ret (if mapped_table (mem s) pgdir va then slot (mem s) pgdir va else 0, s)"
  by (simp add: walkpgdir_def mapped_table_def present_def pde_at_def slot_def table_of_def Let_def)

lemma walk_out_of_memory:
  "pt_inv s [] pgdir \<Longrightarrow> \<not> mapped_table (mem s) pgdir va \<Longrightarrow> walkpgdir pgdir va True s = Ret (0, ksettle s)"
  by (simp add: walkpgdir_def mapped_table_def present_def pde_at_def Let_def pt_inv_def kalloc_Nil)

lemma walk_new_table:
  assumes nt: "new_table s p fl pgdir va"
  shows "walkpgdir pgdir va True s =
    Ret (slot (add_table (mem s) pgdir va p) pgdir va,
      (ksettle s)\<lparr>freelist := ld32 (mem s) p, mem := add_table (mem s) pgdir va p\<rparr>)"
proof -
  have inv: "pt_inv s (p # fl) pgdir" "\<not> mapped_table (mem s) pgdir va" using nt by (simp_all add: new_table_def)
  then have k: "kalloc s = Ret (p, (ksettle s)\<lparr>freelist := ld32 (mem s) p\<rparr>)" "p \<noteq> 0"
    using kalloc_Cons(1) page_ok_nonzero [of s p] by (auto simp: pt_inv_def kmem_inv_def)
  have "slot (add_table (mem s) pgdir va p) pgdir va = p + 4 * PTX va"
    by (simp add: slot_def new_table_pde(2) [OF nt] PDX_less table_of_pde [OF new_table_pages(2) [OF nt]])
  then show ?thesis
    using inv(2) k by (simp add: walkpgdir_def mapped_table_def present_def pde_at_def Let_def add_table_def PGSIZE_def)
qed

lemma new_table_step:
  assumes nt: "new_table s p fl pgdir va"
  shows "pt_step s (p # fl) ((ksettle s)\<lparr>freelist := ld32 (mem s) p, mem := add_table (mem s) pgdir va p\<rparr>) fl pgdir"
proof -
  have "unchanged_outside (region (mem s) pgdir (p # fl)) (mem s) (add_table (mem s) pgdir va p)"
    using add_table_unchanged [OF new_table_pages(1,2) [OF nt]]
    by (rule unchanged_outside_mono) (auto simp: region_def)
  then show ?thesis
    using new_table_pt_inv [OF nt] by (auto simp: pt_step_def region_def new_table_tables [OF nt] intro: exI [of _ 1])
qed

lemma walk_spec:
  assumes inv: "pt_inv s fl pgdir"
  shows "runs (walkpgdir pgdir va True s) (\<lambda>(q, t). \<exists>fl'. pt_step s fl t fl' pgdir \<and> length fl \<le> Suc (length fl')
    \<and> entry (mem t) pgdir = entry (mem s) pgdir
    \<and> (if q = 0 then fl = [] else mapped_table (mem t) pgdir va \<and> q = slot (mem t) pgdir va))"
proof (cases "mapped_table (mem s) pgdir va")
  case True
  with inv show ?thesis
    using slot_nonzero [OF inv True] by (auto simp: walk_mapped intro!: exI [of _ fl] pt_step_refl)
next
  case False
  show ?thesis
  proof (cases fl)
    case Nil
    moreover have "pt_inv (ksettle s) [] pgdir" using inv Nil by (simp add: pt_inv_def)
    ultimately show ?thesis
      using inv False by (auto simp: walk_out_of_memory pt_step_def)
  next
    case (Cons p ps)
    with inv False have nt: "new_table s p ps pgdir va" by (simp add: new_table_def)
    let ?t = "(ksettle s)\<lparr>freelist := ld32 (mem s) p, mem := add_table (mem s) pgdir va p\<rparr>"
    have m: "mapped_table (mem ?t) pgdir va" by (simp add: new_table_mapped [OF nt])
    with slot_nonzero [OF new_table_pt_inv [OF nt] m] Cons show ?thesis
      by (auto simp: walk_new_table [OF nt] new_table_entry [OF nt] fun_eq_iff intro!: exI [of _ ps] new_table_step [OF nt])
  qed
qed

section \<open>What mappages does\<close>

definition page_off :: "nat \<Rightarrow> uint" where
  "page_off n = of_nat (4096 * n)"

lemma page_off_Suc: "page_off (Suc n) = PGSIZE + page_off n"
  by (simp add: page_off_def PGSIZE_def)

lemma page_off_0 [simp]: "page_off 0 = 0"
  by (simp add: page_off_def)

lemma unat_page_off: "n < 1048576 \<Longrightarrow> unat (page_off n) = 4096 * n"
  using unat_add_nat [of 0 "4096 * n"] by (simp add: page_off_def)

definition map_range :: "(uint \<Rightarrow> uint) \<Rightarrow> uint \<Rightarrow> nat \<Rightarrow> uint \<Rightarrow> uint \<Rightarrow> uint \<Rightarrow> uint" where
  "map_range E a n pa perm va =
     (if pgno a \<le> pgno va \<and> pgno va < pgno a + n then (pa + page_off (pgno va - pgno a)) OR perm OR PTE_P
      else E va)"

lemma map_range_0 [simp]: "map_range E a 0 pa perm = E"
  by (auto simp: map_range_def fun_eq_iff)

lemma pgno_next:
  assumes "aligned 4096 a" and "Suc (pgno a) < 1048576"
  shows "pgno (a + PGSIZE) = Suc (pgno a)" "aligned 4096 (a + PGSIZE)"
proof -
  obtain q where q: "unat a = 4096 * q" "pgno a = q" using assms(1) by (rule aligned_pageE)
  then have "unat (a + PGSIZE) = 4096 * Suc q"
    using assms(2) unat_add_uint [of a PGSIZE] by (simp add: PGSIZE_def)
  then show "pgno (a + PGSIZE) = Suc (pgno a)" using q by (simp add: pgno_def)
  show "aligned 4096 (a + PGSIZE)" by (intro aligned_add assms(1) aligned_PGSIZE)
qed

lemma map_range_Suc:
  assumes "pgno b = Suc (pgno a)" and "\<And>va. E' va = (if pgno va = pgno a then pa OR perm OR PTE_P else E va)"
  shows "map_range E' b n (pa + PGSIZE) perm = map_range E a (Suc n) pa perm"
proof
  fix va
  have "page_off (pgno va - pgno a) = PGSIZE + page_off (pgno va - Suc (pgno a))" if "Suc (pgno a) \<le> pgno va"
    using that by (simp flip: page_off_Suc add: Suc_diff_Suc)
  then show "map_range E' b n (pa + PGSIZE) perm va = map_range E a (Suc n) pa perm va"
    using assms by (cases "pgno va = pgno a") (auto simp: map_range_def add.assoc)
qed

lemma store_step:
  assumes "pt_step s fl t fl' pgdir" and "mapped_table (mem t) pgdir va"
  shows "pt_step s fl (t\<lparr>mem := st32 (mem t) (slot (mem t) pgdir va) v\<rparr>) fl' pgdir"
proof (rule pt_step_trans [OF assms(1)])
  note e = store_entry [OF pt_step_inv [OF assms(1)] assms(2)]
  have "table_of (pde_at (mem t) pgdir (PDX va)) \<in> region (mem t) pgdir fl'"
    using tables_PDX [OF assms(2)] by (simp add: region_def)
  from unchanged_outside_same [OF slot_store_outside this]
  show "pt_step t fl' (t\<lparr>mem := st32 (mem t) (slot (mem t) pgdir va) v\<rparr>) fl' pgdir"
    using e by (auto simp: pt_step_def region_def intro: exI [of _ 0])
qed

lemma map_one:
  assumes "pt_inv s fl pgdir" and "\<not> present (entry (mem s) pgdir a)"
  shows "runs (walkpgdir pgdir a True s) (\<lambda>(q, t). \<exists>fl'. pt_step s fl t fl' pgdir
    \<and> (if q = 0 then fl = [] \<and> fl' = [] \<and> entry (mem t) pgdir = entry (mem s) pgdir
       else ld32 (mem t) q AND PTE_P = 0 \<and> length fl \<le> Suc (length fl')
         \<and> (\<forall>v. pt_step s fl (t\<lparr>mem := st32 (mem t) q v\<rparr>) fl' pgdir
             \<and> (\<forall>va. entry (st32 (mem t) q v) pgdir va = (if pgno va = pgno a then v else entry (mem s) pgdir va)))))"
proof (rule runs_mono [OF walk_spec [OF assms(1)]], clarify)
  fix q t fl'
  assume st: "pt_step s fl t fl' pgdir" and len: "length fl \<le> Suc (length fl')"
    and e: "entry (mem t) pgdir = entry (mem s) pgdir"
    and q: "if q = 0 then fl = [] else mapped_table (mem t) pgdir a \<and> q = slot (mem t) pgdir a"
  show "\<exists>fl'. pt_step s fl t fl' pgdir
    \<and> (if q = 0 then fl = [] \<and> fl' = [] \<and> entry (mem t) pgdir = entry (mem s) pgdir
       else ld32 (mem t) q AND PTE_P = 0 \<and> length fl \<le> Suc (length fl')
         \<and> (\<forall>v. pt_step s fl (t\<lparr>mem := st32 (mem t) q v\<rparr>) fl' pgdir
             \<and> (\<forall>va. entry (st32 (mem t) q v) pgdir va = (if pgno va = pgno a then v else entry (mem s) pgdir va))))"
  proof (cases "q = 0")
    case True
    with q st have "fl = []" "fl' = []" by (auto simp: pt_step_def)
    with True st e show ?thesis by auto
  next
    case False
    with q have m: "mapped_table (mem t) pgdir a" "q = slot (mem t) pgdir a" by simp_all
    then have "entry (mem t) pgdir a = ld32 (mem t) q" by (simp add: entry_def)
    with assms(2) e have "ld32 (mem t) q AND PTE_P = 0" by (simp add: present_def)
    with False st len m store_step [OF st m(1)] store_entry(4) [OF pt_step_inv [OF st] m(1)] e show ?thesis
      by (intro exI [of _ fl']) simp
  qed
qed

lemma mappages_loop_step:
  assumes "pt_inv s fl pgdir" and "\<not> present (entry (mem s) pgdir a)"
  obtains (none) t where "fl = []" and "pt_step s fl t [] pgdir" and "entry (mem t) pgdir = entry (mem s) pgdir"
      and "mappages_loop (Suc f) pgdir a lst pa perm s = Ret (-1, t)"
  | (some) u fl' where "pt_step s fl u fl' pgdir" and "length fl \<le> Suc (length fl')"
      and "\<And>va. entry (mem u) pgdir va = (if pgno va = pgno a then pa OR perm OR PTE_P else entry (mem s) pgdir va)"
      and "mappages_loop (Suc f) pgdir a lst pa perm s =
        (if a = lst then Ret (0, u) else mappages_loop f pgdir (a + PGSIZE) lst (pa + PGSIZE) perm u)"
proof -
  from map_one [OF assms] obtain q t fl' where w: "walkpgdir pgdir a True s = Ret (q, t)"
    and st: "pt_step s fl t fl' pgdir"
    and q: "if q = 0 then fl = [] \<and> fl' = [] \<and> entry (mem t) pgdir = entry (mem s) pgdir
       else ld32 (mem t) q AND PTE_P = 0 \<and> length fl \<le> Suc (length fl')
         \<and> (\<forall>v. pt_step s fl (t\<lparr>mem := st32 (mem t) q v\<rparr>) fl' pgdir
             \<and> (\<forall>va. entry (st32 (mem t) q v) pgdir va = (if pgno va = pgno a then v else entry (mem s) pgdir va)))"
    by (auto simp: runs_iff)
  show thesis
  proof (cases "q = 0")
    case True
    with w st q show thesis by (intro none [of t]) simp_all
  next
    case False
    with w st q show thesis
      by (intro some [of "t\<lparr>mem := st32 (mem t) q (pa OR perm OR PTE_P)\<rparr>" fl']) (simp_all add: Let_def)
  qed
qed

lemma mappages_loop_spec:
  assumes "pt_inv s fl pgdir" and "aligned 4096 a" and "pgno a + Suc n \<le> 1048576"
    and "lst = a + page_off n" and "n < fuel"
    and "\<And>va. pgno a \<le> pgno va \<Longrightarrow> pgno va < pgno a + Suc n \<Longrightarrow> \<not> present (entry (mem s) pgdir va)"
  shows "runs (mappages_loop fuel pgdir a lst pa perm s) (\<lambda>(r, t). \<exists>fl'. pt_step s fl t fl' pgdir \<and>
    (r = 0 \<and> entry (mem t) pgdir = map_range (entry (mem s) pgdir) a (Suc n) pa perm \<and> length fl \<le> Suc n + length fl' \<or>
     r = -1 \<and> fl' = [] \<and> length fl \<le> n \<and> (\<exists>k\<le>n. entry (mem t) pgdir = map_range (entry (mem s) pgdir) a k pa perm)))"
  using assms
proof (induction n arbitrary: fuel s fl a pa)
  case 0
  then obtain f where f: "fuel = Suc f" by (cases fuel) auto
  have np: "\<not> present (entry (mem s) pgdir a)" using "0.prems"(6) by simp
  show ?case
  proof (rule mappages_loop_step [OF "0.prems"(1) np, of f lst pa perm])
    fix t assume "fl = []" "pt_step s fl t [] pgdir" "entry (mem t) pgdir = entry (mem s) pgdir"
      "mappages_loop (Suc f) pgdir a lst pa perm s = Ret (-1, t)"
    then show ?thesis unfolding f by auto
  next
    fix u fl'
    assume u: "pt_step s fl u fl' pgdir" "length fl \<le> Suc (length fl')"
      "\<And>va. entry (mem u) pgdir va = (if pgno va = pgno a then pa OR perm OR PTE_P else entry (mem s) pgdir va)"
      "mappages_loop (Suc f) pgdir a lst pa perm s =
        (if a = lst then Ret (0, u) else mappages_loop f pgdir (a + PGSIZE) lst (pa + PGSIZE) perm u)"
    have "entry (mem u) pgdir = map_range (entry (mem s) pgdir) a (Suc 0) pa perm"
      by (auto simp: fun_eq_iff u(3) map_range_def)
    with u "0.prems"(4) show ?thesis unfolding f by auto
  qed
next
  case (Suc n)
  then obtain f where f: "fuel = Suc f" "n < f" by (cases fuel) auto
  have np: "\<not> present (entry (mem s) pgdir a)" using Suc.prems(6) by simp
  note b = pgno_next [OF Suc.prems(2)]
  show ?case
  proof (rule mappages_loop_step [OF Suc.prems(1) np, of f lst pa perm])
    fix t assume "fl = []" "pt_step s fl t [] pgdir" "entry (mem t) pgdir = entry (mem s) pgdir"
      "mappages_loop (Suc f) pgdir a lst pa perm s = Ret (-1, t)"
    then show ?thesis unfolding f by auto
  next
    fix u fl'
    assume u: "pt_step s fl u fl' pgdir" "length fl \<le> Suc (length fl')"
      "\<And>va. entry (mem u) pgdir va = (if pgno va = pgno a then pa OR perm OR PTE_P else entry (mem s) pgdir va)"
      "mappages_loop (Suc f) pgdir a lst pa perm s =
        (if a = lst then Ret (0, u) else mappages_loop f pgdir (a + PGSIZE) lst (pa + PGSIZE) perm u)"
    have lst: "lst = (a + PGSIZE) + page_off n"
      using Suc.prems(4) by (simp add: page_off_Suc add.assoc)
    have "unat (page_off (Suc n)) = 4096 * Suc n" using Suc.prems(3) by (intro unat_page_off) simp
    then have "a \<noteq> lst" using Suc.prems(4) by auto
    have r: "map_range (entry (mem u) pgdir) (a + PGSIZE) k (pa + PGSIZE) perm = map_range (entry (mem s) pgdir) a (Suc k) pa perm"
      for k using Suc.prems(3) b(1) u(3) by (intro map_range_Suc) simp_all
    have "runs (mappages_loop f pgdir (a + PGSIZE) lst (pa + PGSIZE) perm u) (\<lambda>(r, t). \<exists>fl''. pt_step u fl' t fl'' pgdir \<and>
      (r = 0 \<and> entry (mem t) pgdir = map_range (entry (mem u) pgdir) (a + PGSIZE) (Suc n) (pa + PGSIZE) perm \<and> length fl' \<le> Suc n + length fl'' \<or>
       r = -1 \<and> fl'' = [] \<and> length fl' \<le> n \<and> (\<exists>k\<le>n. entry (mem t) pgdir = map_range (entry (mem u) pgdir) (a + PGSIZE) k (pa + PGSIZE) perm)))"
      using Suc.prems(3,6) b u lst f by (intro Suc.IH) (auto simp: pt_step_inv)
    then show ?thesis
      unfolding f u(4) r using \<open>a \<noteq> lst\<close> u(2)
      by (auto elim!: runs_mono intro: pt_step_trans [OF u(1)])
        (rule pt_step_trans [OF u(1)], assumption, metis Suc_le_mono)
  qed
qed

text \<open>The pages a range of bytes touches.\<close>

definition npages :: "uint \<Rightarrow> uint \<Rightarrow> nat" where
  "npages va sz = Suc (pgno (va + sz - 1) - pgno va)"

lemma pgno_bound: "pgno a < 1048576"
proof -
  have "unat a div 4096 < 1048576" using unat_uint_less [of a] by (simp add: less_mult_imp_div_less)
  then show ?thesis by (simp add: pgno_def)
qed

lemma range_end:
  assumes "sz \<noteq> 0" and "unat va + unat sz \<le> 2 ^ 32"
  shows "unat (va + sz - 1) = unat va + unat sz - 1" "pgno va \<le> pgno (va + sz - 1)"
proof -
  have z: "0 < unat sz" using assms(1) by (simp add: unat_gt_0)
  have s1: "unat (sz - 1) = unat sz - 1" using assms(1) by (simp add: unat_minus_one)
  have "unat (va + (sz - 1)) = unat va + (unat sz - 1)"
    using assms(2) z s1 by (subst unat_add_uint) simp_all
  then show u: "unat (va + sz - 1) = unat va + unat sz - 1" using z by (simp add: add_diff_eq)
  have "unat va \<le> unat (va + sz - 1)" using u z by simp
  then show "pgno va \<le> pgno (va + sz - 1)" by (simp add: pgno_def div_le_mono)
qed

lemma PGROUNDDOWN_off:
  assumes "pgno a \<le> pgno b"
  shows "PGROUNDDOWN b = PGROUNDDOWN a + page_off (pgno b - pgno a)"
proof -
  have "unat (PGROUNDDOWN a) = 4096 * pgno a" "unat (PGROUNDDOWN b) = 4096 * pgno b"
    by (simp_all add: unat_PGROUNDDOWN pgno_def)
  moreover have "unat (page_off (pgno b - pgno a)) = 4096 * (pgno b - pgno a)"
    using pgno_bound [of b] by (intro unat_page_off) simp
  moreover have "unat (PGROUNDDOWN a) + unat (page_off (pgno b - pgno a)) < 2 ^ 32"
    using calculation assms pgno_bound [of b] by simp
  ultimately have "unat (PGROUNDDOWN a + page_off (pgno b - pgno a)) = unat (PGROUNDDOWN b)"
    using assms by (simp add: unat_add_uint diff_mult_distrib2)
  then show ?thesis by (simp add: uint_eq_iff_unat)
qed

lemma mappages_spec:
  assumes "pt_inv s fl pgdir" and "sz \<noteq> 0" and "unat va + unat sz \<le> 2 ^ 32"
    and "\<forall>v. pgno va \<le> pgno v \<and> pgno v < pgno va + npages va sz \<longrightarrow> \<not> present (entry (mem s) pgdir v)"
  shows "runs (mappages pgdir va sz pa perm s) (\<lambda>(r, t). \<exists>fl'. pt_step s fl t fl' pgdir \<and>
    (r = 0 \<and> entry (mem t) pgdir = map_range (entry (mem s) pgdir) va (npages va sz) pa perm \<and> length fl \<le> npages va sz + length fl' \<or>
     r = -1 \<and> fl' = [] \<and> length fl < npages va sz \<and> (\<exists>k<npages va sz. entry (mem t) pgdir = map_range (entry (mem s) pgdir) va k pa perm)))"
proof -
  let ?n = "pgno (va + sz - 1) - pgno va"
  have e: "map_range E (PGROUNDDOWN va) k pa perm = map_range E va k pa perm" for E k
    by (simp add: map_range_def fun_eq_iff)
  have b: "pgno (va + sz - 1) < 1048576" by (rule pgno_bound)
  have le: "pgno va \<le> pgno (va + sz - 1)" by (rule range_end(2) [OF assms(2,3)])
  have "runs (mappages_loop (2 ^ 20) pgdir (PGROUNDDOWN va) (PGROUNDDOWN (va + sz - 1)) pa perm s)
    (\<lambda>(r, t). \<exists>fl'. pt_step s fl t fl' pgdir \<and>
    (r = 0 \<and> entry (mem t) pgdir = map_range (entry (mem s) pgdir) (PGROUNDDOWN va) (Suc ?n) pa perm \<and> length fl \<le> Suc ?n + length fl' \<or>
     r = -1 \<and> fl' = [] \<and> length fl \<le> ?n \<and> (\<exists>k\<le>?n. entry (mem t) pgdir = map_range (entry (mem s) pgdir) (PGROUNDDOWN va) k pa perm)))"
    using assms b le by (intro mappages_loop_spec PGROUNDDOWN_off) (auto simp: npages_def)
  then show ?thesis
    unfolding mappages_def e npages_def by (simp only: less_Suc_eq_le)
qed

end
