(* ===== verification/Uvm.thy ===== *)
theory Uvm
  imports Pagemap
begin

text \<open>
  User memory: what \<open>allocuvm\<close>, \<open>deallocuvm\<close>, \<open>freevm\<close>, \<open>copyuvm\<close>, \<open>clearpteu\<close>, \<open>uva2ka\<close> and
  \<open>copyout\<close> do to an address space.  The invariant \<open>uvm_inv\<close> extends \<open>pt_inv\<close>: every present user page
  has a frame of its own, a page of the allocator that is neither free nor part of the page table.
\<close>

section \<open>User pages and their frames\<close>

definition frame :: "memory \<Rightarrow> uint \<Rightarrow> uint \<Rightarrow> uint" where
  "frame m pgdir va = table_of (entry m pgdir va)"

definition upage :: "memory \<Rightarrow> uint \<Rightarrow> uint \<Rightarrow> bool" where
  "upage m pgdir va \<longleftrightarrow> pgno va < 0x80000 \<and> present (entry m pgdir va)"

definition uvm_inv :: "'a kst_scheme \<Rightarrow> uint list \<Rightarrow> uint \<Rightarrow> bool" where
  "uvm_inv s fl pgdir \<longleftrightarrow> pt_inv s fl pgdir \<and> KERNBASE < kend s
     \<and> (\<forall>va. upage (mem s) pgdir va \<longrightarrow> page_ok s (frame (mem s) pgdir va) \<and> frame (mem s) pgdir va \<notin> region (mem s) pgdir fl)
     \<and> (\<forall>va va'. upage (mem s) pgdir va \<and> upage (mem s) pgdir va' \<and> frame (mem s) pgdir va = frame (mem s) pgdir va'
          \<longrightarrow> pgno va = pgno va')"

definition frames :: "memory \<Rightarrow> uint \<Rightarrow> uint set" where
  "frames m pgdir = {p. \<exists>va. upage m pgdir va \<and> p = frame m pgdir va}"

lemma aligned_frame [simp]: "aligned 4096 (frame m pgdir va)"
  by (simp add: frame_def)

lemma uvm_inv_pt: "uvm_inv s fl pgdir \<Longrightarrow> pt_inv s fl pgdir"
  by (simp add: uvm_inv_def)

lemma uvm_frameD:
  assumes "uvm_inv s fl pgdir" and "upage (mem s) pgdir va"
  shows "page_ok s (frame (mem s) pgdir va)" "frame (mem s) pgdir va \<notin> region (mem s) pgdir fl"
  using assms unfolding uvm_inv_def by blast+

lemma uvm_inj:
  "uvm_inv s fl pgdir \<Longrightarrow> upage (mem s) pgdir va \<Longrightarrow> upage (mem s) pgdir va' \<Longrightarrow>
   frame (mem s) pgdir va = frame (mem s) pgdir va' \<Longrightarrow> pgno va = pgno va'"
  unfolding uvm_inv_def by blast

lemma upage_mapped: "upage m pgdir va \<Longrightarrow> mapped_table m pgdir va"
  by (auto simp: upage_def entry_def split: if_splits)

lemma region_aligned: "pt_inv s fl pgdir \<Longrightarrow> p \<in> region (mem s) pgdir fl \<Longrightarrow> aligned 4096 p"
  by (auto simp: region_def pt_inv_def kmem_inv_def page_ok_def)

lemma agree_region_entry:
  assumes "pt_inv s fl pgdir" and "agree_on (region (mem s) pgdir fl) (mem s) m'"
  shows "entry m' pgdir = entry (mem s) pgdir" "tables m' pgdir = tables (mem s) pgdir"
    "slot m' pgdir = slot (mem s) pgdir" "mapped_table m' pgdir = mapped_table (mem s) pgdir"
    "tables_ok m' pgdir = tables_ok (mem s) pgdir"
proof -
  have a: "agree_on (insert pgdir (tables (mem s) pgdir)) (mem s) m'" "agree_on {pgdir} (mem s) m'"
    using assms(2) by (auto elim!: agree_on_mono simp: region_def)
  note p = pt_inv_aligned [OF assms(1)]
  show "entry m' pgdir = entry (mem s) pgdir" by (rule ext) (rule entry_agree [OF a(1) p])
  show "tables m' pgdir = tables (mem s) pgdir" "tables_ok m' pgdir = tables_ok (mem s) pgdir"
    "slot m' pgdir = slot (mem s) pgdir" "mapped_table m' pgdir = mapped_table (mem s) pgdir"
    using tables_agree [OF a(2) p] by (auto simp: fun_eq_iff)
qed

section \<open>Freeing one page\<close>

lemma kfree_outside:
  assumes inv: "pt_inv s fl pgdir" and v: "page_ok s v" "v \<notin> region (mem s) pgdir fl"
  obtains t where "kfree v s = Ret t" and "pt_inv t (v # fl) pgdir" and "kframe s t"
    and "agree_on (region (mem s) pgdir fl) (mem s) (mem t)" and "same_outside v (mem s) (mem t)"
proof -
  let ?m = "st32 (memset (mem s) v 1 4096) v (freelist s)"
  let ?t = "(ksettle s)\<lparr>mem := ?m, freelist := v\<rparr>"
  have k: "kmem_inv s fl" and nv: "v \<notin> set fl" using inv v(2) by (auto simp: pt_inv_def region_def)
  have t: "kfree v s = Ret ?t" using k v(1) by (intro kfree_eq) (auto simp: kmem_inv_def)
  have so: "same_outside v (mem s) ?m" using kfree_other_fields [OF k v(1) t] by simp
  have a: "agree_on (region (mem s) pgdir fl) (mem s) ?m"
  proof (rule agree_on_same_outside [OF so page_ok_aligned [OF v(1)]])
    fix p assume "p \<in> region (mem s) pgdir fl"
    then show "aligned 4096 p \<and> p \<noteq> v" using region_aligned [OF inv] v(2) by auto
  qed
  note e = agree_region_entry [OF inv a]
  have "pt_inv ?t (v # fl) pgdir"
    using inv v nv kfree_inv [OF k v(1) nv] by (auto simp: pt_inv_def e region_def)
  with t so a show thesis by (intro that [of ?t]) simp_all
qed

lemma free_page:
  assumes inv: "uvm_inv s fl pgdir" and a: "upage (mem s) pgdir a"
  obtains t where "kfree (frame (mem s) pgdir a) s = Ret t"
    and "uvm_inv (t\<lparr>mem := st32 (mem t) (slot (mem s) pgdir a) 0\<rparr>) (frame (mem s) pgdir a # fl) pgdir"
    and "kframe s t"
    and "\<forall>va. entry (st32 (mem t) (slot (mem s) pgdir a) 0) pgdir va = (if pgno va = pgno a then 0 else entry (mem s) pgdir va)"
    and "unchanged_outside (insert (frame (mem s) pgdir a) (region (mem s) pgdir fl)) (mem s) (st32 (mem t) (slot (mem s) pgdir a) 0)"
    and "tables (st32 (mem t) (slot (mem s) pgdir a) 0) pgdir = tables (mem s) pgdir"
proof -
  let ?v = "frame (mem s) pgdir a"
  note pt = uvm_inv_pt [OF inv]
  obtain t where t: "kfree ?v s = Ret t" "pt_inv t (?v # fl) pgdir" "kframe s t"
    "agree_on (region (mem s) pgdir fl) (mem s) (mem t)" "same_outside ?v (mem s) (mem t)"
    using kfree_outside [OF pt uvm_frameD [OF inv a]] .
  note e = agree_region_entry [OF pt t(4)]
  let ?m = "st32 (mem t) (slot (mem s) pgdir a) 0"
  have m: "mapped_table (mem t) pgdir a" using upage_mapped [OF a] by (simp add: e)
  note w = store_entry [OF t(2) m, where v = 0, unfolded e]
  have ent: "entry ?m pgdir va = (if pgno va = pgno a then 0 else entry (mem s) pgdir va)" for va by (rule w)
  have up: "upage ?m pgdir va \<longleftrightarrow> upage (mem s) pgdir va \<and> pgno va \<noteq> pgno a" for va
    by (auto simp: upage_def ent)
  have fr: "frame ?m pgdir va = frame (mem s) pgdir va" if "pgno va \<noteq> pgno a" for va
    using that by (simp add: frame_def ent)
  have "uvm_inv (t\<lparr>mem := ?m\<rparr>) (?v # fl) pgdir"
    unfolding uvm_inv_def
  proof (intro conjI allI impI)
    show "pt_inv (t\<lparr>mem := ?m\<rparr>) (?v # fl) pgdir" by (rule w)
    show "KERNBASE < kend (t\<lparr>mem := ?m\<rparr>)" using inv t(3) by (simp add: uvm_inv_def kframe_def)
  next
    fix va assume "upage (mem (t\<lparr>mem := ?m\<rparr>)) pgdir va"
    then have u: "upage (mem s) pgdir va" "pgno va \<noteq> pgno a" by (simp_all add: up)
    show "page_ok (t\<lparr>mem := ?m\<rparr>) (frame (mem (t\<lparr>mem := ?m\<rparr>)) pgdir va)"
      using uvm_frameD(1) [OF inv u(1)] u(2) page_ok_kframe [OF t(3)] by (simp add: fr)
    have "frame (mem s) pgdir va \<noteq> ?v" using uvm_inj [OF inv u(1) a] u(2) by auto
    then show "frame (mem (t\<lparr>mem := ?m\<rparr>)) pgdir va \<notin> region (mem (t\<lparr>mem := ?m\<rparr>)) pgdir (?v # fl)"
      using uvm_frameD(2) [OF inv u(1)] u(2) by (simp add: fr region_def w(2))
  next
    fix va va' assume "upage (mem (t\<lparr>mem := ?m\<rparr>)) pgdir va \<and> upage (mem (t\<lparr>mem := ?m\<rparr>)) pgdir va' \<and>
      frame (mem (t\<lparr>mem := ?m\<rparr>)) pgdir va = frame (mem (t\<lparr>mem := ?m\<rparr>)) pgdir va'"
    then have "upage (mem s) pgdir va" "upage (mem s) pgdir va'" "frame (mem s) pgdir va = frame (mem s) pgdir va'"
      by (auto simp: up fr)
    then show "pgno va = pgno va'" by (rule uvm_inj [OF inv])
  qed
  moreover have "unchanged_outside (insert ?v (region (mem s) pgdir fl)) (mem s) ?m"
  proof (rule unchanged_outside_trans)
    show "unchanged_outside (insert ?v (region (mem s) pgdir fl)) (mem s) (mem t)"
      using t(5) by (rule unchanged_outside_same) simp
    have "table_of (pde_at (mem t) pgdir (PDX a)) \<in> insert ?v (region (mem s) pgdir fl)"
      using tables_PDX [OF m] by (simp add: e region_def)
    from unchanged_outside_same [OF slot_store_outside this]
    show "unchanged_outside (insert ?v (region (mem s) pgdir fl)) (mem t) ?m" by (simp add: e)
  qed
  ultimately show thesis using t(1,3) ent w(2) by (intro that [of t]) simp_all
qed

section \<open>Freeing a range\<close>

definition cleared :: "(uint \<Rightarrow> uint) \<Rightarrow> nat \<Rightarrow> nat \<Rightarrow> uint \<Rightarrow> uint" where
  "cleared E lo hi va = (if lo \<le> pgno va \<and> pgno va < hi \<and> present (E va) then 0 else E va)"

definition frames_in :: "memory \<Rightarrow> uint \<Rightarrow> nat \<Rightarrow> nat \<Rightarrow> uint set" where
  "frames_in m pgdir lo hi = {p. \<exists>va. upage m pgdir va \<and> lo \<le> pgno va \<and> pgno va < hi \<and> p = frame m pgdir va}"

definition page_end :: "uint \<Rightarrow> nat" where
  "page_end sz = (unat sz + 4095) div 4096"

lemma less_page_end:
  assumes "aligned 4096 a"
  shows "a < sz \<longleftrightarrow> pgno a < page_end sz"
proof -
  obtain q where q: "unat a = 4096 * q" "pgno a = q" using assms by (rule aligned_pageE)
  have "4096 * q < unat sz \<longleftrightarrow> Suc q * 4096 \<le> unat sz + 4095" by auto
  also have "\<dots> \<longleftrightarrow> Suc q \<le> page_end sz" unfolding page_end_def by (subst less_eq_div_iff_mult_less_eq) simp_all
  finally show ?thesis using q by (simp add: word_less_nat_alt Suc_le_eq)
qed

lemma page_end_user: "unat sz \<le> 0x80000000 \<Longrightarrow> page_end sz \<le> 0x80000"
proof -
  assume "unat sz \<le> 0x80000000"
  then have "page_end sz \<le> (0x80000000 + 4095) div 4096" unfolding page_end_def by (intro div_le_mono) simp
  then show ?thesis by simp
qed

lemma PGADDR_next:
  assumes "unat (PDX a) < 1023"
  shows "aligned 4096 (PGADDR (PDX a + 1) 0 0)" "pgno (PGADDR (PDX a + 1) 0 0) = (unat (PDX a) + 1) * 1024"
proof -
  have "unat (PDX a + 1) = unat (PDX a) + 1"
    using assms unat_add_uint [of "PDX a" 1] by simp
  then have "unat (push_bit 22 (PDX a + 1)) = (unat (PDX a) + 1) * 4194304"
    using assms by (simp add: push_bit_eq_mult unat_word_ariths)
  then have "unat (PGADDR (PDX a + 1) 0 0) = 4096 * ((unat (PDX a) + 1) * 1024)"
    unfolding PGADDR_def PDXSHIFT_def by simp
  then show "aligned 4096 (PGADDR (PDX a + 1) 0 0)" "pgno (PGADDR (PDX a + 1) 0 0) = (unat (PDX a) + 1) * 1024"
    by (simp_all add: aligned_def pgno_def)
qed

lemma unmapped_directory:
  assumes "\<not> mapped_table m pgdir a" and "pgno a \<le> pgno va" and "pgno va < (unat (PDX a) + 1) * 1024"
  shows "entry m pgdir va = 0"
proof -
  have "pgno a div 1024 \<le> pgno va div 1024" using assms(2) by (rule div_le_mono)
  moreover have "pgno va div 1024 < unat (PDX a) + 1" using assms(3) by (simp add: less_mult_imp_div_less)
  ultimately have "PDX va = PDX a" by (simp add: unat_PDX uint_eq_iff_unat)
  with assms(1) show ?thesis by (simp add: entry_def mapped_table_def)
qed

definition freed_range :: "'a kst_scheme \<Rightarrow> uint list \<Rightarrow> uint \<Rightarrow> nat \<Rightarrow> nat \<Rightarrow> 'a kst_scheme \<Rightarrow> uint list \<Rightarrow> bool" where
  "freed_range s fl pgdir lo hi t fl' \<longleftrightarrow> uvm_inv t fl' pgdir \<and> kframe s t
     \<and> entry (mem t) pgdir = cleared (entry (mem s) pgdir) lo hi
     \<and> set fl' = set fl \<union> frames_in (mem s) pgdir lo hi
     \<and> tables (mem t) pgdir = tables (mem s) pgdir
     \<and> unchanged_outside (region (mem s) pgdir fl \<union> frames_in (mem s) pgdir lo hi) (mem s) (mem t)"

lemma frames_in_empty: "hi \<le> lo \<Longrightarrow> frames_in m pgdir lo hi = {}"
  by (auto simp: frames_in_def)

lemma cleared_empty: "hi \<le> lo \<Longrightarrow> cleared E lo hi = E"
  by (auto simp: cleared_def fun_eq_iff)

lemma freed_range_empty: "uvm_inv s fl pgdir \<Longrightarrow> hi \<le> lo \<Longrightarrow> freed_range s fl pgdir lo hi s fl"
  by (simp add: freed_range_def frames_in_empty cleared_empty)

lemma freed_range_absent:
  assumes "freed_range s fl pgdir lo' hi t fl'" and "lo \<le> lo'"
    and "\<And>va. lo \<le> pgno va \<Longrightarrow> pgno va < lo' \<Longrightarrow> \<not> present (entry (mem s) pgdir va)"
  shows "freed_range s fl pgdir lo hi t fl'"
proof -
  have k: "lo' \<le> pgno va \<longleftrightarrow> lo \<le> pgno va" if "present (entry (mem s) pgdir va)" for va
    using assms(2) assms(3) [of va] that by (cases "lo' \<le> pgno va") auto
  have "cleared (entry (mem s) pgdir) lo' hi va = cleared (entry (mem s) pgdir) lo hi va" for va
    using k [of va] by (auto simp: cleared_def)
  then have "cleared (entry (mem s) pgdir) lo' hi = cleared (entry (mem s) pgdir) lo hi" ..
  moreover have "frames_in (mem s) pgdir lo' hi = frames_in (mem s) pgdir lo hi"
    unfolding frames_in_def upage_def by (intro Collect_cong iff_exI) (simp add: k cong: conj_cong)
  ultimately show ?thesis using assms(1) by (simp add: freed_range_def)
qed

lemma freed_upage:
  assumes "freed_range s fl pgdir lo hi t fl'"
  shows "\<forall>va. upage (mem t) pgdir va \<longleftrightarrow> upage (mem s) pgdir va \<and> \<not> (lo \<le> pgno va \<and> pgno va < hi)"
    and "\<forall>va. upage (mem t) pgdir va \<longrightarrow> entry (mem t) pgdir va = entry (mem s) pgdir va"
proof -
  have e: "entry (mem t) pgdir = cleared (entry (mem s) pgdir) lo hi" using assms by (simp add: freed_range_def)
  show "\<forall>va. upage (mem t) pgdir va \<longleftrightarrow> upage (mem s) pgdir va \<and> \<not> (lo \<le> pgno va \<and> pgno va < hi)"
    and "\<forall>va. upage (mem t) pgdir va \<longrightarrow> entry (mem t) pgdir va = entry (mem s) pgdir va"
    by (auto simp: upage_def e cleared_def)
qed

lemma frames_in_cong:
  assumes "\<And>va. lo \<le> pgno va \<Longrightarrow> pgno va < hi \<Longrightarrow> entry m' pgdir va = entry m pgdir va"
  shows "frames_in m' pgdir lo hi = frames_in m pgdir lo hi"
  using assms by (auto simp: frames_in_def upage_def frame_def)

lemma frames_in_first:
  assumes "upage m pgdir a" and "pgno a < hi"
  shows "frames_in m pgdir (pgno a) hi = insert (frame m pgdir a) (frames_in m pgdir (Suc (pgno a)) hi)"
proof -
  have same: "frame m pgdir va = frame m pgdir a" if "pgno va = pgno a" for va
    using entry_cong(1) [OF that] by (simp add: frame_def)
  show ?thesis
  proof (intro set_eqI iffI)
    fix x assume "x \<in> frames_in m pgdir (pgno a) hi"
    then obtain va where va: "upage m pgdir va" "pgno a \<le> pgno va" "pgno va < hi" "x = frame m pgdir va"
      unfolding frames_in_def by blast
    show "x \<in> insert (frame m pgdir a) (frames_in m pgdir (Suc (pgno a)) hi)"
    proof (cases "pgno va = pgno a")
      case True
      then show ?thesis using same [OF True] va(4) by simp
    next
      case False
      then have "Suc (pgno a) \<le> pgno va" using va(2) by simp
      then show ?thesis using va unfolding frames_in_def by blast
    qed
  next
    fix x assume "x \<in> insert (frame m pgdir a) (frames_in m pgdir (Suc (pgno a)) hi)"
    then consider "x = frame m pgdir a" | va where "upage m pgdir va" "Suc (pgno a) \<le> pgno va" "pgno va < hi" "x = frame m pgdir va"
      unfolding frames_in_def by blast
    then show "x \<in> frames_in m pgdir (pgno a) hi"
    proof cases
      case 1
      with assms show ?thesis unfolding frames_in_def by blast
    next
      case (2 va)
      then have "pgno a \<le> pgno va" by simp
      with 2 show ?thesis unfolding frames_in_def by blast
    qed
  qed
qed

lemma freed_range_one:
  assumes inv: "uvm_inv s fl pgdir" and a: "upage (mem s) pgdir a" "pgno a < hi"
    and kf: "kframe s u" and ent: "\<And>va. entry (mem u) pgdir va = (if pgno va = pgno a then 0 else entry (mem s) pgdir va)"
    and out: "unchanged_outside (insert (frame (mem s) pgdir a) (region (mem s) pgdir fl)) (mem s) (mem u)"
    and tab: "tables (mem u) pgdir = tables (mem s) pgdir"
    and rest: "freed_range u (frame (mem s) pgdir a # fl) pgdir (Suc (pgno a)) hi t fl'"
  shows "freed_range s fl pgdir (pgno a) hi t fl'"
proof -
  have "frames_in (mem u) pgdir (Suc (pgno a)) hi = frames_in (mem s) pgdir (Suc (pgno a)) hi"
    by (rule frames_in_cong) (auto simp: ent)
  note f = this frames_in_first [OF a]
  have "cleared (entry (mem u) pgdir) (Suc (pgno a)) hi va = cleared (entry (mem s) pgdir) (pgno a) hi va" for va
  proof (cases "pgno va = pgno a")
    case True
    then show ?thesis using a entry_cong(1) [OF True] by (simp add: cleared_def ent upage_def)
  next
    case False
    then have "Suc (pgno a) \<le> pgno va \<longleftrightarrow> pgno a \<le> pgno va" by auto
    with False show ?thesis by (simp add: cleared_def ent)
  qed
  then have c: "cleared (entry (mem u) pgdir) (Suc (pgno a)) hi = cleared (entry (mem s) pgdir) (pgno a) hi" by auto
  have "unchanged_outside (region (mem s) pgdir fl \<union> frames_in (mem s) pgdir (pgno a) hi) (mem s) (mem u)"
    using out by (rule unchanged_outside_mono) (auto simp: f)
  moreover have "unchanged_outside (region (mem s) pgdir fl \<union> frames_in (mem s) pgdir (pgno a) hi) (mem u) (mem t)"
    using rest unfolding freed_range_def by (auto simp: f region_def tab elim!: unchanged_outside_mono)
  ultimately have "unchanged_outside (region (mem s) pgdir fl \<union> frames_in (mem s) pgdir (pgno a) hi) (mem s) (mem t)"
    by (rule unchanged_outside_trans)
  with rest kf show ?thesis unfolding freed_range_def by (auto simp: f c tab intro: kframe_trans)
qed

lemma frame_not_zero:
  assumes "uvm_inv s fl pgdir" and "upage (mem s) pgdir va"
  shows "PTE_ADDR (entry (mem s) pgdir va) \<noteq> 0"
proof
  assume "PTE_ADDR (entry (mem s) pgdir va) = 0"
  then have "frame (mem s) pgdir va = KERNBASE" by (simp add: frame_def table_of_def P2V_def)
  then have "kend s \<le> KERNBASE" using uvm_frameD(1) [OF assms] by (simp add: page_ok_def)
  moreover have "KERNBASE < kend s" using assms(1) by (simp add: uvm_inv_def)
  ultimately show False by simp
qed

lemma deallocuvm_loop_spec:
  assumes "uvm_inv s fl pgdir" and "aligned 4096 a" and "unat oldsz \<le> 0x80000000" and "page_end oldsz - pgno a < fuel"
  shows "runs (deallocuvm_loop fuel pgdir a oldsz s) (\<lambda>t. \<exists>fl'. freed_range s fl pgdir (pgno a) (page_end oldsz) t fl')"
  using assms
proof (induction fuel arbitrary: a s fl)
  case 0
  then show ?case by simp
next
  case (Suc f)
  note inv = Suc.prems(1) and al = Suc.prems(2)
  show ?case
  proof (cases "a < oldsz")
    case False
    then have "page_end oldsz \<le> pgno a" by (simp add: less_page_end [OF al])
    with False show ?thesis using freed_range_empty [OF inv] by auto
  next
    case True
    then have lt: "pgno a < page_end oldsz" by (simp add: less_page_end [OF al])
    with page_end_user [OF Suc.prems(3)] have user: "pgno a < 0x80000" by simp
    then have nx: "pgno (a + PGSIZE) = Suc (pgno a)" "aligned 4096 (a + PGSIZE)" using pgno_next [OF al] by simp_all
    then have fuel: "page_end oldsz - pgno (a + PGSIZE) < f" using Suc.prems(4) lt by simp
    consider (skip) "\<not> mapped_table (mem s) pgdir a" | (absent) "mapped_table (mem s) pgdir a" "\<not> present (entry (mem s) pgdir a)"
      | (free) "upage (mem s) pgdir a" using user by (auto simp: upage_def)
    then show ?thesis
    proof cases
      case skip
      have d: "unat (PDX a) < 1023" using user by (simp add: unat_PDX less_mult_imp_div_less)
      let ?b = "PGADDR (PDX a + 1) 0 0"
      note b = PGADDR_next [OF d]
      have gt: "pgno a < pgno ?b"
        unfolding b(2) unat_PDX using dividend_less_div_times [of 1024 "pgno a"] by simp
      then have "page_end oldsz - pgno ?b < f" using Suc.prems(4) lt by simp
      note ih = Suc.IH [OF inv b(1) Suc.prems(3) this]
      have eq: "deallocuvm_loop (Suc f) pgdir a oldsz s = deallocuvm_loop f pgdir ?b oldsz s"
        using True skip by (simp add: walk_noalloc)
      have "\<not> present (entry (mem s) pgdir va)" if "pgno a \<le> pgno va" "pgno va < pgno ?b" for va
        using unmapped_directory [OF skip that(1)] that(2) unfolding b(2) by simp
      with gt ih show ?thesis
        unfolding eq by (elim runs_mono exE) (blast intro: freed_range_absent [OF _ less_imp_le])
    next
      case absent
      then have eq: "deallocuvm_loop (Suc f) pgdir a oldsz s = deallocuvm_loop f pgdir (a + PGSIZE) oldsz s"
        using True slot_nonzero [OF uvm_inv_pt [OF inv] absent(1)]
        by (simp add: walk_mapped entry_def present_def)
      have "\<not> present (entry (mem s) pgdir va)" if "pgno a \<le> pgno va" "pgno va < Suc (pgno a)" for va
        using absent(2) entry_cong(1) [of va a] that by simp
      with Suc.IH [OF inv nx(2) Suc.prems(3) fuel] show ?thesis
        unfolding eq nx(1) by (elim runs_mono exE) (blast intro: freed_range_absent [OF _ le_SucI [OF order_refl]])
    next
      case free
      let ?v = "frame (mem s) pgdir a" and ?q = "slot (mem s) pgdir a"
      obtain t where t: "kfree ?v s = Ret t" "uvm_inv (t\<lparr>mem := st32 (mem t) ?q 0\<rparr>) (?v # fl) pgdir" "kframe s t"
        "\<forall>va. entry (st32 (mem t) ?q 0) pgdir va = (if pgno va = pgno a then 0 else entry (mem s) pgdir va)"
        "unchanged_outside (insert ?v (region (mem s) pgdir fl)) (mem s) (st32 (mem t) ?q 0)"
        "tables (st32 (mem t) ?q 0) pgdir = tables (mem s) pgdir"
        by (rule free_page [OF inv free])
      note m = upage_mapped [OF free]
      have e: "ld32 (mem s) ?q = entry (mem s) pgdir a" using m by (simp add: entry_def)
      have eq: "deallocuvm_loop (Suc f) pgdir a oldsz s =
          deallocuvm_loop f pgdir (a + PGSIZE) oldsz (t\<lparr>mem := st32 (mem t) ?q 0\<rparr>)"
        using True slot_nonzero [OF uvm_inv_pt [OF inv] m] frame_not_zero [OF inv free] free t(1)
        by (simp add: walk_mapped [OF m] e frame_def table_of_def upage_def present_def Let_def)
      have "freed_range s fl pgdir (pgno a) (page_end oldsz) u fl'"
        if "freed_range (t\<lparr>mem := st32 (mem t) ?q 0\<rparr>) (?v # fl) pgdir (Suc (pgno a)) (page_end oldsz) u fl'" for u fl'
        using t(3-6) that by (intro freed_range_one [OF inv free lt, of "t\<lparr>mem := st32 (mem t) ?q 0\<rparr>"]) simp_all
      with Suc.IH [OF t(2) nx(2) Suc.prems(3) fuel] show ?thesis
        unfolding eq nx(1) by (elim runs_mono exE) blast
    qed
  qed
qed

lemma pgno_PGROUNDUP: "unat a \<le> 0x80000000 \<Longrightarrow> pgno (PGROUNDUP a) = page_end a"
  by (simp add: pgno_def page_end_def unat_PGROUNDUP)

lemma deallocuvm_spec:
  assumes "uvm_inv s fl pgdir" and "unat oldsz \<le> 0x80000000" and "newsz < oldsz"
  shows "runs (deallocuvm pgdir oldsz newsz s) (\<lambda>(r, t). r = newsz
    \<and> (\<exists>fl'. freed_range s fl pgdir (page_end newsz) (page_end oldsz) t fl'))"
proof -
  have n: "unat newsz \<le> 0x80000000" using assms(2,3) by (simp add: word_less_nat_alt)
  have "page_end oldsz - pgno (PGROUNDUP newsz) < 2 ^ 20" using page_end_user [OF assms(2)] by simp
  from deallocuvm_loop_spec [OF assms(1) aligned_PGROUNDUP assms(2) this] show ?thesis
    using assms(3) by (simp add: deallocuvm_def pgno_PGROUNDUP [OF n] not_le) (auto elim: runs_mono)
qed

section \<open>Mapping one fresh page\<close>

lemma npages_one:
  assumes "aligned 4096 a"
  shows "npages a PGSIZE = 1" "PGSIZE \<noteq> 0" "unat a + unat PGSIZE \<le> 2 ^ 32"
proof -
  obtain q where q: "unat a = 4096 * q" "q < 1048576" "pgno a = q" using assms by (rule aligned_pageE)
  show z: "PGSIZE \<noteq> 0" and b: "unat a + unat PGSIZE \<le> 2 ^ 32" using q by (simp_all add: PGSIZE_def)
  have "unat (a + PGSIZE - 1) = 4096 * q + 4095" using range_end(1) [OF z b] q by (simp add: PGSIZE_def)
  then have "pgno (a + PGSIZE - 1) = q" by (simp add: pgno_def)
  then show "npages a PGSIZE = 1" using q by (simp add: npages_def)
qed

lemma alloc_page:
  assumes inv: "pt_inv t (p # ft) pgdir" and m: "same_outside p (mem t) m'"
  shows "pt_inv ((ksettle t)\<lparr>freelist := ld32 (mem t) p, mem := m'\<rparr>) ft pgdir"
    and "entry m' pgdir = entry (mem t) pgdir" and "tables m' pgdir = tables (mem t) pgdir"
    and "region m' pgdir ft = region (mem t) pgdir (p # ft) - {p}"
proof -
  have k: "kmem_inv t (p # ft)" using inv by (simp add: pt_inv_def)
  have p: "aligned 4096 p" "p \<notin> set ft" "p \<noteq> pgdir" "p \<notin> tables (mem t) pgdir"
    using inv by (auto simp: pt_inv_def kmem_inv_def page_ok_def)
  let ?t = "(ksettle t)\<lparr>freelist := ld32 (mem t) p\<rparr>"
  have pt: "pt_inv ?t ft pgdir" using inv kalloc_Cons(2) [OF k] by (auto simp: pt_inv_def)
  have "agree_on (region (mem t) pgdir ft) (mem t) m'"
  proof (rule agree_on_same_outside [OF m p(1)])
    fix q assume q: "q \<in> region (mem t) pgdir ft"
    then have "aligned 4096 q" using region_aligned [OF pt] by simp
    with q p show "aligned 4096 q \<and> q \<noteq> p" by (auto simp: region_def)
  qed
  then have a: "agree_on (region (mem ?t) pgdir ft) (mem ?t) m'" by simp
  note e = agree_region_entry [OF pt a]
  show "entry m' pgdir = entry (mem t) pgdir" and "tables m' pgdir = tables (mem t) pgdir" using e by simp_all
  have "pt_inv (?t\<lparr>mem := m'\<rparr>) ft pgdir"
    using a by (intro pt_inv_agree [OF pt]) (auto elim!: agree_on_mono simp: region_def)
  then show "pt_inv ((ksettle t)\<lparr>freelist := ld32 (mem t) p, mem := m'\<rparr>) ft pgdir" .
  show "region m' pgdir ft = region (mem t) pgdir (p # ft) - {p}" using e p by (auto simp: region_def)
qed

lemma frame_of_entry:
  assumes "aligned 4096 p" and "unat perm < 4096"
  shows "table_of (V2P p OR perm OR PTE_P) = p" and "present (V2P p OR perm OR PTE_P)"
proof -
  have "unat (perm OR PTE_P) < 4096"
  proof -
    have "perm OR PTE_P = (perm OR PTE_P) AND mask 12"
      using small_bit [OF assms(2)] by (intro bit_word_eqI) (auto simp: bit_simps PTE_P_def, meson not_le)
    then have "unat (perm OR PTE_P) = unat (perm OR PTE_P) mod 2 ^ 12" by (metis unat_and_mask)
    also have "\<dots> < 2 ^ 12" by (rule mod_less_divisor) simp
    finally show ?thesis by simp
  qed
  then have "PTE_ADDR (V2P p OR (perm OR PTE_P)) = V2P p" using assms(1) by (intro PTE_ADDR_or) simp_all
  then show "table_of (V2P p OR perm OR PTE_P) = p" by (simp add: table_of_def or.assoc)
  show "present (V2P p OR perm OR PTE_P)" by (simp add: present_or)
qed

lemma uvm_grow:
  assumes t: "uvm_inv t (p # ft) pgdir" and u: "pt_inv u fl' pgdir" "kframe t u"
    and reg: "region (mem u) pgdir fl' = region (mem t) pgdir (p # ft) - {p}"
    and ent: "\<And>va. entry (mem u) pgdir va = (if pgno va = pgno a then E else entry (mem t) pgdir va)"
    and E: "present E \<Longrightarrow> table_of E = p"
  shows "uvm_inv u fl' pgdir"
proof -
  have p: "page_ok t p" "p \<in> region (mem t) pgdir (p # ft)"
    using t by (auto simp: uvm_inv_def pt_inv_def kmem_inv_def region_def)
  have k: "page_ok u = page_ok t" using u(2) by (rule page_ok_kframe)
  have c: "(pgno va = pgno a \<and> frame (mem u) pgdir va = p) \<or>
      (pgno va \<noteq> pgno a \<and> upage (mem t) pgdir va \<and> frame (mem u) pgdir va = frame (mem t) pgdir va)"
    if "upage (mem u) pgdir va" for va
    using that E by (auto simp: upage_def frame_def ent split: if_splits)
  have new: "frame (mem t) pgdir va \<noteq> p" if "upage (mem t) pgdir va" for va
    using uvm_frameD(2) [OF t that] p(2) by auto
  show ?thesis
    unfolding uvm_inv_def
  proof (intro conjI allI impI)
    show "pt_inv u fl' pgdir" by fact
    show "KERNBASE < kend u" using t u(2) by (simp add: uvm_inv_def kframe_def)
  next
    fix va assume va: "upage (mem u) pgdir va"
    show "page_ok u (frame (mem u) pgdir va)" using c [OF va] p(1) uvm_frameD(1) [OF t] by (auto simp: k)
    show "frame (mem u) pgdir va \<notin> region (mem u) pgdir fl'"
      using c [OF va] uvm_frameD(2) [OF t] by (auto simp: reg)
  next
    fix va va'
    assume v: "upage (mem u) pgdir va \<and> upage (mem u) pgdir va' \<and> frame (mem u) pgdir va = frame (mem u) pgdir va'"
    then show "pgno va = pgno va'"
      using c [of va] c [of va'] new [of va] new [of va'] uvm_inj [OF t, of va va'] by auto
  qed
qed

lemma map_frame:
  assumes t: "uvm_inv t (p # ft) pgdir" and a: "aligned 4096 a" "pgno a < 0x80000" "\<not> present (entry (mem t) pgdir a)"
    and m: "same_outside p (mem t) m'" and perm: "unat perm < 4096"
  shows "runs (mappages pgdir a PGSIZE (V2P p) perm ((ksettle t)\<lparr>freelist := ld32 (mem t) p, mem := m'\<rparr>)) (\<lambda>(r, u).
    \<exists>fl'. uvm_inv u fl' pgdir \<and> kframe t u \<and> region (mem u) pgdir fl' = region (mem t) pgdir (p # ft) - {p}
      \<and> unchanged_outside (region (mem t) pgdir (p # ft)) (mem t) (mem u)
      \<and> (\<forall>x. pgno x = pgno p \<longrightarrow> mem u x = m' x)
      \<and> (r = 0 \<and> length ft \<le> Suc (length fl')
           \<and> (\<forall>va. entry (mem u) pgdir va = (if pgno va = pgno a then V2P p OR perm OR PTE_P else entry (mem t) pgdir va))
         \<or> r = -1 \<and> ft = [] \<and> fl' = [] \<and> entry (mem u) pgdir = entry (mem t) pgdir))"
proof -
  let ?t = "(ksettle t)\<lparr>freelist := ld32 (mem t) p, mem := m'\<rparr>"
  note pt = uvm_inv_pt [OF t]
  note al = alloc_page [OF pt m]
  have pal: "aligned 4096 p" "p \<in> region (mem t) pgdir (p # ft)"
    using pt by (auto simp: pt_inv_def kmem_inv_def page_ok_def region_def)
  have "\<not> present (entry (mem ?t) pgdir v)" if "pgno a \<le> pgno v" "pgno v < pgno a + npages a PGSIZE" for v
    using that a(3) entry_cong(1) [of v a] by (simp add: npages_one(1) [OF a(1)] al(2))
  then have np: "\<forall>v. pgno a \<le> pgno v \<and> pgno v < pgno a + npages a PGSIZE \<longrightarrow> \<not> present (entry (mem ?t) pgdir v)" by blast
  have one: "map_range E a 1 (V2P p) perm = (\<lambda>va. if pgno va = pgno a then V2P p OR perm OR PTE_P else E va)" for E
    by (auto simp: map_range_def fun_eq_iff)
  have et: "entry (mem ?t) pgdir = entry (mem t) pgdir" by (simp add: al(2))
  obtain r u fl' where call: "mappages pgdir a PGSIZE (V2P p) perm ?t = Ret (r, u)"
    and st: "pt_step ?t ft u fl' pgdir"
    and r: "r = 0 \<and> entry (mem u) pgdir = (\<lambda>va. if pgno va = pgno a then V2P p OR perm OR PTE_P else entry (mem t) pgdir va)
          \<and> length ft \<le> 1 + length fl' \<or>
        r = - 1 \<and> fl' = [] \<and> length ft < 1 \<and> (\<exists>k<1. entry (mem u) pgdir = map_range (entry (mem t) pgdir) a k (V2P p) perm)"
    using mappages_spec [OF al(1) npages_one(2,3) [OF a(1)] np, of "V2P p" perm]
    unfolding npages_one(1) [OF a(1)] one et by (elim runsE) blast
  have kf: "kframe t u" using st by (auto simp: pt_step_def intro: kframe_trans [of t ?t])
  have reg: "region (mem u) pgdir fl' = region (mem t) pgdir (p # ft) - {p}" using st al(4) by (simp add: pt_step_def)
  have un: "unchanged_outside (region (mem t) pgdir (p # ft) - {p}) m' (mem u)" using st al(4) by (simp add: pt_step_def)
  have "unchanged_outside (region (mem t) pgdir (p # ft)) (mem t) m'"
    using m pal(2) by (rule unchanged_outside_same)
  then have out: "unchanged_outside (region (mem t) pgdir (p # ft)) (mem t) (mem u)"
    by (rule unchanged_outside_trans) (rule unchanged_outside_mono [OF un], blast)
  have "agree_on {p} m' (mem u)"
  proof (rule agree_on_unchanged [OF un])
    show "aligned 4096 q" if "q \<in> region (mem t) pgdir (p # ft) - {p}" for q using that region_aligned [OF pt] by simp
    show "aligned 4096 q \<and> q \<notin> region (mem t) pgdir (p # ft) - {p}" if "q \<in> {p}" for q using that pal by simp
  qed
  then have same: "\<forall>x. pgno x = pgno p \<longrightarrow> mem u x = m' x" by (auto simp: agree_on_def)
  have "uvm_inv u fl' pgdir"
  proof (cases "r = 0")
    case True
    with r have "\<And>va. entry (mem u) pgdir va = (if pgno va = pgno a then V2P p OR perm OR PTE_P else entry (mem t) pgdir va)"
      by auto
    then show ?thesis using frame_of_entry(1) [OF pal(1) perm] by (rule uvm_grow [OF t pt_step_inv [OF st] kf reg])
  next
    case False
    with r have e: "entry (mem u) pgdir = entry (mem t) pgdir" by auto
    have "entry (mem u) pgdir va = (if pgno va = pgno a then entry (mem t) pgdir a else entry (mem t) pgdir va)" for va
      using entry_cong(1) [of va a "mem t" pgdir] by (simp add: e)
    then show ?thesis by (rule uvm_grow [OF t pt_step_inv [OF st] kf reg]) (simp add: a(3))
  qed
  with kf reg out same r show ?thesis
    unfolding call by (auto intro!: exI [of _ fl'])
qed

section \<open>Growing and shrinking an address space\<close>

text \<open>
  \<open>grown s fl X pgdir lo k t ft\<close>: from \<open>s\<close>, the pages \<open>lo\<close> to \<open>k\<close> have got zeroed frames of their own that
  the user may write; nothing else of the map has changed; and the pages that were free or in the
  page table are still free, in the page table, in the new frames, or in \<open>X\<close>.
\<close>

definition zero_page :: "memory \<Rightarrow> uint \<Rightarrow> bool" where
  "zero_page m p \<longleftrightarrow> (\<forall>x. pgno x = pgno p \<longrightarrow> m x = 0)"

definition user_entry :: "uint \<Rightarrow> uint" where
  "user_entry p = V2P p OR (PTE_W OR PTE_U) OR PTE_P"

definition grown :: "'a kst_scheme \<Rightarrow> uint list \<Rightarrow> uint set \<Rightarrow> uint \<Rightarrow> nat \<Rightarrow> nat \<Rightarrow> 'a kst_scheme \<Rightarrow> uint list \<Rightarrow> bool" where
  "grown s fl X pgdir lo k t ft \<longleftrightarrow> uvm_inv t ft pgdir \<and> kframe s t
     \<and> region (mem s) pgdir fl = region (mem t) pgdir ft \<union> frames_in (mem t) pgdir lo k \<union> X
     \<and> unchanged_outside (region (mem s) pgdir fl) (mem s) (mem t)
     \<and> length fl \<le> length ft + 2 * (k - lo) + card X
     \<and> (\<forall>va. if lo \<le> pgno va \<and> pgno va < k
          then entry (mem t) pgdir va = user_entry (frame (mem t) pgdir va) \<and> zero_page (mem t) (frame (mem t) pgdir va)
          else entry (mem t) pgdir va = entry (mem s) pgdir va)"

lemma PTE_WU: "unat (PTE_W OR PTE_U) < 4096"
  by (simp add: PTE_W_def PTE_U_def)

lemma user_entry_frame: "aligned 4096 p \<Longrightarrow> table_of (user_entry p) = p" "aligned 4096 p \<Longrightarrow> present (user_entry p)"
  unfolding user_entry_def by (intro frame_of_entry PTE_WU; assumption)+

lemma grown_start: "uvm_inv s fl pgdir \<Longrightarrow> grown s fl {} pgdir lo lo s fl"
  by (auto simp: grown_def frames_in_empty)

lemma frame_contents:
  assumes t: "uvm_inv t ft pgdir" and va: "upage (mem t) pgdir va"
    and u: "unchanged_outside (region (mem t) pgdir ft) (mem t) m'" and x: "pgno x = pgno (frame (mem t) pgdir va)"
  shows "m' x = mem t x"
proof -
  have "agree_on {frame (mem t) pgdir va} (mem t) m'"
    using uvm_frameD(2) [OF t va] region_aligned [OF uvm_inv_pt [OF t]] by (intro agree_on_unchanged [OF u]) auto
  then show ?thesis using x by (auto simp: agree_on_def)
qed

lemma grown_upage:
  assumes "grown s fl X pgdir lo k t ft" and "k \<le> 0x80000" and "lo \<le> pgno va" and "pgno va < k"
  shows "upage (mem t) pgdir va"
proof -
  have "entry (mem t) pgdir va = user_entry (frame (mem t) pgdir va)" using assms unfolding grown_def by auto
  then have "present (entry (mem t) pgdir va)" by (metis user_entry_frame(2) aligned_frame)
  then show ?thesis using assms by (simp add: upage_def)
qed

lemma grown_more:
  assumes g: "grown s fl {} pgdir lo k t (p # ft)" and k: "lo \<le> k" "k < 0x80000" "pgno a = k"
    and u: "uvm_inv u fl' pgdir" "kframe t u" "region (mem u) pgdir fl' = region (mem t) pgdir (p # ft) - {p}"
      "unchanged_outside (region (mem t) pgdir (p # ft)) (mem t) (mem u)" "zero_page (mem u) p" "length ft \<le> Suc (length fl')"
    and ent: "\<forall>va. entry (mem u) pgdir va = (if pgno va = pgno a then user_entry p else entry (mem t) pgdir va)"
  shows "grown s fl {} pgdir lo (Suc k) u fl'"
proof -
  note t = g [unfolded grown_def]
  have inv: "uvm_inv t (p # ft) pgdir" using t by simp
  have pal: "aligned 4096 p" "p \<in> region (mem t) pgdir (p # ft)"
    using uvm_inv_pt [OF inv] by (auto simp: pt_inv_def kmem_inv_def page_ok_def region_def)
  have fr: "frame (mem u) pgdir va = (if pgno va = pgno a then p else frame (mem t) pgdir va)" for va
    using ent user_entry_frame(1) [OF pal(1)] by (simp add: frame_def)
  have up: "upage (mem u) pgdir va \<longleftrightarrow> pgno va = pgno a \<or> upage (mem t) pgdir va" for va
    using ent user_entry_frame(2) [OF pal(1)] k by (auto simp: upage_def)
  have "frames_in (mem u) pgdir lo (Suc k) = insert p (frames_in (mem t) pgdir lo k)"
  proof (intro set_eqI iffI)
    fix x assume "x \<in> frames_in (mem u) pgdir lo (Suc k)"
    then show "x \<in> insert p (frames_in (mem t) pgdir lo k)"
      using k(3) by (auto simp: frames_in_def up fr less_Suc_eq)
  next
    fix x assume "x \<in> insert p (frames_in (mem t) pgdir lo k)"
    then consider "x = p" | va where "upage (mem t) pgdir va" "lo \<le> pgno va" "pgno va < k" "x = frame (mem t) pgdir va"
      unfolding frames_in_def by blast
    then show "x \<in> frames_in (mem u) pgdir lo (Suc k)"
    proof cases
      case 1
      then show ?thesis using k fr [of a] up [of a] unfolding frames_in_def by (auto intro!: exI [of _ a])
    next
      case (2 va)
      then show ?thesis using k fr [of va] up [of va] unfolding frames_in_def by (auto intro!: exI [of _ va])
    qed
  qed
  then have reg: "region (mem s) pgdir fl = region (mem u) pgdir fl' \<union> frames_in (mem u) pgdir lo (Suc k)"
    using t u(3) pal(2) by auto
  have out: "unchanged_outside (region (mem s) pgdir fl) (mem s) (mem u)"
  proof (rule unchanged_outside_trans)
    show "unchanged_outside (region (mem s) pgdir fl) (mem s) (mem t)" using t by blast
    show "unchanged_outside (region (mem s) pgdir fl) (mem t) (mem u)"
      using u(4) by (rule unchanged_outside_mono) (use t in auto)
  qed
  have zero: "zero_page (mem u) (frame (mem t) pgdir va)" if "lo \<le> pgno va" "pgno va < k" for va
  proof -
    have "upage (mem t) pgdir va" using grown_upage [OF g _ that] k(2) by simp
    moreover have "zero_page (mem t) (frame (mem t) pgdir va)" using t that by auto
    ultimately show ?thesis using frame_contents [OF inv _ u(4)] by (simp add: zero_page_def)
  qed
  have "if lo \<le> pgno va \<and> pgno va < Suc k
      then entry (mem u) pgdir va = user_entry (frame (mem u) pgdir va) \<and> zero_page (mem u) (frame (mem u) pgdir va)
      else entry (mem u) pgdir va = entry (mem s) pgdir va" for va
  proof (cases "pgno va = pgno a")
    case True
    then show ?thesis using ent k u(5) by (simp add: fr)
  next
    case False
    moreover have "if lo \<le> pgno va \<and> pgno va < k
      then entry (mem t) pgdir va = user_entry (frame (mem t) pgdir va) \<and> zero_page (mem t) (frame (mem t) pgdir va)
      else entry (mem t) pgdir va = entry (mem s) pgdir va" using t by blast
    ultimately show ?thesis using ent k(3) zero by (auto simp: fr less_Suc_eq split: if_splits)
  qed
  moreover have "length fl \<le> length fl' + 2 * (Suc k - lo)" using t u(6) k by auto
  ultimately show ?thesis
    using t u reg out unfolding grown_def by (auto intro: kframe_trans)
qed

definition undone :: "'a kst_scheme \<Rightarrow> uint list \<Rightarrow> uint set \<Rightarrow> uint \<Rightarrow> nat \<Rightarrow> nat \<Rightarrow> 'a kst_scheme \<Rightarrow> uint list \<Rightarrow> bool" where
  "undone s fl X pgdir lo hi u fl' \<longleftrightarrow> uvm_inv u fl' pgdir \<and> kframe s u
     \<and> region (mem s) pgdir fl = region (mem u) pgdir fl' \<union> X
     \<and> unchanged_outside (region (mem s) pgdir fl) (mem s) (mem u)
     \<and> length fl < 2 * (hi - lo)
     \<and> (\<forall>va. if lo \<le> pgno va \<and> pgno va < hi then \<not> present (entry (mem u) pgdir va)
          else entry (mem u) pgdir va = entry (mem s) pgdir va)"

lemma undo:
  assumes g: "grown s fl X pgdir lo k t ft" and k: "k \<le> hi" and len: "length fl < 2 * (hi - lo)"
    and np: "\<forall>va. lo \<le> pgno va \<and> pgno va < hi \<longrightarrow> \<not> present (entry (mem s) pgdir va)"
    and f: "freed_range t ft pgdir lo hi u fl'"
  shows "undone s fl X pgdir lo hi u fl'"
proof -
  note t = g [unfolded grown_def] and u = f [unfolded freed_range_def]
  have te: "if lo \<le> pgno va \<and> pgno va < k
      then entry (mem t) pgdir va = user_entry (frame (mem t) pgdir va) \<and> zero_page (mem t) (frame (mem t) pgdir va)
      else entry (mem t) pgdir va = entry (mem s) pgdir va" for va using t by blast
  have "frames_in (mem t) pgdir lo hi = frames_in (mem t) pgdir lo k"
  proof -
    have "pgno va < k" if "upage (mem t) pgdir va" "lo \<le> pgno va" "pgno va < hi" for va
      using te [of va] np that by (auto simp: upage_def split: if_splits)
    then show ?thesis using k unfolding frames_in_def by (intro Collect_cong iff_exI) (meson less_le_trans)
  qed
  then have reg: "region (mem s) pgdir fl = region (mem u) pgdir fl' \<union> X"
    using t u by (auto simp: region_def)
  have "unchanged_outside (region (mem s) pgdir fl) (mem t) (mem u)"
    using u \<open>frames_in (mem t) pgdir lo hi = _\<close> t by (auto elim!: unchanged_outside_mono)
  then have out: "unchanged_outside (region (mem s) pgdir fl) (mem s) (mem u)"
    using t by (blast intro: unchanged_outside_trans)
  have "if lo \<le> pgno va \<and> pgno va < hi then \<not> present (entry (mem u) pgdir va)
      else entry (mem u) pgdir va = entry (mem s) pgdir va" for va
  proof -
    have "entry (mem u) pgdir va = cleared (entry (mem t) pgdir) lo hi va" using u by simp
    then show ?thesis using te [of va] k by (auto simp: cleared_def split: if_splits)
  qed
  then show ?thesis
    using t u reg out len unfolding undone_def by (blast intro: kframe_trans)
qed

lemma kfree_uvm:
  assumes inv: "uvm_inv w fl pgdir" and p: "page_ok w p" "p \<notin> region (mem w) pgdir fl" "p \<notin> frames (mem w) pgdir"
  obtains t where "kfree p w = Ret t" and "uvm_inv t (p # fl) pgdir" and "kframe w t" and "entry (mem t) pgdir = entry (mem w) pgdir"
    and "region (mem t) pgdir (p # fl) = insert p (region (mem w) pgdir fl)" and "same_outside p (mem w) (mem t)"
proof -
  note pt = uvm_inv_pt [OF inv]
  obtain t where t: "kfree p w = Ret t" "pt_inv t (p # fl) pgdir" "kframe w t"
    "agree_on (region (mem w) pgdir fl) (mem w) (mem t)" "same_outside p (mem w) (mem t)"
    using kfree_outside [OF pt p(1,2)] .
  note e = agree_region_entry [OF pt t(4)]
  have r: "region (mem t) pgdir (p # fl) = insert p (region (mem w) pgdir fl)" by (auto simp: region_def e)
  have uf: "upage (mem t) pgdir = upage (mem w) pgdir" "frame (mem t) pgdir = frame (mem w) pgdir"
    by (auto simp: upage_def frame_def e fun_eq_iff)
  have "uvm_inv t (p # fl) pgdir"
    unfolding uvm_inv_def uf r
  proof (intro conjI allI impI)
    show "pt_inv t (p # fl) pgdir" by fact
    show "KERNBASE < kend t" using inv t(3) by (simp add: uvm_inv_def kframe_def)
  next
    fix va assume va: "upage (mem w) pgdir va"
    show "page_ok t (frame (mem w) pgdir va)" using uvm_frameD(1) [OF inv va] page_ok_kframe [OF t(3)] by simp
    show "frame (mem w) pgdir va \<notin> insert p (region (mem w) pgdir fl)"
      using uvm_frameD(2) [OF inv va] p(3) va by (auto simp: frames_def)
  next
    fix va va'
    assume "upage (mem w) pgdir va \<and> upage (mem w) pgdir va' \<and> frame (mem w) pgdir va = frame (mem w) pgdir va'"
    then show "pgno va = pgno va'" by (auto intro: uvm_inj [OF inv])
  qed
  with t r e show thesis by (intro that [of t]) simp_all
qed

lemma undone_free:
  assumes w: "undone s fl {p} pgdir lo hi w fl'" and p: "page_ok w p" "p \<notin> region (mem w) pgdir fl'" "p \<notin> frames (mem w) pgdir"
  shows "runs (kfree p w) (\<lambda>t. undone s fl {} pgdir lo hi t (p # fl'))"
proof -
  note w' = w [unfolded undone_def]
  obtain t where t: "kfree p w = Ret t" "uvm_inv t (p # fl') pgdir" "kframe w t" "entry (mem t) pgdir = entry (mem w) pgdir"
    "region (mem t) pgdir (p # fl') = insert p (region (mem w) pgdir fl')" "same_outside p (mem w) (mem t)"
    using kfree_uvm [OF _ p] w' by blast
  have "unchanged_outside (region (mem s) pgdir fl) (mem w) (mem t)"
    using t(6) w' by (intro unchanged_outside_same [of p]) auto
  then show ?thesis
    using w' t unfolding undone_def by (auto intro: kframe_trans unchanged_outside_trans)
qed

definition alloc_post :: "'a kst_scheme \<Rightarrow> uint list \<Rightarrow> uint \<Rightarrow> uint \<Rightarrow> uint \<Rightarrow> uint \<times> 'a kst_scheme \<Rightarrow> bool" where
  "alloc_post s fl pgdir oldsz newsz res \<longleftrightarrow> (case res of (r, t) \<Rightarrow>
     r = newsz \<and> (\<exists>fl'. grown s fl {} pgdir (page_end oldsz) (page_end newsz) t fl') \<or>
     r = 0 \<and> (\<exists>fl'. undone s fl {} pgdir (page_end oldsz) (page_end newsz) t fl'))"

lemma page_end_less: "page_end a < page_end b \<Longrightarrow> a < b"
proof (rule ccontr)
  assume l: "page_end a < page_end b" and "\<not> a < b"
  then have "unat b \<le> unat a" by (simp add: word_less_nat_alt)
  then have "page_end b \<le> page_end a" unfolding page_end_def by (intro div_le_mono) simp
  with l show False by simp
qed

lemma undone_after_dealloc:
  assumes g: "grown s fl X pgdir (page_end oldsz) k t ft" and k: "k \<le> page_end newsz" "page_end oldsz < page_end newsz"
    and n: "unat newsz \<le> 0x80000000" and len: "length fl < 2 * (page_end newsz - page_end oldsz)"
    and np: "\<forall>va. page_end oldsz \<le> pgno va \<and> pgno va < page_end newsz \<longrightarrow> \<not> present (entry (mem s) pgdir va)"
  shows "runs (deallocuvm pgdir newsz oldsz t) (\<lambda>(_, u). \<exists>fl'. undone s fl X pgdir (page_end oldsz) (page_end newsz) u fl'
    \<and> freed_range t ft pgdir (page_end oldsz) (page_end newsz) u fl')"
proof -
  have "uvm_inv t ft pgdir" using g by (simp add: grown_def)
  from deallocuvm_spec [OF this n page_end_less [OF k(2)]] show ?thesis
    by (elim runs_mono) (auto intro: undo [OF g k(1) len np])
qed

lemma fresh_after_dealloc:
  assumes "uvm_inv u ft pgdir" and f: "freed_range u ft pgdir lo hi w fl'" and p: "page_ok u p" "p \<notin> region (mem u) pgdir ft" "p \<notin> frames (mem u) pgdir"
  shows "page_ok w p" "p \<notin> region (mem w) pgdir fl'" "p \<notin> frames (mem w) pgdir"
proof -
  note w = f [unfolded freed_range_def]
  show "page_ok w p" using p(1) w page_ok_kframe by metis
  have "frames_in (mem u) pgdir lo hi \<subseteq> frames (mem u) pgdir" by (auto simp: frames_in_def frames_def)
  then show "p \<notin> region (mem w) pgdir fl'" using w p(2,3) by (auto simp: region_def)
  show "p \<notin> frames (mem w) pgdir"
    using w p(3) by (auto simp: frames_def upage_def frame_def cleared_def split: if_splits)
qed

lemma grown_keep:
  assumes g: "grown s fl {} pgdir lo k t (p # ft)" and k: "k \<le> 0x80000"
    and u: "uvm_inv u fl' pgdir" "kframe t u" "region (mem u) pgdir fl' = region (mem t) pgdir (p # ft) - {p}"
      "unchanged_outside (region (mem t) pgdir (p # ft)) (mem t) (mem u)" "entry (mem u) pgdir = entry (mem t) pgdir"
      "length ft = length fl'"
  shows "grown s fl {p} pgdir lo k u fl'"
proof -
  note t = g [unfolded grown_def]
  have inv: "uvm_inv t (p # ft) pgdir" using t by simp
  have uf: "upage (mem u) pgdir = upage (mem t) pgdir" "frame (mem u) pgdir = frame (mem t) pgdir"
    by (auto simp: upage_def frame_def u(5) fun_eq_iff)
  have "frames_in (mem u) pgdir lo k = frames_in (mem t) pgdir lo k" by (simp add: frames_in_def uf)
  moreover have "p \<in> region (mem t) pgdir (p # ft)" by (simp add: region_def)
  ultimately have reg: "region (mem s) pgdir fl = region (mem u) pgdir fl' \<union> frames_in (mem u) pgdir lo k \<union> {p}"
    using t u(3) by auto
  have "unchanged_outside (region (mem s) pgdir fl) (mem t) (mem u)"
    using u(4) by (rule unchanged_outside_mono) (use t in auto)
  then have out: "unchanged_outside (region (mem s) pgdir fl) (mem s) (mem u)"
    using t by (blast intro: unchanged_outside_trans)
  have "zero_page (mem u) (frame (mem t) pgdir va)" if "lo \<le> pgno va" "pgno va < k" for va
  proof -
    have "upage (mem t) pgdir va" using grown_upage [OF g k that] .
    moreover have "zero_page (mem t) (frame (mem t) pgdir va)" using t that by auto
    ultimately show ?thesis using frame_contents [OF inv _ u(4)] by (simp add: zero_page_def)
  qed
  then have "if lo \<le> pgno va \<and> pgno va < k
      then entry (mem u) pgdir va = user_entry (frame (mem u) pgdir va) \<and> zero_page (mem u) (frame (mem u) pgdir va)
      else entry (mem u) pgdir va = entry (mem s) pgdir va" for va
    using t unfolding u(5) uf by presburger
  moreover have "kframe s u" using t u(2) by (blast intro: kframe_trans)
  moreover have "length fl \<le> length fl' + 2 * (k - lo) + card {p}" using t u(6) by auto
  ultimately show ?thesis
    using u(1) reg out unfolding grown_def by blast
qed

lemma alloc_rollback:
  assumes g: "grown s fl {} pgdir (page_end oldsz) k t [p]" and k: "page_end oldsz \<le> k" "k < page_end newsz"
    and n: "unat newsz \<le> 0x80000000"
    and np: "\<forall>va. page_end oldsz \<le> pgno va \<and> pgno va < page_end newsz \<longrightarrow> \<not> present (entry (mem s) pgdir va)"
    and u: "uvm_inv u [] pgdir" "kframe t u" "region (mem u) pgdir [] = region (mem t) pgdir [p] - {p}"
      "unchanged_outside (region (mem t) pgdir [p]) (mem t) (mem u)" "entry (mem u) pgdir = entry (mem t) pgdir"
  shows "runs (deallocuvm pgdir newsz oldsz u) (\<lambda>(_, w). runs (kfree p w)
    (\<lambda>w. \<exists>fl'. undone s fl {} pgdir (page_end oldsz) (page_end newsz) w fl'))"
proof -
  have inv: "uvm_inv t [p] pgdir" using g by (simp add: grown_def)
  have k': "k \<le> 0x80000" "k \<le> page_end newsz" "page_end oldsz < page_end newsz" using k page_end_user [OF n] by simp_all
  have p: "page_ok t p" "p \<in> region (mem t) pgdir [p]"
    using uvm_inv_pt [OF inv] by (auto simp: pt_inv_def kmem_inv_def region_def)
  have uf: "upage (mem u) pgdir = upage (mem t) pgdir" "frame (mem u) pgdir = frame (mem t) pgdir"
    by (auto simp: upage_def frame_def u(5) fun_eq_iff)
  have fresh: "page_ok u p" "p \<notin> region (mem u) pgdir []" "p \<notin> frames (mem u) pgdir"
    using p uvm_frameD(2) [OF inv] page_ok_kframe [OF u(2)] u(3) by (auto simp: frames_def uf)
  have len: "length fl < 2 * (page_end newsz - page_end oldsz)" using g k by (auto simp: grown_def)
  have "grown s fl {p} pgdir (page_end oldsz) k u []" using u by (intro grown_keep [OF g k'(1)]) simp_all
  from undone_after_dealloc [OF this k'(2,3) n len np] show ?thesis
    by (elim runs_mono) (auto elim!: runs_mono [OF undone_free] dest: fresh_after_dealloc [OF u(1) _ fresh])
qed

lemma allocuvm_loop_spec:
  assumes "grown s fl {} pgdir (page_end oldsz) (pgno a) t ft" and "aligned 4096 a"
    and "page_end oldsz \<le> pgno a" and "pgno a \<le> page_end newsz" and n: "unat newsz \<le> 0x80000000"
    and np: "\<forall>va. page_end oldsz \<le> pgno va \<and> pgno va < page_end newsz \<longrightarrow> \<not> present (entry (mem s) pgdir va)"
    and "page_end newsz - pgno a < fuel"
  shows "runs (allocuvm_loop fuel pgdir a oldsz newsz t) (alloc_post s fl pgdir oldsz newsz)"
  using assms(1-4,7)
proof (induction fuel arbitrary: a t ft)
  case 0
  then show ?case by simp
next
  case (Suc f)
  note g = Suc.prems(1) and al = Suc.prems(2) and lo = Suc.prems(3) and hi = Suc.prems(4)
  have inv: "uvm_inv t ft pgdir" using g by (simp add: grown_def)
  then have k: "kmem_inv t ft" by (simp add: uvm_inv_def pt_inv_def)
  show ?case
  proof (cases "a < newsz")
    case False
    then have "pgno a = page_end newsz" using hi by (simp add: less_page_end [OF al])
    with False g show ?thesis by (auto simp: alloc_post_def)
  next
    case True
    then have lt: "pgno a < page_end newsz" by (simp add: less_page_end [OF al])
    with page_end_user [OF n] have user: "pgno a < 0x80000" by simp
    have ol: "page_end oldsz < page_end newsz" using lo lt by simp
    show ?thesis
    proof (cases ft)
      case Nil
      let ?t = "ksettle t"
      have "grown s fl {} pgdir (page_end oldsz) (pgno a) ?t []"
        using g Nil unfolding grown_def uvm_inv_def pt_inv_def by (auto intro: kframe_trans)
      moreover have "length fl < 2 * (page_end newsz - page_end oldsz)" using g Nil lo lt by (auto simp: grown_def)
      ultimately have "runs (deallocuvm pgdir newsz oldsz ?t) (\<lambda>(_, u). \<exists>fl'. undone s fl {} pgdir (page_end oldsz) (page_end newsz) u fl'
          \<and> freed_range ?t [] pgdir (page_end oldsz) (page_end newsz) u fl')"
        using hi ol n np by (intro undone_after_dealloc)
      then show ?thesis
        using True Nil k by (auto simp: kalloc_Nil alloc_post_def elim!: runs_mono)
    next
      case (Cons p ps)
      let ?m = "memset (mem t) p 0 4096" and ?t = "(ksettle t)\<lparr>freelist := ld32 (mem t) p\<rparr>"
      have inv: "uvm_inv t (p # ps) pgdir" using inv Cons by simp
      have p: "aligned 4096 p" "p \<noteq> 0" "page_ok t p" "p \<in> region (mem t) pgdir (p # ps)"
        using k Cons page_ok_nonzero [of t p] by (auto simp: kmem_inv_def page_ok_def region_def)
      have na: "\<not> present (entry (mem t) pgdir a)"
        using g np lo lt unfolding grown_def by (metis less_irrefl)
      have step: "allocuvm_loop (Suc f) pgdir a oldsz newsz t =
          andthen (mappages pgdir a PGSIZE (V2P p) (PTE_W OR PTE_U) (?t\<lparr>mem := ?m\<rparr>)) (\<lambda>(r, s).
            if r < 0 then andthen (deallocuvm pgdir newsz oldsz s) (\<lambda>(_, s). andthen (kfree p s) (\<lambda>s. Ret (0, s)))
            else allocuvm_loop f pgdir (a + PGSIZE) oldsz newsz s)"
        using True kalloc_Cons(1) [of t p ps] k Cons p(2) by (simp add: Let_def PGSIZE_def)
      have nx: "pgno (a + PGSIZE) = Suc (pgno a)" "aligned 4096 (a + PGSIZE)" using pgno_next [OF al] user by simp_all
      obtain r u fl' where call: "mappages pgdir a PGSIZE (V2P p) (PTE_W OR PTE_U) (?t\<lparr>mem := ?m\<rparr>) = Ret (r, u)"
        and u: "uvm_inv u fl' pgdir" "kframe t u" "region (mem u) pgdir fl' = region (mem t) pgdir (p # ps) - {p}"
          "unchanged_outside (region (mem t) pgdir (p # ps)) (mem t) (mem u)" "\<forall>x. pgno x = pgno p \<longrightarrow> mem u x = ?m x"
        and r: "r = 0 \<and> length ps \<le> Suc (length fl')
           \<and> (\<forall>va. entry (mem u) pgdir va = (if pgno va = pgno a then V2P p OR (PTE_W OR PTE_U) OR PTE_P else entry (mem t) pgdir va))
         \<or> r = -1 \<and> ps = [] \<and> fl' = [] \<and> entry (mem u) pgdir = entry (mem t) pgdir"
        using map_frame [OF inv al user na same_outside_memset [OF p(1), of "mem t" 0] PTE_WU] by (elim runsE) blast
      have z: "zero_page (mem u) p" using u(5) memset_inside [OF p(1)] by (simp add: zero_page_def)
      show ?thesis
      proof (cases "r = 0")
        case rz: True
        with r have "grown s fl {} pgdir (page_end oldsz) (pgno (a + PGSIZE)) u fl'"
          unfolding nx(1) using g Cons lo user u z by (intro grown_more) (auto simp: user_entry_def)
        from Suc.IH [OF this nx(2)] show ?thesis
          unfolding step call using rz lo lt Suc.prems(5) by (simp add: nx(1))
      next
        case False
        with r have rf: "r = -1" "ps = []" "fl' = []" "entry (mem u) pgdir = entry (mem t) pgdir" by auto
        have "runs (deallocuvm pgdir newsz oldsz u) (\<lambda>(_, w). runs (kfree p w)
            (\<lambda>w. \<exists>fl'. undone s fl {} pgdir (page_end oldsz) (page_end newsz) w fl'))"
          using g Cons lo lt n np u rf by (intro alloc_rollback) simp_all
        then show ?thesis
          unfolding step call using rf(1) by (auto simp: alloc_post_def elim!: runs_mono)
      qed
    qed
  qed
qed

lemma unat_less_KERNBASE: "sz < KERNBASE \<Longrightarrow> unat sz \<le> 0x80000000"
  by (simp add: word_less_nat_alt KERNBASE_def)

lemma allocuvm_spec:
  assumes s: "uvm_inv s fl pgdir" and sz: "oldsz \<le> newsz" "newsz < KERNBASE"
    and np: "\<forall>va. page_end oldsz \<le> pgno va \<and> pgno va < page_end newsz \<longrightarrow> \<not> present (entry (mem s) pgdir va)"
  shows "runs (allocuvm pgdir oldsz newsz s) (alloc_post s fl pgdir oldsz newsz)"
proof -
  have n: "unat newsz \<le> 0x80000000" using sz(2) by (rule unat_less_KERNBASE)
  moreover have "unat oldsz \<le> unat newsz" using sz(1) by (simp add: word_le_nat_alt)
  ultimately have a: "pgno (PGROUNDUP oldsz) = page_end oldsz" "page_end oldsz \<le> page_end newsz"
    by (simp_all add: pgno_PGROUNDUP page_end_def div_le_mono)
  have "runs (allocuvm_loop (2 ^ 20) pgdir (PGROUNDUP oldsz) oldsz newsz s) (alloc_post s fl pgdir oldsz newsz)"
    using grown_start [OF s] a n np page_end_user [OF n] by (intro allocuvm_loop_spec) simp_all
  moreover have "\<not> KERNBASE \<le> newsz" "\<not> newsz < oldsz" using sz by auto
  ultimately show ?thesis by (simp add: allocuvm_def)
qed

section \<open>A concrete address space\<close>

text \<open>An empty page directory at 0x80400000 with four free pages, and the space after growing it by a page.\<close>

definition ex_dir :: kst where
  "ex_dir = boot_kst\<lparr>mem := st32 (st32 (st32 (\<lambda>_. 0) 0x80401000 0x80402000) 0x80402000 0x80403000) 0x80403000 0x80404000,
     freelist := 0x80401000\<rparr>"

definition ex_free :: "uint list" where
  "ex_free = [0x80401000, 0x80402000, 0x80403000, 0x80404000]"

definition ex_space :: kst where
  "ex_space = (case allocuvm 0x80400000 0 4096 ex_dir of Ret (_, t) \<Rightarrow> t | _ \<Rightarrow> ex_dir)"

lemma ex_dir_kmem: "kmem_inv ex_dir ex_free"
proof -
  have "hw_ok ex_dir" using hw_ok_boot by (simp add: ex_dir_def)
  then show ?thesis
    by (simp add: kmem_inv_def ex_dir_def ex_free_def boot_kst_def lock_free_def initlock_def page_ok_def aligned_def
        V2P_def KERNBASE_def PHYSTOP_def ld32_st32_other)
qed

lemma ex_dir_page: "pgno x = pgno 0x80400000 \<Longrightarrow> mem ex_dir x = 0"
proof -
  assume x: "pgno x = pgno 0x80400000"
  have "same_outside p m (st32 m p v)" if "aligned 4096 p" for p m v
    using that by (intro same_outside_st32 aligned_page_4) simp_all
  then have "st32 m p v x = m x" if "aligned 4096 p" "pgno x \<noteq> pgno p" for p m v
    using that same_outsideD by blast
  then show ?thesis using x by (simp add: ex_dir_def aligned_def pgno_def)
qed

lemma ex_dir_pde: "unat i < 1024 \<Longrightarrow> pde_at (mem ex_dir) 0x80400000 i = 0"
proof -
  assume i: "unat i < 1024"
  have "ld32 (mem ex_dir) (0x80400000 + 4 * i) = ld32 (\<lambda>_. 0) (0x80400000 + 4 * i)"
    using i ex_dir_page by (intro ld32_page_slot) (simp_all add: aligned_def)
  then show ?thesis by (simp add: pde_at_def)
qed

lemma ex_dir_entry: "entry (mem ex_dir) 0x80400000 va = 0"
  using ex_dir_pde [OF PDX_less] by (simp add: entry_def mapped_table_def)

lemma ex_dir_tables: "tables (mem ex_dir) 0x80400000 = {}"
  using ex_dir_pde by (auto simp: tables_def)

lemma ex_dir_inv: "uvm_inv ex_dir ex_free 0x80400000"
proof -
  have "page_ok ex_dir 0x80400000"
    by (simp add: page_ok_def ex_dir_def boot_kst_def aligned_def V2P_def KERNBASE_def PHYSTOP_def)
  moreover have "tables_ok (mem ex_dir) 0x80400000" using ex_dir_pde by (auto simp: tables_ok_def ex_dir_tables)
  moreover have "KERNBASE < kend ex_dir" by (simp add: ex_dir_def boot_kst_def KERNBASE_def)
  moreover have "(0x80400000::uint) \<notin> set ex_free" by (simp add: ex_free_def)
  ultimately show ?thesis
    using ex_dir_kmem by (simp add: uvm_inv_def pt_inv_def ex_dir_tables upage_def ex_dir_entry)
qed

lemma ex_space_grown:
  obtains fl where "grown ex_dir ex_free {} 0x80400000 0 1 ex_space fl"
proof -
  have pe: "page_end 0 = 0" "page_end 4096 = 1" by (simp_all add: page_end_def)
  have "runs (allocuvm 0x80400000 0 4096 ex_dir) (alloc_post ex_dir ex_free 0x80400000 0 4096)"
    by (rule allocuvm_spec [OF ex_dir_inv]) (simp_all add: KERNBASE_def ex_dir_entry)
  then obtain t fl where "allocuvm 0x80400000 0 4096 ex_dir = Ret (4096, t)" "grown ex_dir ex_free {} 0x80400000 0 1 t fl"
    by (auto simp: runs_iff alloc_post_def undone_def pe ex_free_def)
  then show thesis using that by (auto simp: ex_space_def)
qed

section \<open>Properties\<close>

text \<open>
  C2: growing a process.  With \<open>oldsz \<le> newsz\<close> below the kernel and the new pages not yet mapped,
  \<open>allocuvm\<close> returns; either it returns \<open>newsz\<close> and every new page has a zero-filled frame of its own that
  the user may write, everything else being as before, or it returns 0 and every page it had
  taken is back, free or in the page table.  It cannot fail when there are two free pages for each
  new one.  At or above the kernel it returns 0, and for a smaller size the old size, changing nothing.
\<close>

theorem allocuvm_correct:
  assumes "uvm_inv s fl pgdir"
    and "\<forall>va. page_end oldsz \<le> pgno va \<and> pgno va < page_end newsz \<longrightarrow> \<not> present (entry (mem s) pgdir va)"
  shows "if KERNBASE \<le> newsz then allocuvm pgdir oldsz newsz s = Ret (0, s)
    else if newsz < oldsz then allocuvm pgdir oldsz newsz s = Ret (oldsz, s)
    else runs (allocuvm pgdir oldsz newsz s) (\<lambda>(r, t).
      (r = newsz \<and> (\<exists>fl'. grown s fl {} pgdir (page_end oldsz) (page_end newsz) t fl') \<or>
       r = 0 \<and> (\<exists>fl'. undone s fl {} pgdir (page_end oldsz) (page_end newsz) t fl'))
      \<and> (2 * (page_end newsz - page_end oldsz) \<le> length fl \<longrightarrow> r = newsz))"
proof -
  have "runs (allocuvm pgdir oldsz newsz s) (\<lambda>(r, t).
      (r = newsz \<and> (\<exists>fl'. grown s fl {} pgdir (page_end oldsz) (page_end newsz) t fl') \<or>
       r = 0 \<and> (\<exists>fl'. undone s fl {} pgdir (page_end oldsz) (page_end newsz) t fl'))
      \<and> (2 * (page_end newsz - page_end oldsz) \<le> length fl \<longrightarrow> r = newsz))"
    if "oldsz \<le> newsz" "newsz < KERNBASE"
    using allocuvm_spec [OF assms(1) that assms(2)]
    by (elim runs_mono) (auto simp: alloc_post_def undone_def)
  then show ?thesis by (auto simp: allocuvm_def not_le not_less)
qed

theorem allocuvm_correct_witness:
  "uvm_inv ex_dir ex_free 0x80400000 \<and> allocuvm 0x80400000 0 0x80000000 ex_dir = Ret (0, ex_dir) \<and>
   (\<exists>t fl'. allocuvm 0x80400000 0 4096 ex_dir = Ret (4096, t) \<and> grown ex_dir ex_free {} 0x80400000 0 1 t fl')"
proof -
  have np: "\<forall>va. page_end 0 \<le> pgno va \<and> pgno va < page_end n \<longrightarrow> \<not> present (entry (mem ex_dir) 0x80400000 va)" for n
    by (simp add: ex_dir_entry)
  have pe: "page_end 0 = 0" "page_end 4096 = 1" by (simp_all add: page_end_def)
  have "allocuvm 0x80400000 0 0x80000000 ex_dir = Ret (0, ex_dir)"
    using allocuvm_correct [OF ex_dir_inv np [of "0x80000000"]] by (simp add: KERNBASE_def)
  moreover have "runs (allocuvm 0x80400000 0 4096 ex_dir) (\<lambda>(r, t). r = 4096 \<and> (\<exists>fl'. grown ex_dir ex_free {} 0x80400000 0 1 t fl'))"
    using allocuvm_correct [OF ex_dir_inv np [of 4096]] by (simp add: KERNBASE_def pe ex_free_def) (auto elim!: runs_mono)
  ultimately show ?thesis using ex_dir_inv by (auto simp: runs_iff)
qed

text \<open>
  C4: shrinking a process.  Below the kernel, \<open>deallocuvm\<close> returns the new size; exactly the pages from
  the new size up to the old one are unmapped and their frames, and no other pages, become free;
  the page tables stay, the other mappings are untouched, and memory changes in the freed frames,
  the free pages and the page table only.  When the new size is not smaller nothing happens.
\<close>

theorem deallocuvm_correct:
  assumes "uvm_inv s fl pgdir" and "oldsz \<le> KERNBASE"
  shows "if oldsz \<le> newsz then deallocuvm pgdir oldsz newsz s = Ret (oldsz, s)
    else runs (deallocuvm pgdir oldsz newsz s) (\<lambda>(r, t). r = newsz \<and> (\<exists>fl'. uvm_inv t fl' pgdir
      \<and> set fl' = set fl \<union> frames_in (mem s) pgdir (page_end newsz) (page_end oldsz)
      \<and> (\<forall>va. upage (mem t) pgdir va \<longleftrightarrow> upage (mem s) pgdir va \<and> \<not> (page_end newsz \<le> pgno va \<and> pgno va < page_end oldsz))
      \<and> (\<forall>va. upage (mem t) pgdir va \<longrightarrow> entry (mem t) pgdir va = entry (mem s) pgdir va)
      \<and> tables (mem t) pgdir = tables (mem s) pgdir
      \<and> unchanged_outside (region (mem s) pgdir fl \<union> frames_in (mem s) pgdir (page_end newsz) (page_end oldsz)) (mem s) (mem t)))"
proof -
  have n: "unat oldsz \<le> 0x80000000" using assms(2) by (simp add: word_le_nat_alt KERNBASE_def)
  show ?thesis
  proof (cases "oldsz \<le> newsz")
    case True
    then show ?thesis by (simp add: deallocuvm_def)
  next
    case False
    then have "newsz < oldsz" by simp
    from deallocuvm_spec [OF assms(1) n this] show ?thesis
      unfolding if_not_P [OF False]
    proof (rule runs_mono, clarify)
      fix t fl' assume f: "freed_range s fl pgdir (page_end newsz) (page_end oldsz) t fl'"
      note u = freed_upage [OF f]
      from f u show "newsz = newsz \<and> (\<exists>fl'. uvm_inv t fl' pgdir
        \<and> set fl' = set fl \<union> frames_in (mem s) pgdir (page_end newsz) (page_end oldsz)
        \<and> (\<forall>va. upage (mem t) pgdir va \<longleftrightarrow> upage (mem s) pgdir va \<and> \<not> (page_end newsz \<le> pgno va \<and> pgno va < page_end oldsz))
        \<and> (\<forall>va. upage (mem t) pgdir va \<longrightarrow> entry (mem t) pgdir va = entry (mem s) pgdir va)
        \<and> tables (mem t) pgdir = tables (mem s) pgdir
        \<and> unchanged_outside (region (mem s) pgdir fl \<union> frames_in (mem s) pgdir (page_end newsz) (page_end oldsz)) (mem s) (mem t))"
        unfolding freed_range_def by blast
    qed
  qed
qed

theorem deallocuvm_correct_witness:
  "upage (mem ex_space) 0x80400000 0 \<and> (\<exists>t. deallocuvm 0x80400000 4096 0 ex_space = Ret (0, t) \<and> \<not> upage (mem t) 0x80400000 0)"
proof -
  obtain fl where g: "grown ex_dir ex_free {} 0x80400000 0 1 ex_space fl" by (rule ex_space_grown)
  then have inv: "uvm_inv ex_space fl 0x80400000" by (simp add: grown_def)
  have "(4096::uint) \<le> KERNBASE" by (simp add: KERNBASE_def)
  from deallocuvm_correct [OF inv this, of 0]
  have "\<exists>t. deallocuvm 0x80400000 4096 0 ex_space = Ret (0, t) \<and> \<not> upage (mem t) 0x80400000 0"
    by (auto simp: runs_iff page_end_def pgno_def)
  moreover have "upage (mem ex_space) 0x80400000 0" by (rule grown_upage [OF g]) (simp_all add: pgno_def)
  ultimately show ?thesis by blast
qed

end
