(* ===== verification/Copyout.thy ===== *)
theory Copyout
  imports Uvm
begin

text \<open>
  Copying into user memory: \<open>uva2ka\<close>, \<open>copyout\<close> and \<open>clearpteu\<close>.  \<open>uaddr\<close> is the kernel address of a user
  byte; \<open>copyout\<close> writes the bytes of a user range page by page through it.
\<close>

section \<open>User addresses in kernel memory\<close>

definition uaddr :: "memory \<Rightarrow> uint \<Rightarrow> uint \<Rightarrow> uint" where
  "uaddr m pgdir va = frame m pgdir va + (va - PGROUNDDOWN va)"

definition uaccess :: "memory \<Rightarrow> uint \<Rightarrow> uint \<Rightarrow> bool" where
  "uaccess m pgdir va \<longleftrightarrow> upage m pgdir va \<and> entry m pgdir va AND PTE_U \<noteq> 0"

lemma uva2ka_eq:
  assumes "pt_inv s fl pgdir"
  shows "uva2ka pgdir va s =
    (if \<not> mapped_table (mem s) pgdir va then Undef ''null pte''
     else if present (entry (mem s) pgdir va) \<and> entry (mem s) pgdir va AND PTE_U \<noteq> 0 then Ret (frame (mem s) pgdir va, s)
     else Ret (0, s))"
  using slot_nonzero [OF assms, of va]
  by (auto simp: uva2ka_def walk_noalloc entry_def frame_def table_of_def present_def)

lemma PGROUNDDOWN_le: "PGROUNDDOWN va \<le> va"
  by (simp add: word_le_nat_alt unat_PGROUNDDOWN)

lemma unat_page_part: "unat (va - PGROUNDDOWN va) = unat va mod 4096"
  using PGROUNDDOWN_le [of va] by (simp add: unat_sub_uint unat_PGROUNDDOWN minus_div_mult_eq_mod)

lemma page_part_less: "unat (va - PGROUNDDOWN va) < 4096"
  by (simp add: unat_page_part)

lemma unat_page_plus:
  assumes "aligned 4096 p" and "unat k < 4096"
  shows "unat (p + k) = unat p + unat k" "pgno (p + k) = pgno p"
  using unat_page_offset [OF assms(1), of "unat k"] pgno_offset [OF assms(1), of "unat k"] assms(2) by simp_all

lemma uaddr_page: "pgno (uaddr m pgdir va) = pgno (frame m pgdir va)"
  "unat (uaddr m pgdir va) = unat (frame m pgdir va) + unat va mod 4096"
  by (simp_all add: uaddr_def unat_page_plus page_part_less flip: unat_page_part)

lemma pageE:
  obtains q j where "unat (v::uint) = 4096 * q + j" and "j < 4096" and "pgno v = q" and "unat v mod 4096 = j" and "q < 1048576"
  using that [of "unat v div 4096" "unat v mod 4096"] pgno_bound [of v] unfolding pgno_def
  by (metis mult_div_mod_eq mod_less_divisor zero_less_numeral)

lemma same_page_range:
  fixes q r i j n :: nat
  assumes "i < 4096" and "j < 4096" and "i + n \<le> 4096"
  shows "4096 * r + i \<le> 4096 * q + j \<and> 4096 * q + j < 4096 * r + i + n \<longleftrightarrow> q = r \<and> i \<le> j \<and> j < i + n"
  using assms by (cases q r rule: linorder_cases) auto

lemma unat_sub_less:
  fixes a b n :: uint
  assumes "unat a = 4096 * q + j" and "unat b = 4096 * r + i" and "i < 4096" and "j < 4096" and "i + unat n \<le> 4096"
    and "q < 1048576" and "r < 1048576"
  shows "a - b < n \<longleftrightarrow> q = r \<and> i \<le> j \<and> j < i + unat n"
  using assms by (cases q r rule: linorder_cases) (auto simp: word_less_nat_alt unat_sub_wrap)

text \<open>Writing \<open>n\<close> bytes at a user address inside one page, as \<open>copyout\<close> does in a round.\<close>

lemma chunk_view:
  assumes s: "uvm_inv s fl pgdir" and va: "upage (mem s) pgdir va" and v: "upage (mem s) pgdir v"
    and n: "unat va mod 4096 + unat n \<le> 4096"
  shows "uaddr (mem s) pgdir v - uaddr (mem s) pgdir va < n \<longleftrightarrow> unat va \<le> unat v \<and> unat v < unat va + unat n"
    and "unat va \<le> unat v \<and> unat v < unat va + unat n \<Longrightarrow> uaddr (mem s) pgdir v - uaddr (mem s) pgdir va = v - va"
proof -
  let ?f = "frame (mem s) pgdir"
  obtain q j where q: "unat v = 4096 * q + j" "j < 4096" "pgno v = q" "unat v mod 4096 = j" by (rule pageE)
  obtain r i where r: "unat va = 4096 * r + i" "i < 4096" "pgno va = r" "unat va mod 4096 = i" by (rule pageE)
  obtain fq where fq: "unat (?f v) = 4096 * fq" "fq < 1048576" "pgno (?f v) = fq" using aligned_frame by (rule aligned_pageE)
  obtain fr where fr: "unat (?f va) = 4096 * fr" "fr < 1048576" "pgno (?f va) = fr" using aligned_frame by (rule aligned_pageE)
  have n': "i + unat n \<le> 4096" using n r by simp
  have "fq = fr \<longleftrightarrow> ?f v = ?f va" using pgno_eq_aligned [of "?f v" "?f va"] fq fr by simp
  moreover have "?f v = ?f va \<longleftrightarrow> q = r"
  proof
    assume "?f v = ?f va"
    then have "pgno v = pgno va" by (rule uvm_inj [OF s v va])
    then show "q = r" using q(3) r(3) by simp
  next
    assume "q = r"
    then have "pgno v = pgno va" using q(3) r(3) by simp
    from entry_cong(1) [OF this] show "?f v = ?f va" by (simp add: frame_def)
  qed
  ultimately have eq: "fq = fr \<longleftrightarrow> q = r" by simp
  have "uaddr (mem s) pgdir v - uaddr (mem s) pgdir va < n \<longleftrightarrow> fq = fr \<and> i \<le> j \<and> j < i + unat n"
    using q r fq fr n' by (intro unat_sub_less) (simp_all add: uaddr_page)
  then show A: "uaddr (mem s) pgdir v - uaddr (mem s) pgdir va < n \<longleftrightarrow> unat va \<le> unat v \<and> unat v < unat va + unat n"
    unfolding q(1) r(1) same_page_range [OF r(2) q(2) n'] eq .
  assume "unat va \<le> unat v \<and> unat v < unat va + unat n"
  then have "pgno v = pgno va" unfolding q(1) r(1) same_page_range [OF r(2) q(2) n'] q(3) r(3) by simp
  from this entry_cong(1) [OF this] have "PGROUNDDOWN v = PGROUNDDOWN va" "?f v = ?f va"
    using pgno_eq_aligned [of "PGROUNDDOWN v" "PGROUNDDOWN va"] by (simp_all add: frame_def)
  then show "uaddr (mem s) pgdir v - uaddr (mem s) pgdir va = v - va" by (simp add: uaddr_def)
qed

lemma uvm_write:
  assumes s: "uvm_inv s fl pgdir" and w: "unchanged_outside (frames (mem s) pgdir) (mem s) m'"
  shows "uvm_inv (s\<lparr>mem := m'\<rparr>) fl pgdir" and "entry m' pgdir = entry (mem s) pgdir"
proof -
  note pt = uvm_inv_pt [OF s]
  have "agree_on (region (mem s) pgdir fl) (mem s) m'"
  proof (rule agree_on_unchanged [OF w])
    show "aligned 4096 p" if "p \<in> frames (mem s) pgdir" for p using that by (auto simp: frames_def)
    show "aligned 4096 q \<and> q \<notin> frames (mem s) pgdir" if "q \<in> region (mem s) pgdir fl" for q
      using that region_aligned [OF pt] uvm_frameD(2) [OF s] by (auto simp: frames_def)
  qed
  note e = agree_region_entry [OF pt this]
  show "entry m' pgdir = entry (mem s) pgdir" by (rule e)
  have uf: "upage m' pgdir = upage (mem s) pgdir" "frame m' pgdir = frame (mem s) pgdir" "region m' pgdir fl = region (mem s) pgdir fl"
    by (auto simp: upage_def frame_def region_def e fun_eq_iff)
  have mm: "mem (s\<lparr>mem := m'\<rparr>) = m'" "kend (s\<lparr>mem := m'\<rparr>) = kend s" by simp_all
  have "pt_inv (s\<lparr>mem := m'\<rparr>) fl pgdir"
    using \<open>agree_on _ _ _\<close> by (intro pt_inv_agree [OF pt]) (auto elim!: agree_on_mono simp: region_def)
  then show "uvm_inv (s\<lparr>mem := m'\<rparr>) fl pgdir"
    using s unfolding uvm_inv_def mm uf page_ok_fields by blast
qed

definition in_range :: "uint \<Rightarrow> uint \<Rightarrow> uint \<Rightarrow> bool" where
  "in_range va len v \<longleftrightarrow> unat va \<le> unat v \<and> unat v < unat va + unat len"

definition copied :: "'a kst_scheme \<Rightarrow> uint \<Rightarrow> uint \<Rightarrow> uint \<Rightarrow> uint \<Rightarrow> memory \<Rightarrow> bool" where
  "copied s pgdir va buf len m' \<longleftrightarrow> unchanged_outside (frames (mem s) pgdir) (mem s) m'
     \<and> (\<forall>v. upage (mem s) pgdir v \<longrightarrow>
          m' (uaddr (mem s) pgdir v) = (if in_range va len v then mem s (buf + (v - va)) else mem s (uaddr (mem s) pgdir v)))"

definition src_ok :: "memory \<Rightarrow> uint \<Rightarrow> uint \<Rightarrow> uint \<Rightarrow> bool" where
  "src_ok m pgdir buf len \<longleftrightarrow> unat buf + unat len < 2 ^ 32
     \<and> (\<forall>k. unat k < unat len \<longrightarrow> (\<forall>p\<in>frames m pgdir. pgno (buf + k) \<noteq> pgno p))"

lemma chunk_copied:
  assumes s: "uvm_inv s fl pgdir" and va: "upage (mem s) pgdir va" and n: "unat va mod 4096 + unat n \<le> 4096"
    and b: "unat buf + unat n < 2 ^ 32"
  shows "copied s pgdir va buf n (memmove (mem s) (uaddr (mem s) pgdir va) buf n)"
proof -
  let ?d = "uaddr (mem s) pgdir va"
  obtain fr where fr: "unat (frame (mem s) pgdir va) = 4096 * fr" "fr < 1048576" "pgno (frame (mem s) pgdir va) = fr"
    using aligned_frame by (rule aligned_pageE)
  have "unat ?d + unat n \<le> unat (frame (mem s) pgdir va) + 4096" using n uaddr_page(2) [of "mem s" pgdir va] by simp
  also have "\<dots> \<le> 0x8E000000" using page_ok_range [OF uvm_frameD(1) [OF s va]] by simp
  finally have m: "memmove (mem s) ?d buf n = (\<lambda>x. if x - ?d < n then mem s (buf + (x - ?d)) else mem s x)"
    using b by (intro memmove_closed) simp_all
  have "pgno x = fr" if "x - ?d < n" for x
  proof -
    obtain q j where q: "unat x = 4096 * q + j" "j < 4096" "pgno x = q" "unat x mod 4096 = j" "q < 1048576" by (rule pageE)
    have "unat ?d = 4096 * fr + unat va mod 4096" using uaddr_page(2) [of "mem s" pgdir va] fr by simp
    from unat_sub_less [OF q(1) this _ q(2) n q(5) fr(2)] that q(3) show ?thesis by simp
  qed
  then have "unchanged_outside (frames (mem s) pgdir) (mem s) (memmove (mem s) ?d buf n)"
    using va fr(3) unfolding m unchanged_outside_def frames_def by auto
  moreover have "memmove (mem s) ?d buf n (uaddr (mem s) pgdir v) =
      (if in_range va n v then mem s (buf + (v - va)) else mem s (uaddr (mem s) pgdir v))" if "upage (mem s) pgdir v" for v
    using chunk_view [OF s va that n] unfolding m in_range_def by auto
  ultimately show ?thesis by (simp add: copied_def)
qed

lemma frames_cong:
  assumes "entry m' pgdir = entry m pgdir"
  shows "upage m' pgdir = upage m pgdir" "frame m' pgdir = frame m pgdir" "frames m' pgdir = frames m pgdir" "uaddr m' pgdir = uaddr m pgdir"
    "uaccess m' pgdir = uaccess m pgdir" "src_ok m' pgdir = src_ok m pgdir"
proof -
  show u: "upage m' pgdir = upage m pgdir" "frame m' pgdir = frame m pgdir" using assms by (simp_all add: upage_def frame_def fun_eq_iff)
  show f: "frames m' pgdir = frames m pgdir" by (simp add: frames_def u)
  show "uaddr m' pgdir = uaddr m pgdir" "uaccess m' pgdir = uaccess m pgdir" "src_ok m' pgdir = src_ok m pgdir"
    using assms by (simp_all add: uaddr_def uaccess_def src_ok_def fun_eq_iff u f)
qed

lemma copied_compose:
  assumes s: "uvm_inv s fl pgdir" and c1: "copied s pgdir va buf n m1" and c2: "copied (s\<lparr>mem := m1\<rparr>) pgdir va' (buf + n) (len - n) m2"
    and src: "src_ok (mem s) pgdir buf len" and n: "n \<le> len" and next_va: "n = len \<or> va' = va + n"
    and bound: "unat va + unat len < 2 ^ 32"
  shows "copied s pgdir va buf len m2"
proof -
  have w: "unchanged_outside (frames (mem s) pgdir) (mem s) m1" using c1 by (simp add: copied_def)
  note e = frames_cong [OF uvm_write(2) [OF s w]]
  have ln: "unat (len - n) = unat len - unat n" "unat n \<le> unat len" using n by (simp_all add: unat_sub_uint word_le_nat_alt)
  have va': "unat va' = unat va + unat n" if "n \<noteq> len"
    using next_va that bound ln(2) unat_add_uint [of va n] by simp
  have split: "in_range va len v \<longleftrightarrow> in_range va n v \<or> in_range va' (len - n) v" for v
    using va' ln by (cases "n = len") (auto simp: in_range_def)
  have src1: "m1 (buf + k) = mem s (buf + k)" if "unat k < unat len" for k
    using w src that unfolding unchanged_outside_def src_ok_def by blast
  have "m2 (uaddr (mem s) pgdir v) = (if in_range va len v then mem s (buf + (v - va)) else mem s (uaddr (mem s) pgdir v))"
    if v: "upage (mem s) pgdir v" for v
  proof (cases "in_range va' (len - n) v")
    case True
    then have ne: "n \<noteq> len" by (auto simp: in_range_def)
    have "m2 (uaddr (mem s) pgdir v) = m1 (buf + n + (v - va'))" using c2 v True by (simp add: copied_def e)
    also have "buf + n + (v - va') = buf + (v - va)" using next_va ne by (simp add: algebra_simps)
    also have "unat (v - va) < unat len"
      using True va' [OF ne] ln by (auto simp: in_range_def unat_sub_wrap)
    then have "m1 (buf + (v - va)) = mem s (buf + (v - va))" by (rule src1)
    finally show ?thesis using True split by simp
  next
    case False
    then have "m2 (uaddr (mem s) pgdir v) = m1 (uaddr (mem s) pgdir v)" using c2 v by (simp add: copied_def e)
    with c1 v False split show ?thesis by (simp add: copied_def)
  qed
  moreover have "unchanged_outside (frames (mem s) pgdir) (mem s) m2"
    using w c2 by (auto simp: copied_def e intro: unchanged_outside_trans)
  ultimately show ?thesis by (simp add: copied_def)
qed

lemma copied_none: "copied s pgdir va buf 0 (mem s)"
  by (auto simp: copied_def in_range_def)

lemma frame_nonzero: "uvm_inv s fl pgdir \<Longrightarrow> upage (mem s) pgdir va \<Longrightarrow> frame (mem s) pgdir va \<noteq> 0"
  using uvm_frameD(1) page_ok_nonzero by blast

lemma round_size:
  assumes "len \<noteq> 0" and "unat va + unat len \<le> 0x80000000"
  defines "n \<equiv> (if PGSIZE - (va - PGROUNDDOWN va) > len then len else PGSIZE - (va - PGROUNDDOWN va))"
  shows "n \<le> len" "unat va mod 4096 + unat n \<le> 4096" "n = len \<or> PGROUNDDOWN va + PGSIZE = va + n" "n \<noteq> 0"
    "unat (PGROUNDDOWN va + PGSIZE) = 4096 * Suc (pgno va)" "pgno (PGROUNDDOWN va + PGSIZE) = Suc (pgno va)"
    "n \<noteq> len \<Longrightarrow> unat (PGROUNDDOWN va + PGSIZE) + unat (len - n) = unat va + unat len"
    "unat (PGROUNDDOWN va + PGSIZE) + unat (len - n) \<le> 0x80000000"
    "pgno va < (unat va + unat len + 4095) div 4096"
proof -
  obtain q j where q: "unat va = 4096 * q + j" "j < 4096" "pgno va = q" "unat va mod 4096 = j" by (rule pageE)
  have r: "unat (PGSIZE - (va - PGROUNDDOWN va)) = 4096 - j"
    using q unat_page_part [of va] by (simp add: unat_sub_wrap PGSIZE_def)
  show "n \<le> len" by (simp add: n_def not_less)
  show "unat va mod 4096 + unat n \<le> 4096"
    using q r by (auto simp: n_def word_less_nat_alt not_less)
  show nx: "n = len \<or> PGROUNDDOWN va + PGSIZE = va + n" by (auto simp: n_def)
  show "n \<noteq> 0"
    using assms(1) q r by (auto simp: n_def)
  have l: "0 < unat len" using assms(1) by (simp add: unat_gt_0)
  then have b: "4096 * q < 0x80000000" using assms(2) q by linarith
  moreover have "unat (PGROUNDDOWN va) = 4096 * q" using q by (simp add: unat_PGROUNDDOWN)
  ultimately show u: "unat (PGROUNDDOWN va + PGSIZE) = 4096 * Suc (pgno va)"
    using q(3) unat_add_uint [of "PGROUNDDOWN va" PGSIZE] by (simp add: PGSIZE_def)
  then show "pgno (PGROUNDDOWN va + PGSIZE) = Suc (pgno va)" by (simp add: pgno_def)
  have ln: "unat (len - n) = unat len - unat n" "unat n \<le> unat len"
    using \<open>n \<le> len\<close> by (simp_all add: unat_sub_uint word_le_nat_alt)
  show e: "unat (PGROUNDDOWN va + PGSIZE) + unat (len - n) = unat va + unat len" if "n \<noteq> len"
  proof -
    have "unat (va + n) = unat va + unat n" using assms(2) ln by (intro unat_add_uint) simp
    then show ?thesis using nx that ln by simp
  qed
  show "unat (PGROUNDDOWN va + PGSIZE) + unat (len - n) \<le> 0x80000000"
  proof (cases "n = len")
    case True
    have "q < 0x80000" using b by simp
    then show ?thesis using True u q by simp
  next
    case False
    from e [OF this] assms(2) show ?thesis by simp
  qed
  have "Suc q * 4096 \<le> unat va + unat len + 4095" using q l by simp
  then have "Suc q \<le> (unat va + unat len + 4095) div 4096" by (subst less_eq_div_iff_mult_less_eq) simp_all
  then show "pgno va < (unat va + unat len + 4095) div 4096" using q by simp
qed

lemma src_ok_drop:
  assumes "src_ok m pgdir buf len" and "n \<le> len"
  shows "src_ok m pgdir (buf + n) (len - n)"
proof -
  have ln: "unat (len - n) = unat len - unat n" "unat n \<le> unat len"
    using assms(2) by (simp_all add: unat_sub_uint word_le_nat_alt)
  have "unat (buf + n) = unat buf + unat n" using assms(1) ln by (intro unat_add_uint) (simp add: src_ok_def)
  moreover have "pgno (buf + n + k) \<noteq> pgno p" if "unat k < unat (len - n)" "p \<in> frames m pgdir" for k p
  proof -
    have "unat n + unat k < unat len" using that ln by linarith
    also have "\<dots> < 2 ^ 32" by simp
    finally have "unat (n + k) = unat n + unat k" by (rule unat_add_uint)
    then have "unat (n + k) < unat len" using that ln by simp
    then show ?thesis using assms(1) that(2) unfolding src_ok_def by (metis add.assoc)
  qed
  ultimately show ?thesis using assms(1) ln by (simp add: src_ok_def)
qed

lemma copyout_loop_spec:
  assumes "uvm_inv s fl pgdir" and "unat va + unat len \<le> 0x80000000"
    and "\<forall>v. in_range va len v \<longrightarrow> uaccess (mem s) pgdir v" and "src_ok (mem s) pgdir buf len"
    and "len \<noteq> 0 \<Longrightarrow> (unat va + unat len + 4095) div 4096 < pgno va + fuel" and "0 < fuel"
  shows "runs (copyout_loop fuel pgdir va buf len s) (\<lambda>(r, t). r = 0 \<and> (\<exists>m'. t = s\<lparr>mem := m'\<rparr> \<and> copied s pgdir va buf len m'))"
  using assms
proof (induction fuel arbitrary: va buf len s)
  case 0
  then show ?case by simp
next
  case (Suc f)
  note s = Suc.prems(1) and bound = Suc.prems(2) and acc = Suc.prems(3) and src = Suc.prems(4)
  show ?case
  proof (cases "len = 0")
    case True
    have "s = s\<lparr>mem := mem s\<rparr>" by simp
    with True show ?thesis using copied_none [of s pgdir va buf] by (auto intro!: exI [of _ "mem s"])
  next
    case False
    define n where "n = (if PGSIZE - (va - PGROUNDDOWN va) > len then len else PGSIZE - (va - PGROUNDDOWN va))"
    note r = round_size [OF False bound, folded n_def]
    let ?va = "PGROUNDDOWN va + PGSIZE" and ?d = "uaddr (mem s) pgdir va"
    define m1 where "m1 = memmove (mem s) ?d buf n"
    have "in_range va len va" using False by (simp add: in_range_def unat_gt_0)
    then have ua: "uaccess (mem s) pgdir va" using acc by blast
    then have up: "upage (mem s) pgdir va" by (simp add: uaccess_def)
    have c1: "copied s pgdir va buf n m1"
      unfolding m1_def using r(1) src by (intro chunk_copied [OF s up r(2)]) (simp add: src_ok_def word_le_nat_alt)
    then have w: "unchanged_outside (frames (mem s) pgdir) (mem s) m1" by (simp add: copied_def)
    note e = frames_cong [OF uvm_write(2) [OF s w]]
    have same: "entry (mem s) pgdir (PGROUNDDOWN va) = entry (mem s) pgdir va" "frame (mem s) pgdir (PGROUNDDOWN va) = frame (mem s) pgdir va"
      "mapped_table (mem s) pgdir (PGROUNDDOWN va) = mapped_table (mem s) pgdir va"
      using entry_cong [of "PGROUNDDOWN va" va] by (simp_all add: frame_def)
    have "uva2ka pgdir (PGROUNDDOWN va) s = Ret (frame (mem s) pgdir va, s)"
      using ua upage_mapped [OF up] by (simp add: uva2ka_eq [OF uvm_inv_pt [OF s]] same uaccess_def upage_def)
    moreover have "0 < len" using False by (simp add: word_neq_0_conv)
    ultimately have step: "copyout_loop (Suc f) pgdir va buf len s = copyout_loop f pgdir ?va (buf + n) (len - n) (s\<lparr>mem := m1\<rparr>)"
      using frame_nonzero [OF s up] by (simp add: Let_def n_def m1_def uaddr_def)
    have ih: "runs (copyout_loop f pgdir ?va (buf + n) (len - n) (s\<lparr>mem := m1\<rparr>))
        (\<lambda>(r, t). r = 0 \<and> (\<exists>m'. t = s\<lparr>mem := m1\<rparr>\<lparr>mem := m'\<rparr> \<and> copied (s\<lparr>mem := m1\<rparr>) pgdir ?va (buf + n) (len - n) m'))"
    proof (rule Suc.IH)
      show "uvm_inv (s\<lparr>mem := m1\<rparr>) fl pgdir" by (rule uvm_write(1) [OF s w])
      show "unat ?va + unat (len - n) \<le> 0x80000000" by (rule r)
      show "\<forall>v. in_range ?va (len - n) v \<longrightarrow> uaccess (mem (s\<lparr>mem := m1\<rparr>)) pgdir v"
      proof (intro allI impI)
        fix v assume v: "in_range ?va (len - n) v"
        then have ne: "n \<noteq> len" by (auto simp: in_range_def)
        have "unat va \<le> unat ?va" unfolding r(5) using page_part_less [of va] unat_page_part [of va]
          by (simp add: pgno_def)
        then have "in_range va len v" using v r(7) [OF ne] by (auto simp: in_range_def)
        then show "uaccess (mem (s\<lparr>mem := m1\<rparr>)) pgdir v" using acc by (simp add: e)
      qed
      show "src_ok (mem (s\<lparr>mem := m1\<rparr>)) pgdir (buf + n) (len - n)" using src_ok_drop [OF src r(1)] by (simp add: e)
      show "(unat ?va + unat (len - n) + 4095) div 4096 < pgno ?va + f" if "len - n \<noteq> 0"
        using r(6,7) that Suc.prems(5) False by simp
      show "0 < f" using r(9) Suc.prems(5) False by simp
    qed
    have "unat va + unat len < 2 ^ 32" using bound by simp
    from copied_compose [OF s c1 _ src r(1,3) this] ih show ?thesis
      unfolding step by (auto elim!: runs_mono)
  qed
qed

section \<open>Clearing the user bit\<close>

lemma clear_U:
  "present (e AND NOT PTE_U) = present e" "(e AND NOT PTE_U) AND PTE_U = 0" "PTE_ADDR (e AND NOT PTE_U) = PTE_ADDR e"
proof -
  show "present (e AND NOT PTE_U) = present e" by (simp add: present_bit bit_simps PTE_U_def)
  show "(e AND NOT PTE_U) AND PTE_U = 0" by (rule bit_word_eqI) (simp add: bit_simps)
  have "\<not> bit PTE_U n" if "12 \<le> n" for n using that by (intro small_bit) (simp_all add: PTE_U_def)
  then show "PTE_ADDR (e AND NOT PTE_U) = PTE_ADDR e"
    unfolding PTE_ADDR_def FFF_mask by (intro bit_word_eqI) (auto simp: bit_simps)
qed

lemma clearpteu_eq:
  assumes "pt_inv s fl pgdir" and "mapped_table (mem s) pgdir va"
  shows "clearpteu pgdir va s = Ret (s\<lparr>mem := st32 (mem s) (slot (mem s) pgdir va) (entry (mem s) pgdir va AND NOT PTE_U)\<rparr>)"
  using slot_nonzero [OF assms] assms(2) by (simp add: clearpteu_def walk_mapped entry_def)

section \<open>Properties\<close>

lemma ex_space_access: "in_range 0 4096 v \<Longrightarrow> uaccess (mem ex_space) 0x80400000 v"
proof -
  obtain fl where g: "grown ex_dir ex_free {} 0x80400000 0 1 ex_space fl" by (rule ex_space_grown)
  assume "in_range 0 4096 v"
  then have v: "pgno v = 0" by (simp add: in_range_def pgno_def)
  then have "upage (mem ex_space) 0x80400000 v" by (intro grown_upage [OF g]) simp_all
  moreover have "entry (mem ex_space) 0x80400000 v = user_entry (frame (mem ex_space) 0x80400000 v)"
    using g v unfolding grown_def by auto
  moreover have "(user_entry p) AND PTE_U \<noteq> 0" for p
  proof -
    have "bit ((user_entry p) AND PTE_U) 2" by (simp add: user_entry_def bit_simps PTE_U_def)
    then show ?thesis by force
  qed
  ultimately show ?thesis by (simp add: uaccess_def)
qed

lemma ex_space_inv: obtains fl where "uvm_inv ex_space fl 0x80400000"
proof -
  obtain fl where "grown ex_dir ex_free {} 0x80400000 0 1 ex_space fl" by (rule ex_space_grown)
  then show thesis by (intro that [of fl]) (simp add: grown_def)
qed

text \<open>
  C3: copying to user space.  When every byte of the destination range lies in a present page with
  the user bit, below the kernel, and the source bytes do not lie in user frames, \<open>copyout\<close> returns 0;
  read through the page table, exactly the bytes of the range have changed, to the source bytes,
  across any number of pages; nothing outside the user's frames has changed.
\<close>

theorem copyout_correct:
  assumes "uvm_inv s fl pgdir" and "unat va + unat len \<le> 0x80000000"
    and "\<forall>v. in_range va len v \<longrightarrow> uaccess (mem s) pgdir v" and "src_ok (mem s) pgdir p len"
  shows "\<exists>m'. copyout pgdir va p len s = Ret (0, s\<lparr>mem := m'\<rparr>)
    \<and> unchanged_outside (frames (mem s) pgdir) (mem s) m' \<and> entry m' pgdir = entry (mem s) pgdir
    \<and> (\<forall>v. upage (mem s) pgdir v \<longrightarrow>
         m' (uaddr m' pgdir v) = (if in_range va len v then mem s (p + (v - va)) else mem s (uaddr (mem s) pgdir v)))"
proof -
  have "(unat va + unat len + 4095) div 4096 \<le> (0x80000000 + 4095) div 4096" using assms(2) by (intro div_le_mono) simp
  then have "runs (copyout_loop (2 ^ 20 + 2) pgdir va p len s)
      (\<lambda>(r, t). r = 0 \<and> (\<exists>m'. t = s\<lparr>mem := m'\<rparr> \<and> copied s pgdir va p len m'))"
    using assms by (intro copyout_loop_spec) simp_all
  then obtain m' where m: "copyout pgdir va p len s = Ret (0, s\<lparr>mem := m'\<rparr>)" "copied s pgdir va p len m'"
    unfolding copyout_def by (auto simp: runs_iff)
  have w: "unchanged_outside (frames (mem s) pgdir) (mem s) m'" using m(2) by (simp add: copied_def)
  note e = uvm_write(2) [OF assms(1) w]
  show ?thesis using m w e frames_cong(4) [OF e] by (auto simp: copied_def)
qed

theorem copyout_correct_witness:
  "\<exists>m'. copyout 0x80400000 10 0x80108000 3000 ex_space = Ret (0, ex_space\<lparr>mem := m'\<rparr>)
    \<and> m' (uaddr m' 0x80400000 12) = mem ex_space 0x80108002"
proof -
  obtain fl where inv: "uvm_inv ex_space fl 0x80400000" by (rule ex_space_inv)
  have acc: "\<forall>v. in_range 10 3000 v \<longrightarrow> uaccess (mem ex_space) 0x80400000 v"
    using ex_space_access by (simp add: in_range_def)
  have fr: "0x80110 \<le> pgno p" if fp: "p \<in> frames (mem ex_space) 0x80400000" for p
  proof -
    obtain va where va: "upage (mem ex_space) 0x80400000 va" "p = frame (mem ex_space) 0x80400000 va"
      using fp by (auto simp: frames_def)
    obtain fl where g: "grown ex_dir ex_free {} 0x80400000 0 1 ex_space fl" by (rule ex_space_grown)
    have "kend ex_space = 0x80110000" using g by (simp add: grown_def kframe_def ex_dir_def boot_kst_def)
    then have "0x80110000 \<le> p" using uvm_frameD(1) [OF inv va(1)] va(2) by (simp add: page_ok_def)
    then have "0x80110000 div 4096 \<le> unat p div 4096" by (intro div_le_mono) (simp add: word_le_nat_alt)
    then show ?thesis by (simp add: pgno_def)
  qed
  have "pgno (0x80108000 + k) < 0x80110" if "unat k < 3000" for k :: uint
  proof -
    have "unat (0x80108000 + k) = 0x80108000 + unat k" using that by (subst unat_add_uint) simp_all
    then have "unat (0x80108000 + k) < 0x80110 * 4096" using that by simp
    then show ?thesis unfolding pgno_def by (rule less_mult_imp_div_less)
  qed
  with fr have "src_ok (mem ex_space) 0x80400000 0x80108000 3000" unfolding src_ok_def by (auto, fastforce)
  from copyout_correct [OF inv _ acc this] obtain m' where
    "copyout 0x80400000 10 0x80108000 3000 ex_space = Ret (0, ex_space\<lparr>mem := m'\<rparr>)"
    "\<forall>v. upage (mem ex_space) 0x80400000 v \<longrightarrow> m' (uaddr m' 0x80400000 v) =
      (if in_range 10 3000 v then mem ex_space (0x80108000 + (v - 10)) else mem ex_space (uaddr (mem ex_space) 0x80400000 v))"
    by auto
  moreover have "upage (mem ex_space) 0x80400000 12" using ex_space_access [of 12] by (simp add: in_range_def uaccess_def)
  ultimately show ?thesis by (auto simp: in_range_def)
qed

text \<open>
  C5: the stack guard.  \<open>clearpteu\<close> stops the machine when there is no page table for the address;
  otherwise \<open>uva2ka\<close>, and so \<open>copyout\<close>, refuses every address of the page afterwards, while the map of
  the other pages and all frames stay as they were.
\<close>

theorem clearpteu_guards:
  assumes "pt_inv s fl pgdir"
  shows "if mapped_table (mem s) pgdir va
    then runs (clearpteu pgdir va s) (\<lambda>t. pt_inv t fl pgdir \<and> (\<forall>v. pgno v = pgno va \<longrightarrow> uva2ka pgdir v t = Ret (0, t))
      \<and> frame (mem t) pgdir = frame (mem s) pgdir \<and> (\<forall>v. pgno v \<noteq> pgno va \<longrightarrow> entry (mem t) pgdir v = entry (mem s) pgdir v)
      \<and> unchanged_outside (tables (mem s) pgdir) (mem s) (mem t))
    else clearpteu pgdir va s = Panic ''clearpteu''"
proof (cases "mapped_table (mem s) pgdir va")
  case True
  let ?e = "entry (mem s) pgdir va AND NOT PTE_U"
  let ?m = "st32 (mem s) (slot (mem s) pgdir va) ?e"
  let ?t = "s\<lparr>mem := ?m\<rparr>"
  note w = store_entry [OF assms True, where v = ?e]
  have e: "entry ?m pgdir v = (if pgno v = pgno va then ?e else entry (mem s) pgdir v)" for v by (rule w)
  have "uva2ka pgdir v ?t = Ret (0, ?t)" if "pgno v = pgno va" for v
  proof -
    have "mapped_table (mem ?t) pgdir v" using True entry_cong(3) [OF that] by (simp add: w(3))
    then show ?thesis using that clear_U(2) by (simp add: uva2ka_eq [OF w(1)] e)
  qed
  moreover have "frame ?m pgdir v = frame (mem s) pgdir v" for v
    using entry_cong(1) [of v va "mem s" pgdir] by (simp add: frame_def e table_of_def clear_U(3))
  moreover have "unchanged_outside (tables (mem s) pgdir) (mem s) ?m"
    using tables_PDX [OF True] by (rule unchanged_outside_same [OF slot_store_outside])
  ultimately show ?thesis
    using True w(1) by (simp add: clearpteu_eq [OF assms True] fun_eq_iff e)
next
  case False
  then show ?thesis by (simp add: clearpteu_def walk_noalloc)
qed

theorem clearpteu_guards_witness:
  "\<exists>t. clearpteu 0x80400000 0 ex_space = Ret t \<and> uva2ka 0x80400000 100 t = Ret (0, t)"
proof -
  obtain fl where inv: "uvm_inv ex_space fl 0x80400000" by (rule ex_space_inv)
  have "mapped_table (mem ex_space) 0x80400000 0"
    using ex_space_access [of 0] upage_mapped by (simp add: in_range_def uaccess_def)
  then show ?thesis
    using clearpteu_guards [OF uvm_inv_pt [OF inv], of 0] by (auto simp: runs_iff pgno_def)
qed

text \<open>
  C6: \<open>copyout\<close> to an address for which the directory has no page table dereferences the null pointer
  that \<open>walkpgdir\<close> returned, because \<open>uva2ka\<close> does not check it; it does not return -1.
\<close>

theorem copyout_null_pte:
  assumes "\<not> mapped_table (mem s) pgdir va" and "len \<noteq> 0"
  shows "copyout pgdir va p len s = Undef ''null pte''"
proof -
  have "\<not> mapped_table (mem s) pgdir (PGROUNDDOWN va)" using assms(1) entry_cong(3) [of "PGROUNDDOWN va" va] by simp
  moreover have "(2::nat) ^ 20 + 2 = Suc (2 ^ 20 + 1)" by simp
  ultimately show ?thesis
    using assms(2) unfolding copyout_def by (simp only: copyout_loop.simps) (simp add: uva2ka_def walk_noalloc word_neq_0_conv)
qed

theorem copyout_null_pte_witness: "copyout 0x80400000 0 0x80108000 1 ex_dir = Undef ''null pte''"
proof -
  have "\<not> mapped_table (mem ex_dir) 0x80400000 0" using ex_dir_pde [OF PDX_less] by (simp add: mapped_table_def)
  then show ?thesis by (rule copyout_null_pte) simp
qed

end
