(* ===== verification/Cstring.thy ===== *)
theory Cstring
  imports Memory
begin

text \<open>
  The string functions of the kernel (\<^verbatim>\<open>string.c\<close>) and of the user library (\<^verbatim>\<open>ulib.c\<close>).  A pointer is the list of
  the bytes from it to the end of its object; reading or writing beyond the end is undefined.
\<close>

section \<open>string.c\<close>

fun strncmp :: "uchar list \<Rightarrow> uchar list \<Rightarrow> nat \<Rightarrow> int outcome" where
  "strncmp p q 0 = Ret 0"
| "strncmp (a # p) (b # q) (Suc n) =
     (if a \<noteq> 0 \<and> a = b then strncmp p q n else Ret (uint a - uint b))"
| "strncmp p q (Suc n) = Undef ''out of bounds''"

text \<open>The second loop of \<open>strncpy\<close>.\<close>

fun zero_fill :: "uchar list \<Rightarrow> nat \<Rightarrow> uchar list outcome" where
  "zero_fill s 0 = Ret s"
| "zero_fill (_ # s) (Suc n) = andthen (zero_fill s n) (\<lambda>s. Ret (0 # s))"
| "zero_fill [] (Suc n) = Undef ''out of bounds''"

fun strncpy :: "uchar list \<Rightarrow> uchar list \<Rightarrow> nat \<Rightarrow> uchar list outcome" where
  "strncpy s t 0 = Ret s"
| "strncpy (_ # s) (c # t) (Suc n) =
     (if c \<noteq> 0 then andthen (strncpy s t n) (\<lambda>s. Ret (c # s))
      else andthen (zero_fill s n) (\<lambda>s. Ret (c # s)))"
| "strncpy s t (Suc n) = Undef ''out of bounds''"

text \<open>
  \<open>safestrcpy_loop s t n\<close> is the loop entered with \<open>n\<close> as the value that \<open>--n\<close> has produced.  After it has
  copied a NUL the final store puts another one behind it.
\<close>

fun safestrcpy_loop :: "uchar list \<Rightarrow> uchar list \<Rightarrow> nat \<Rightarrow> uchar list outcome" where
  "safestrcpy_loop (_ # s) t 0 = Ret (0 # s)"
| "safestrcpy_loop [] t 0 = Undef ''out of bounds''"
| "safestrcpy_loop (_ # s) (c # t) (Suc n) =
     (if c \<noteq> 0 then andthen (safestrcpy_loop s t n) (\<lambda>s. Ret (c # s))
      else case s of [] \<Rightarrow> Undef ''out of bounds'' | _ # s \<Rightarrow> Ret (c # 0 # s))"
| "safestrcpy_loop s t (Suc n) = Undef ''out of bounds''"

definition safestrcpy :: "uchar list \<Rightarrow> uchar list \<Rightarrow> nat \<Rightarrow> uchar list outcome" where
  "safestrcpy s t n = (case n of 0 \<Rightarrow> Ret s | Suc n \<Rightarrow> safestrcpy_loop s t n)"

fun strlen :: "uchar list \<Rightarrow> nat outcome" where
  "strlen [] = Undef ''out of bounds''"
| "strlen (c # s) = (if c = 0 then Ret 0 else andthen (strlen s) (\<lambda>n. Ret (Suc n)))"

definition memcpy :: "memory \<Rightarrow> uint \<Rightarrow> uint \<Rightarrow> uint \<Rightarrow> memory" where
  "memcpy m dst src n = memmove m dst src n"

section \<open>ulib.c\<close>

fun strcpy :: "uchar list \<Rightarrow> uchar list \<Rightarrow> uchar list outcome" where
  "strcpy (_ # s) (c # t) = (if c = 0 then Ret (c # s) else andthen (strcpy s t) (\<lambda>s. Ret (c # s)))"
| "strcpy s t = Undef ''out of bounds''"

fun strcmp :: "uchar list \<Rightarrow> uchar list \<Rightarrow> int outcome" where
  "strcmp (a # p) (b # q) = (if a \<noteq> 0 \<and> a = b then strcmp p q else Ret (uint a - uint b))"
| "strcmp p q = Undef ''out of bounds''"

definition ulib_memset :: "memory \<Rightarrow> uint \<Rightarrow> uint \<Rightarrow> uint \<Rightarrow> memory" where
  "ulib_memset m dst c n = stosb m dst (ucast c) (unat n)"

definition ulib_memmove :: "memory \<Rightarrow> uint \<Rightarrow> uint \<Rightarrow> int \<Rightarrow> memory" where
  "ulib_memmove m vdst vsrc n = memmove_up m vdst vsrc (nat n)"

text \<open>
  \<open>gets\<close> reads single bytes; the input lists what the reads return, and its end is a read that
  returns less than 1.  The loop of \<open>gets\<close> entered with \<open>room = max - 1 - i\<close>.
\<close>

fun gets_loop :: "nat \<Rightarrow> uchar list \<Rightarrow> uchar list \<times> uchar list" where
  "gets_loop 0 input = ([], input)"
| "gets_loop (Suc room) [] = ([], [])"
| "gets_loop (Suc room) (c # input) =
     (if c = 10 \<or> c = 13 then ([c], input)
      else let (line, rest) = gets_loop room input in (c # line, rest))"

definition gets :: "uchar list \<Rightarrow> nat \<Rightarrow> uchar list \<Rightarrow> (uchar list \<times> uchar list) outcome" where
  "gets buf max_len input =
     (let (line, rest) = gets_loop (max_len - 1) input in
      if length line < length buf then Ret (line @ [0] @ drop (Suc (length line)) buf, rest)
      else Undef ''out of bounds'')"

section \<open>Lemmas\<close>

text \<open>\<open>cstr t\<close> is the string at a pointer; \<open>terminated\<close> says that there is a NUL within the object.\<close>

definition cstr :: "uchar list \<Rightarrow> uchar list" where
  "cstr t = takeWhile (\<lambda>c. c \<noteq> 0) t"

abbreviation terminated :: "uchar list \<Rightarrow> bool" where
  "terminated t \<equiv> 0 \<in> set t"

lemma cstr_Cons: "cstr (c # t) = (if c = 0 then [] else c # cstr t)"
  by (simp add: cstr_def)

lemma zero_fill_eq: "n \<le> length s \<Longrightarrow> zero_fill s n = Ret (replicate n 0 @ drop n s)"
  by (induction s n rule: zero_fill.induct) auto

lemma strlen_eq: "terminated t \<Longrightarrow> strlen t = Ret (length (cstr t))"
  by (induction t) (auto simp: cstr_Cons)

lemma strncpy_eq:
  assumes "n \<le> length s" and "terminated t \<or> n \<le> length t"
  shows "strncpy s t n = Ret (take n (cstr t) @ replicate (n - length (cstr t)) 0 @ drop n s)"
  using assms
proof (induction s t n rule: strncpy.induct)
  case (2 x s c t n)
  show ?case
  proof (cases "c = 0")
    case True
    then show ?thesis using 2(2) by (simp add: cstr_Cons zero_fill_eq)
  next
    case False
    then have "strncpy s t n = Ret (take n (cstr t) @ replicate (n - length (cstr t)) 0 @ drop n s)"
      using 2 by auto
    with False show ?thesis by (simp add: cstr_Cons)
  qed
qed auto

lemma strcpy_eq:
  assumes "terminated t" and "length (cstr t) < length s"
  shows "strcpy s t = Ret (cstr t @ [0] @ drop (Suc (length (cstr t))) s)"
  using assms by (induction s t rule: strcpy.induct) (auto simp: cstr_Cons)

lemma uchar_diff: "uint (a :: uchar) = uint b \<longleftrightarrow> a = b" "uint (a :: uchar) = 0 \<longleftrightarrow> a = 0"
  using word_uint_eq_iff [of a b] word_uint_eq_iff [of a 0] by simp_all

lemma strcmp_zero:
  assumes "terminated p" and "terminated q"
  shows "\<exists>r. strcmp p q = Ret r \<and> (r = 0 \<longleftrightarrow> cstr p = cstr q)"
  using assms by (induction p q rule: strcmp.induct) (auto simp: cstr_Cons uchar_diff)

lemma strncmp_zero:
  assumes "terminated p \<or> n \<le> length p" and "terminated q \<or> n \<le> length q"
  shows "\<exists>r. strncmp p q n = Ret r \<and> (r = 0 \<longleftrightarrow> take n (cstr p) = take n (cstr q))"
  using assms by (induction p q n rule: strncmp.induct) (auto simp: cstr_Cons uchar_diff)

lemma cstr_pad: "0 \<notin> set u \<Longrightarrow> cstr (u @ replicate k 0 @ r) = (if k = 0 then u @ cstr r else u)"
  by (induction u) (auto simp: cstr_def neq_Nil_conv gr0_conv_Suc)

lemma cstr_no_zero: "0 \<notin> set (cstr t)"
  by (auto simp: cstr_def dest: set_takeWhileD)

lemma safestrcpy_loop_spec:
  assumes "n < length s" and "terminated t \<or> n \<le> length t"
  shows "\<exists>r. safestrcpy_loop s t n = Ret r \<and> length r = length s \<and> terminated (take (Suc n) r)
    \<and> cstr r = take n (cstr t) \<and> drop (Suc n) r = drop (Suc n) s"
  using assms
proof (induction s t n rule: safestrcpy_loop.induct)
  case (1 x s t)
  then show ?case by (simp add: cstr_Cons)
next
  case (3 x s c t n)
  show ?case
  proof (cases "c = 0")
    case True
    then show ?thesis using 3(2) by (cases s) (auto simp: cstr_Cons)
  next
    case False
    with 3 obtain r where "safestrcpy_loop s t n = Ret r" "length r = length s" "terminated (take (Suc n) r)"
      "cstr r = take n (cstr t)" "drop (Suc n) r = drop (Suc n) s" by auto
    with False show ?thesis by (auto simp: cstr_Cons)
  qed
qed auto

section \<open>Properties\<close>

text \<open>
  C37: \<open>safestrcpy\<close>, used for process names, always leaves a terminated string within its \<open>n\<close> bytes: the
  source string, cut to \<open>n - 1\<close> bytes if it is longer.  It writes nothing beyond the \<open>n\<close> bytes.
\<close>

theorem safestrcpy_terminates_string:
  assumes "0 < n" and "n \<le> length s" and "terminated t"
  shows "\<exists>r. safestrcpy s t n = Ret r \<and> length r = length s \<and> 0 \<in> set (take n r)
    \<and> cstr r = take (n - 1) (cstr t) \<and> drop n r = drop n s"
proof -
  obtain k where k: "n = Suc k" using assms(1) by (cases n) auto
  then show ?thesis using safestrcpy_loop_spec [of k s t] assms by (simp add: safestrcpy_def)
qed

theorem safestrcpy_terminates_string_witness:
  "\<exists>r. safestrcpy (replicate 8 7) [115, 104, 101, 108, 108, 0] 4 = Ret r \<and> cstr r = [115, 104, 101] \<and> drop 4 r = [7, 7, 7, 7]"
proof -
  have "cstr [115, 104, 101, 108, 108, 0] = [115, 104, 101, 108, 108]" by (simp add: cstr_Cons)
  then show ?thesis
    using safestrcpy_terminates_string [of 4 "replicate 8 7" "[115, 104, 101, 108, 108, 0]"] by (auto simp: numeral_eq_Suc)
qed

text \<open>
  C38: names in directories.  A name stored with \<open>strncpy\<close> in a field of \<open>n\<close> bytes fills exactly the field,
  and \<open>strncmp\<close> over \<open>n\<close> bytes finds a name equal to the field exactly when the two names agree in their first
  \<open>n\<close> bytes, whether or not the field is terminated.
\<close>

theorem strncpy_strncmp:
  assumes "length s = n" and "terminated t" and "terminated q"
  shows "\<exists>f r. strncpy s t n = Ret f \<and> length f = n \<and> strncmp q f n = Ret r
    \<and> (r = 0 \<longleftrightarrow> take n (cstr q) = take n (cstr t))"
proof -
  let ?f = "take n (cstr t) @ replicate (n - length (cstr t)) 0"
  have f: "strncpy s t n = Ret ?f" using strncpy_eq [of n s t] assms by simp
  have z: "0 \<notin> set (take n (cstr t))" using cstr_no_zero [of t] by (meson in_set_takeD)
  have "cstr ?f = take n (cstr t)" using cstr_pad [OF z, of "n - length (cstr t)" "[]"] by (simp add: cstr_def)
  moreover obtain r where "strncmp q ?f n = Ret r" "r = 0 \<longleftrightarrow> take n (cstr q) = take n (cstr ?f)"
    using strncmp_zero [of q n ?f] assms(3) by auto
  ultimately show ?thesis using f by auto
qed

theorem strncpy_strncmp_witness:
  "\<exists>f r. strncpy (replicate 3 0) [104, 101, 108, 108, 111, 0] 3 = Ret f \<and> strncmp [104, 101, 108, 0] f 3 = Ret r \<and> r = 0"
proof -
  have "cstr [104, 101, 108, 108, 111, 0] = [104, 101, 108, 108, 111]" "cstr [104, 101, 108, 0] = [104, 101, 108]"
    by (simp_all add: cstr_Cons)
  then show ?thesis
    using strncpy_strncmp [of "replicate 3 0" 3 "[104, 101, 108, 108, 111, 0]" "[104, 101, 108, 0]"] by auto
qed

end
