(* ===== verification/Proc.thy ===== *)
theory Proc
  imports Vm Cstring
begin

text \<open>
  Processes: the process table, context switches, sleeping and waking of \<^verbatim>\<open>proc.c\<close>.  The state \<open>pst\<close>
  extends the memory state with the table, with the kernel's spin locks (a lock pointer is a
  \<open>lockid\<close>) and with the addresses of the two assembly entry points a new process starts from.

  A process is its index in the table, and a \<open>struct proc *\<close> is an index or \<open>None\<close>.  \<open>swtch\<close> is
  assembly; the functions that call it are split there into the part before and the part after.
  For a caller that runs alone, sleeping means that it does not come back on its own.  The
  operations that also need files (\<open>fork\<close>, \<open>exit\<close>, \<open>userinit\<close>, \<open>forkret\<close>) are in the theory
  \<open>Procfile\<close>.
\<close>

unbundle bit_operations_syntax

section \<open>State\<close>

text \<open>The spin locks of the kernel other than the page allocator's, and the sleep locks.\<close>

datatype sleepid = BufSleep nat | InodeSleep nat

datatype lockid = PtableLock | TicksLock | BcacheLock | LogLock | IcacheLock | FtableLock
  | PipeLock uint | IdeLock | ConsLock | SleepSpin sleepid

text \<open>What a process can sleep on: the address of one of these objects.\<close>

datatype chan = ChProc nat | ChTicks | ChSleep sleepid | ChLog | ChBuf nat
  | ChRead uint | ChWrite uint | ChInput

datatype procstate = UNUSED | EMBRYO | SLEEPING | RUNNABLE | RUNNING | ZOMBIE

record proc =
  sz :: uint
  pgdir :: uint
  kstack :: uint
  pstate :: procstate
  pid :: int
  parent :: "nat option"
  tf :: uint
  pcontext :: uint
  chan :: "chan option"
  killed :: bool
  ofile :: "nat option list"
  cwd :: "nat option"
  pname :: "uchar list"

record pst = vst +
  locks :: "lockid \<Rightarrow> spinlock"
  procs :: "proc list"
  initproc :: "nat option"
  nextpid :: int
  trapret :: uint
  forkret_addr :: uint

abbreviation NPROC :: nat where "NPROC \<equiv> 64"
abbreviation NOFILE :: nat where "NOFILE \<equiv> 16"

definition upd_proc :: "nat \<Rightarrow> (proc \<Rightarrow> proc) \<Rightarrow> 'a pst_scheme \<Rightarrow> 'a pst_scheme" where
  "upd_proc p f s = s\<lparr>procs := (procs s)[p := f (procs s ! p)]\<rparr>"

definition acquire_at :: "lockid \<Rightarrow> 'a pst_scheme \<Rightarrow> 'a pst_scheme outcome" where
  "acquire_at l s = andthen (acquire (locks s l) s) (\<lambda>(k, s). Ret (s\<lparr>locks := (locks s)(l := k)\<rparr>))"

definition release_at :: "lockid \<Rightarrow> 'a pst_scheme \<Rightarrow> 'a pst_scheme outcome" where
  "release_at l s = andthen (release (locks s l) s) (\<lambda>(k, s). Ret (s\<lparr>locks := (locks s)(l := k)\<rparr>))"

section \<open>The process table\<close>

definition pinit :: "'a pst_scheme \<Rightarrow> 'a pst_scheme" where
  "pinit s = s\<lparr>locks := (locks s)(PtableLock := initlock ''ptable'')\<rparr>"

definition myproc :: "'a hw_scheme \<Rightarrow> (nat option \<times> 'a hw_scheme) outcome" where
  "myproc s =
     andthen (pushcli s) (\<lambda>s.
     andthen (mycpu s) (\<lambda>c.
     let p = cproc (cpus s ! c) in
     andthen (popcli s) (\<lambda>s. Ret (p, s))))"

text \<open>\<open>curproc\<close> is \<open>myproc()\<close> followed by a use of the pointer: without a process it is a null dereference.\<close>

definition curproc :: "'a hw_scheme \<Rightarrow> (nat \<times> 'a hw_scheme) outcome" where
  "curproc s = andthen (myproc s) (\<lambda>(p, s). case p of None \<Rightarrow> Undef ''no current process'' | Some p \<Rightarrow> Ret (p, s))"

text \<open>The first process from index \<open>i\<close> on that satisfies a test: the loop over \<open>ptable.proc\<close>.\<close>

fun find_proc :: "(proc \<Rightarrow> bool) \<Rightarrow> proc list \<Rightarrow> nat \<Rightarrow> nat option" where
  "find_proc t [] i = None"
| "find_proc t (p # ps) i = (if t p then Some i else find_proc t ps (Suc i))"

definition sizeof_trapframe :: uint where
  "sizeof_trapframe = 76"

definition sizeof_context :: uint where
  "sizeof_context = 20"

text \<open>Byte offsets in \<open>struct trapframe\<close> and \<open>struct context\<close>.\<close>

definition tf_eax :: uint where "tf_eax = 28"
definition tf_es :: uint where "tf_es = 40"
definition tf_ds :: uint where "tf_ds = 44"
definition tf_trapno :: uint where "tf_trapno = 48"
definition tf_err :: uint where "tf_err = 52"
definition tf_eip :: uint where "tf_eip = 56"
definition tf_cs :: uint where "tf_cs = 60"
definition tf_eflags :: uint where "tf_eflags = 64"
definition tf_esp :: uint where "tf_esp = 68"
definition tf_ss :: uint where "tf_ss = 72"
definition ctx_eip :: uint where "ctx_eip = 16"

text \<open>The process identifier is a signed integer; counting past the largest one is undefined.\<close>

definition allocproc :: "'a pst_scheme \<Rightarrow> (nat option \<times> 'a pst_scheme) outcome" where
  "allocproc s =
     andthen (acquire_at PtableLock s) (\<lambda>s.
     case find_proc (\<lambda>p. pstate p = UNUSED) (procs s) 0 of
       None \<Rightarrow> andthen (release_at PtableLock s) (\<lambda>s. Ret (None, s))
     | Some p \<Rightarrow>
         if nextpid s \<ge> 2 ^ 31 - 1 then Undef ''overflow of nextpid''
         else
         let s = upd_proc p (\<lambda>q. q\<lparr>pstate := EMBRYO\<rparr>) s;
             s = upd_proc p (\<lambda>q. q\<lparr>pid := nextpid s\<rparr>) s;
             s = s\<lparr>nextpid := nextpid s + 1\<rparr> in
         andthen (release_at PtableLock s) (\<lambda>s.
         andthen (kalloc s) (\<lambda>(k, s).
         let s = upd_proc p (\<lambda>q. q\<lparr>kstack := k\<rparr>) s in
         if k = 0 then Ret (None, upd_proc p (\<lambda>q. q\<lparr>pstate := UNUSED\<rparr>) s)
         else
           let sp = k + KSTACKSIZE;
               sp = sp - sizeof_trapframe;
               s = upd_proc p (\<lambda>q. q\<lparr>tf := sp\<rparr>) s;
               sp = sp - 4;
               s = s\<lparr>mem := st32 (mem s) sp (trapret s)\<rparr>;
               sp = sp - sizeof_context;
               s = upd_proc p (\<lambda>q. q\<lparr>pcontext := sp\<rparr>) s;
               s = s\<lparr>mem := memset (mem s) sp 0 sizeof_context\<rparr>;
               s = s\<lparr>mem := st32 (mem s) (sp + ctx_eip) (forkret_addr s)\<rparr> in
           Ret (Some p, s))))"

text \<open>
  \<open>growproc\<close>: \<open>sz + n\<close> is computed in unsigned arithmetic.
\<close>

definition growproc :: "int \<Rightarrow> 'a pst_scheme \<Rightarrow> (int \<times> 'a pst_scheme) outcome" where
  "growproc n s =
     andthen (curproc s) (\<lambda>(p, s).
     let z = sz (procs s ! p); d = pgdir (procs s ! p);
         finish = (\<lambda>(z, s).
           let s = upd_proc p (\<lambda>q. q\<lparr>sz := z\<rparr>) s in
           andthen (switchuvm (Some (kstack (procs s ! p), pgdir (procs s ! p))) s) (\<lambda>s. Ret (0, s))) in
     if n > 0 then
       andthen (allocuvm d z (z + of_int n) s) (\<lambda>(z, s). if z = 0 then Ret (-1, s) else finish (z, s))
     else if n < 0 then
       andthen (deallocuvm d z (z + of_int n) s) (\<lambda>(z, s). if z = 0 then Ret (-1, s) else finish (z, s))
     else finish (z, s))"

section \<open>Switching between processes\<close>

text \<open>
  \<open>sched\<close> up to its call of \<open>swtch\<close>, with the interrupt state it keeps on the process's own stack,
  and the rest, which runs when the scheduler switches back, possibly on another CPU.
\<close>

definition sched_enter :: "'a pst_scheme \<Rightarrow> (bool \<times> 'a pst_scheme) outcome" where
  "sched_enter s =
     andthen (myproc s) (\<lambda>(p, s).
     andthen (holding (locks s PtableLock) s) (\<lambda>(h, s).
     if \<not> h then Panic ''sched ptable.lock''
     else andthen (mycpu s) (\<lambda>c.
     if ncli (cpus s ! c) \<noteq> 1 then Panic ''sched locks''
     else case p of
       None \<Rightarrow> Undef ''no current process''
     | Some p \<Rightarrow>
         if pstate (procs s ! p) = RUNNING then Panic ''sched running''
         else if ifl s then Panic ''sched interruptible''
         else Ret (intena (cpus s ! c), s))))"

definition sched_return :: "bool \<Rightarrow> 'a hw_scheme \<Rightarrow> 'a hw_scheme outcome" where
  "sched_return ie s = andthen (mycpu s) (\<lambda>c. Ret (upd_cpu c (\<lambda>x. x\<lparr>intena := ie\<rparr>) s))"

definition yield_enter :: "'a pst_scheme \<Rightarrow> (bool \<times> 'a pst_scheme) outcome" where
  "yield_enter s =
     andthen (acquire_at PtableLock s) (\<lambda>s.
     andthen (curproc s) (\<lambda>(p, s).
     sched_enter (upd_proc p (\<lambda>q. q\<lparr>pstate := RUNNABLE\<rparr>) s)))"

definition yield_return :: "bool \<Rightarrow> 'a pst_scheme \<Rightarrow> 'a pst_scheme outcome" where
  "yield_return ie s = andthen (sched_return ie s) (release_at PtableLock)"

definition sleep_enter :: "chan \<Rightarrow> lockid option \<Rightarrow> 'a pst_scheme \<Rightarrow> (bool \<times> 'a pst_scheme) outcome" where
  "sleep_enter ch lkp s =
     andthen (myproc s) (\<lambda>(p, s).
     case p of
       None \<Rightarrow> Panic ''sleep''
     | Some p \<Rightarrow>
        (case lkp of
           None \<Rightarrow> Panic ''sleep without lk''
         | Some l \<Rightarrow>
             andthen (if l \<noteq> PtableLock then andthen (acquire_at PtableLock s) (release_at l) else Ret s) (\<lambda>s.
             let s = upd_proc p (\<lambda>q. q\<lparr>chan := Some ch\<rparr>) s;
                 s = upd_proc p (\<lambda>q. q\<lparr>pstate := SLEEPING\<rparr>) s in
             sched_enter s)))"

definition sleep_return :: "nat \<Rightarrow> lockid \<Rightarrow> bool \<Rightarrow> 'a pst_scheme \<Rightarrow> 'a pst_scheme outcome" where
  "sleep_return p l ie s =
     andthen (sched_return ie s) (\<lambda>s.
     let s = upd_proc p (\<lambda>q. q\<lparr>chan := None\<rparr>) s in
     if l \<noteq> PtableLock then andthen (release_at PtableLock s) (acquire_at l) else Ret s)"

text \<open>
  \<open>sleep\<close> as its caller sees it while nothing else runs: after the switch the caller waits for
  another process or a device.
\<close>

definition sleep :: "chan \<Rightarrow> lockid option \<Rightarrow> 'a pst_scheme \<Rightarrow> 'a pst_scheme outcome" where
  "sleep ch lkp s = andthen (sleep_enter ch lkp s) (\<lambda>_. Diverge)"

definition wakeup1 :: "chan \<Rightarrow> 'a pst_scheme \<Rightarrow> 'a pst_scheme" where
  "wakeup1 ch s = s\<lparr>procs := map (\<lambda>p. if pstate p = SLEEPING \<and> chan p = Some ch
       then p\<lparr>pstate := RUNNABLE\<rparr> else p) (procs s)\<rparr>"

definition wakeup :: "chan \<Rightarrow> 'a pst_scheme \<Rightarrow> 'a pst_scheme outcome" where
  "wakeup ch s = andthen (acquire_at PtableLock s) (\<lambda>s. release_at PtableLock (wakeup1 ch s))"

text \<open>
  \<open>kill\<close> takes the first entry with the given identifier, whatever its state.
\<close>

definition kill :: "int \<Rightarrow> 'a pst_scheme \<Rightarrow> (int \<times> 'a pst_scheme) outcome" where
  "kill i s =
     andthen (acquire_at PtableLock s) (\<lambda>s.
     case find_proc (\<lambda>p. pid p = i) (procs s) 0 of
       Some p \<Rightarrow>
         let s = upd_proc p (\<lambda>q. q\<lparr>killed := True\<rparr>) s;
             s = (if pstate (procs s ! p) = SLEEPING then upd_proc p (\<lambda>q. q\<lparr>pstate := RUNNABLE\<rparr>) s else s) in
         andthen (release_at PtableLock s) (\<lambda>s. Ret (0, s))
     | None \<Rightarrow> andthen (release_at PtableLock s) (\<lambda>s. Ret (-1, s)))"

text \<open>
  One round of \<open>scheduler\<close> with the lock held, from table position \<open>i\<close>: either it reaches \<open>swtch\<close>
  with the process it chose, or it gives the lock back at the end of the table.
\<close>

function scheduler_round :: "nat \<Rightarrow> nat \<Rightarrow> 'a pst_scheme \<Rightarrow> (nat option \<times> 'a pst_scheme) outcome" where
  "scheduler_round c p s =
     (if p < length (procs s) then
        if pstate (procs s ! p) \<noteq> RUNNABLE then scheduler_round c (Suc p) s
        else
          let s = upd_cpu c (\<lambda>x. x\<lparr>cproc := Some p\<rparr>) s in
          andthen (switchuvm (Some (kstack (procs s ! p), pgdir (procs s ! p))) s) (\<lambda>s.
          let s = upd_proc p (\<lambda>q. q\<lparr>pstate := RUNNING\<rparr>) s in
          Ret (Some p, s))
      else andthen (release_at PtableLock s) (\<lambda>s. Ret (None, s)))"
  by pat_completeness auto

termination scheduler_round
  by (relation "measure (\<lambda>(c, p, s). length (procs s) - p)") auto

definition scheduler_start :: "'a pst_scheme \<Rightarrow> (nat \<times> 'a pst_scheme) outcome" where
  "scheduler_start s =
     andthen (mycpu s) (\<lambda>c. Ret (c, upd_cpu c (\<lambda>x. x\<lparr>cproc := None\<rparr>) s))"

definition scheduler_loop :: "nat \<Rightarrow> 'a pst_scheme \<Rightarrow> (nat option \<times> 'a pst_scheme) outcome" where
  "scheduler_loop c s =
     (let s = s\<lparr>ifl := True\<rparr> in
      andthen (acquire_at PtableLock s) (scheduler_round c 0))"

definition scheduler_resume :: "nat \<Rightarrow> nat \<Rightarrow> 'a pst_scheme \<Rightarrow> (nat option \<times> 'a pst_scheme) outcome" where
  "scheduler_resume c p s =
     (let s = switchkvm s;
          s = upd_cpu c (\<lambda>x. x\<lparr>cproc := None\<rparr>) s in
      scheduler_round c (Suc p) s)"

section \<open>Waiting for a child\<close>

text \<open>
  The scan of \<open>wait\<close>: the first zombie child is taken down and its identifier returned; otherwise
  the scan tells whether there is a child at all.
\<close>

definition wait_reap :: "nat \<Rightarrow> 'a pst_scheme \<Rightarrow> (int \<times> 'a pst_scheme) outcome" where
  "wait_reap p s =
     (let i = pid (procs s ! p) in
      andthen (kfree (kstack (procs s ! p)) s) (\<lambda>s.
      let s = upd_proc p (\<lambda>q. q\<lparr>kstack := 0\<rparr>) s in
      andthen (freevm (pgdir (procs s ! p)) s) (\<lambda>s.
      let s = upd_proc p (\<lambda>q. q\<lparr>pid := 0\<rparr>) s;
          s = upd_proc p (\<lambda>q. q\<lparr>parent := None\<rparr>) s;
          s = upd_proc p (\<lambda>q. q\<lparr>pname := (pname q)[0 := 0]\<rparr>) s;
          s = upd_proc p (\<lambda>q. q\<lparr>killed := False\<rparr>) s;
          s = upd_proc p (\<lambda>q. q\<lparr>pstate := UNUSED\<rparr>) s in
      andthen (release_at PtableLock s) (\<lambda>s. Ret (i, s)))))"

text \<open>
  One pass of the loop of \<open>wait\<close> with the lock held: \<open>Some r\<close> when it returns \<open>r\<close>, \<open>None\<close> when it
  has to sleep.
\<close>

definition wait_scan :: "nat \<Rightarrow> 'a pst_scheme \<Rightarrow> (int option \<times> 'a pst_scheme) outcome" where
  "wait_scan cur s =
     (case find_proc (\<lambda>p. parent p = Some cur \<and> pstate p = ZOMBIE) (procs s) 0 of
        Some p \<Rightarrow> andthen (wait_reap p s) (\<lambda>(i, s). Ret (Some i, s))
      | None \<Rightarrow>
          if find_proc (\<lambda>p. parent p = Some cur) (procs s) 0 = None \<or> killed (procs s ! cur)
          then andthen (release_at PtableLock s) (\<lambda>s. Ret (Some (-1), s))
          else Ret (None, s))"

definition wait :: "'a pst_scheme \<Rightarrow> (int \<times> 'a pst_scheme) outcome" where
  "wait s =
     andthen (curproc s) (\<lambda>(cur, s).
     andthen (acquire_at PtableLock s) (\<lambda>s.
     andthen (wait_scan cur s) (\<lambda>(r, s).
     case r of
       Some i \<Rightarrow> Ret (i, s)
     | None \<Rightarrow> andthen (sleep (ChProc cur) (Some PtableLock) s) (\<lambda>_. Diverge))))"

section \<open>Sections under a spin lock\<close>

text \<open>
  What a CPU's view says, as functions of the four fields it depends on, so that the fields added
  by the later states drop out by simplification: whether the CPU knows itself, which CPU it is,
  its process, and the table of CPUs inside and after a matched pair of \<open>pushcli\<close> and \<open>popcli\<close>.
\<close>

definition ok_at :: "cpu list \<Rightarrow> nat \<Rightarrow> uchar \<Rightarrow> bool \<Rightarrow> bool" where
  "ok_at cs n a b = hw_ok \<lparr>cpus = cs, ncpu = n, lapicid = a, ifl = b, cr3 = 0\<rparr>"

definition here_at :: "cpu list \<Rightarrow> nat \<Rightarrow> uchar \<Rightarrow> nat" where
  "here_at cs n a = here \<lparr>cpus = cs, ncpu = n, lapicid = a, ifl = False, cr3 = 0\<rparr>"

definition depth_at :: "cpu list \<Rightarrow> nat \<Rightarrow> uchar \<Rightarrow> int" where
  "depth_at cs n a = depth \<lparr>cpus = cs, ncpu = n, lapicid = a, ifl = False, cr3 = 0\<rparr>"

definition me_at :: "cpu list \<Rightarrow> nat \<Rightarrow> uchar \<Rightarrow> nat option" where
  "me_at cs n a = cproc (cs ! here_at cs n a)"

definition rested :: "cpu list \<Rightarrow> nat \<Rightarrow> uchar \<Rightarrow> bool \<Rightarrow> cpu list" where
  "rested cs n a b = cpus (settle \<lparr>cpus = cs, ncpu = n, lapicid = a, ifl = b, cr3 = 0\<rparr>)"

definition busied :: "cpu list \<Rightarrow> nat \<Rightarrow> uchar \<Rightarrow> bool \<Rightarrow> cpu list" where
  "busied cs n a b = cpus (cli_in \<lparr>cpus = cs, ncpu = n, lapicid = a, ifl = b, cr3 = 0\<rparr>)"

lemma hw_at:
  "hw_ok s = ok_at (cpus s) (ncpu s) (lapicid s) (ifl s)"
  "here s = here_at (cpus s) (ncpu s) (lapicid s)"
  "depth s = depth_at (cpus s) (ncpu s) (lapicid s)"
  "settle s = s\<lparr>cpus := rested (cpus s) (ncpu s) (lapicid s) (ifl s)\<rparr>"
  "cli_in s = s\<lparr>cpus := busied (cpus s) (ncpu s) (lapicid s) (ifl s), ifl := False\<rparr>"
  by (simp_all add: ok_at_def here_at_def depth_at_def rested_def busied_def hw_ok_def here_def depth_def
      cur_cpu_def settle_def cli_in_def upd_cpu_def split: option.split)

lemma hw_at_rested [simp]:
  assumes "ok_at cs n a b"
  shows "ok_at (rested cs n a b) n a b" and "here_at (rested cs n a b) n a = here_at cs n a"
    and "depth_at (rested cs n a b) n a = depth_at cs n a" and "me_at (rested cs n a b) n a = me_at cs n a"
    and "rested (rested cs n a b) n a b = rested cs n a b"
proof -
  let ?s = "\<lparr>cpus = cs, ncpu = n, lapicid = a, ifl = b, cr3 = 0\<rparr>"
  have ok: "hw_ok ?s" using assms by (simp add: ok_at_def)
  have st: "settle ?s = \<lparr>cpus = rested cs n a b, ncpu = n, lapicid = a, ifl = b, cr3 = 0\<rparr>"
    by (simp add: hw_at(4))
  show "ok_at (rested cs n a b) n a b" 
    using hw_ok_settle [OF ok] by (simp only: st hw_at hw.simps)
  show h: "here_at (rested cs n a b) n a = here_at cs n a"
    using here_settle [of ?s] by (simp only: st hw_at hw.simps)
  show "depth_at (rested cs n a b) n a = depth_at cs n a"
    using depth_settle [OF ok] by (simp only: st hw_at hw.simps)
  have i: "here ?s < length cs" using ok by (auto elim: hw_okE)
  have r: "rested cs n a b = cs[here ?s := save_if b (cs ! here ?s)]"
    by (simp add: rested_def settle_def)
  show "me_at (rested cs n a b) n a = me_at cs n a"
    unfolding me_at_def h using i by (simp add: r hw_at(2))
  have "rested (rested cs n a b) n a b = (rested cs n a b)[here ?s := save_if b (rested cs n a b ! here ?s)]"
    unfolding rested_def [of "rested cs n a b"] settle_def using h by (simp add: hw_at(2))
  also have "\<dots> = rested cs n a b" using i by (simp add: r save_if_def)
  finally show "rested (rested cs n a b) n a b = rested cs n a b" .
qed

lemma hw_at_busied [simp]:
  assumes "ok_at cs n a b"
  shows "ok_at (busied cs n a b) n a False" and "here_at (busied cs n a b) n a = here_at cs n a"
    and "depth_at (busied cs n a b) n a = depth_at cs n a + 1" and "me_at (busied cs n a b) n a = me_at cs n a"
    and "rested (busied cs n a b) n a False = busied cs n a b"
proof -
  let ?s = "\<lparr>cpus = cs, ncpu = n, lapicid = a, ifl = b, cr3 = 0\<rparr>"
  have ok: "hw_ok ?s" using assms by (simp add: ok_at_def)
  have st: "cli_in ?s = \<lparr>cpus = busied cs n a b, ncpu = n, lapicid = a, ifl = False, cr3 = 0\<rparr>"
    by (simp add: hw_at(5))
  show "ok_at (busied cs n a b) n a False" 
    using hw_ok_cli_in [OF ok] by (simp only: st hw_at hw.simps)
  show h: "here_at (busied cs n a b) n a = here_at cs n a"
    using here_cli_in [of ?s] by (simp only: st hw_at hw.simps)
  show d: "depth_at (busied cs n a b) n a = depth_at cs n a + 1"
    using depth_cli_in [OF ok] by (simp only: st hw_at hw.simps)
  have i: "here ?s < length cs" using ok by (auto elim: hw_okE)
  have r: "busied cs n a b = cs[here ?s := (save_if b (cs ! here ?s))\<lparr>ncli := ncli (cs ! here ?s) + 1\<rparr>]"
    by (simp add: busied_def cli_in_def)
  show "me_at (busied cs n a b) n a = me_at cs n a"
    unfolding me_at_def h using i by (simp add: r hw_at(2))
  have "0 < depth (cli_in ?s)" using ok by (auto elim: hw_okE)
  from settle_nested [OF this] show "rested (busied cs n a b) n a False = busied cs n a b"
    by (simp add: st rested_def)
qed

definition taken :: "spinlock \<Rightarrow> nat \<Rightarrow> spinlock" where
  "taken l i = l\<lparr>locked := 1, lcpu := Some i\<rparr>"

lemma taken_free [simp]: "lock_free l \<Longrightarrow> (taken l i)\<lparr>lcpu := None, locked := 0\<rparr> = l"
  by (simp add: taken_def lock_free_def)

text \<open>
  Taking a free lock and giving it back, with anything in between that leaves the CPU's view and
  that lock alone.
\<close>

lemma acquire_at_free:
  assumes "ok_at (cpus s) (ncpu s) (lapicid s) (ifl s)" and "lock_free (locks s l)"
  shows "acquire_at l s = Ret (s\<lparr>cpus := busied (cpus s) (ncpu s) (lapicid s) (ifl s), ifl := False,
     locks := (locks s)(l := taken (locks s l) (here_at (cpus s) (ncpu s) (lapicid s)))\<rparr>)"
  using assms by (simp add: acquire_at_def acquire_free hw_at lock_free_def taken_def)

lemma release_at_taken:
  assumes ok: "ok_at cs (ncpu t) (lapicid t) b" and "cpus t = busied cs (ncpu t) (lapicid t) b" and "\<not> ifl t"
    and "lock_free k" and "locks t l = taken k (here_at cs (ncpu t) (lapicid t))"
  shows "release_at l t = Ret (t\<lparr>cpus := rested cs (ncpu t) (lapicid t) b, ifl := b, locks := (locks t)(l := k)\<rparr>)"
proof -
  let ?s = "t\<lparr>cpus := cs, ifl := b\<rparr>"
  have s: "hw_ok ?s" using ok by (simp add: hw_at)
  have t: "cli_in ?s = t" using assms(2,3) by (simp add: hw_at(5))
  have "popcli t = Ret (t\<lparr>cpus := rested cs (ncpu t) (lapicid t) b, ifl := b\<rparr>)"
    using popcli_cli_in [OF s] unfolding t by (simp add: hw_at(4))
  moreover have "hw_ok t" using hw_ok_cli_in [OF s] unfolding t .
  moreover have "0 < depth t" using depth_cli_in [OF s] s unfolding t by (auto elim: hw_okE)
  moreover have "here t = here_at cs (ncpu t) (lapicid t)"
    using ok assms(2) by (simp add: hw_at(2))
  moreover have "k\<lparr>lcpu := None, locked := 0\<rparr> = k"
    using assms(4) by (cases k) (simp add: lock_free_def)
  ultimately have "release (locks t l) t = Ret (k, t\<lparr>cpus := rested cs (ncpu t) (lapicid t) b, ifl := b\<rparr>)"
    using assms(5) by (subst release_held) (simp_all add: taken_def)
  then show ?thesis by (simp add: release_at_def)
qed

lemma curproc_at:
  assumes "ok_at (cpus s) (ncpu s) (lapicid s) (ifl s)" and "me_at (cpus s) (ncpu s) (lapicid s) = Some p"
  shows "curproc s = Ret (p, s\<lparr>cpus := rested (cpus s) (ncpu s) (lapicid s) (ifl s)\<rparr>)"
proof -
  have ok: "hw_ok s" using assms(1) by (simp add: hw_at)
  have "mycpu (cli_in s) = Ret (here s)"
    using ok by (auto elim!: hw_okE simp: mycpu_off)
  moreover have "cproc (cpus (cli_in s) ! here s) = Some p"
  proof -
    have "me_at (busied (cpus s) (ncpu s) (lapicid s) (ifl s)) (ncpu s) (lapicid s) = Some p"
      using assms by simp
    then show ?thesis using assms(1) by (simp add: me_at_def hw_at)
  qed
  ultimately show ?thesis
    using ok by (simp add: curproc_def myproc_def pushcli_eq popcli_cli_in) (simp add: hw_at)
qed

definition woken :: "chan \<Rightarrow> proc list \<Rightarrow> proc list" where
  "woken ch ps = map (\<lambda>p. if pstate p = SLEEPING \<and> chan p = Some ch then p\<lparr>pstate := RUNNABLE\<rparr> else p) ps"

lemma wakeup_at:
  assumes "ok_at (cpus s) (ncpu s) (lapicid s) (ifl s)" and "lock_free (locks s PtableLock)"
  shows "wakeup ch s = Ret (s\<lparr>cpus := rested (cpus s) (ncpu s) (lapicid s) (ifl s), procs := woken ch (procs s)\<rparr>)"
proof -
  let ?t = "s\<lparr>cpus := busied (cpus s) (ncpu s) (lapicid s) (ifl s), ifl := False,
     locks := (locks s)(PtableLock := taken (locks s PtableLock) (here_at (cpus s) (ncpu s) (lapicid s))),
     procs := woken ch (procs s)\<rparr>"
  have "release_at PtableLock ?t = Ret (?t\<lparr>cpus := rested (cpus s) (ncpu s) (lapicid s) (ifl s), ifl := ifl s,
    locks := (locks ?t)(PtableLock := locks s PtableLock)\<rparr>)"
    by (subst release_at_taken [where cs = "cpus s" and b = "ifl s" and k = "locks s PtableLock"]) (use assms in simp_all)
  then show ?thesis using assms by (simp add: wakeup_def acquire_at_free wakeup1_def woken_def)
qed

end
