(* ===== verification/Sleeplock.thy ===== *)
theory Sleeplock
  imports Proc
begin

text \<open>
  Sleep locks, \<^verbatim>\<open>sleeplock.c\<close>.  The state \<open>sst\<close> extends the process state with the sleep locks of the
  buffers and of the cached inodes; the spin lock inside a sleep lock is one of the kernel's spin
  locks.
\<close>

section \<open>State and operations\<close>

record sleeplock =
  slocked :: uint
  sname :: string
  spid :: int

record sst = pst +
  slocks :: "sleepid \<Rightarrow> sleeplock"

definition initsleeplock :: "sleepid \<Rightarrow> string \<Rightarrow> 'a sst_scheme \<Rightarrow> 'a sst_scheme" where
  "initsleeplock l name s =
     (let s = s\<lparr>locks := (locks s)(SleepSpin l := initlock ''sleep lock'')\<rparr> in
      s\<lparr>slocks := (slocks s)(l := \<lparr>slocked = 0, sname = name, spid = 0\<rparr>)\<rparr>)"

text \<open>
  A caller that finds the lock taken goes to sleep; it is woken by \<open>releasesleep\<close> of another
  process and tests again.
\<close>

definition acquiresleep :: "sleepid \<Rightarrow> 'a sst_scheme \<Rightarrow> 'a sst_scheme outcome" where
  "acquiresleep l s =
     andthen (acquire_at (SleepSpin l) s) (\<lambda>s.
     if slocked (slocks s l) \<noteq> 0 then sleep (ChSleep l) (Some (SleepSpin l)) s
     else
       let s = s\<lparr>slocks := (slocks s)(l := (slocks s l)\<lparr>slocked := 1\<rparr>)\<rparr> in
       andthen (curproc s) (\<lambda>(p, s).
       let s = s\<lparr>slocks := (slocks s)(l := (slocks s l)\<lparr>spid := pid (procs s ! p)\<rparr>)\<rparr> in
       release_at (SleepSpin l) s))"

definition releasesleep :: "sleepid \<Rightarrow> 'a sst_scheme \<Rightarrow> 'a sst_scheme outcome" where
  "releasesleep l s =
     andthen (acquire_at (SleepSpin l) s) (\<lambda>s.
     let s = s\<lparr>slocks := (slocks s)(l := (slocks s l)\<lparr>slocked := 0\<rparr>)\<rparr>;
         s = s\<lparr>slocks := (slocks s)(l := (slocks s l)\<lparr>spid := 0\<rparr>)\<rparr> in
     andthen (wakeup (ChSleep l) s) (release_at (SleepSpin l)))"

definition holdingsleep :: "sleepid \<Rightarrow> 'a sst_scheme \<Rightarrow> (bool \<times> 'a sst_scheme) outcome" where
  "holdingsleep l s =
     andthen (acquire_at (SleepSpin l) s) (\<lambda>s.
     andthen (if slocked (slocks s l) \<noteq> 0
              then andthen (curproc s) (\<lambda>(p, s). Ret (spid (slocks s l) = pid (procs s ! p), s))
              else Ret (False, s)) (\<lambda>(r, s).
     andthen (release_at (SleepSpin l) s) (\<lambda>s. Ret (r, s))))"

section \<open>Taking and giving back\<close>

text \<open>Sleep locks of a process that does not have to wait.\<close>

lemma acquiresleep_at:
  assumes "ok_at (cpus s) (ncpu s) (lapicid s) (ifl s)" and "me_at (cpus s) (ncpu s) (lapicid s) = Some p"
    and "lock_free (locks s (SleepSpin l))" and "slocked (slocks s l) = 0"
  shows "acquiresleep l s = Ret (s\<lparr>cpus := rested (cpus s) (ncpu s) (lapicid s) (ifl s),
    slocks := (slocks s)(l := (slocks s l)\<lparr>slocked := 1, spid := pid (procs s ! p)\<rparr>)\<rparr>)"
  using assms
  by (simp add: acquiresleep_def acquire_at_free curproc_at Let_def
      release_at_taken [where cs = "cpus s" and b = "ifl s" and k = "locks s (SleepSpin l)"])

lemma releasesleep_at:
  assumes "ok_at (cpus s) (ncpu s) (lapicid s) (ifl s)"
    and "lock_free (locks s (SleepSpin l))" and "lock_free (locks s PtableLock)"
  shows "releasesleep l s = Ret (s\<lparr>cpus := rested (cpus s) (ncpu s) (lapicid s) (ifl s),
    slocks := (slocks s)(l := (slocks s l)\<lparr>slocked := 0, spid := 0\<rparr>), procs := woken (ChSleep l) (procs s)\<rparr>)"
  using assms
  by (simp add: releasesleep_def acquire_at_free wakeup_at Let_def
      release_at_taken [where cs = "cpus s" and b = "ifl s" and k = "locks s (SleepSpin l)"])

lemma holdingsleep_at:
  assumes "ok_at (cpus s) (ncpu s) (lapicid s) (ifl s)" and "me_at (cpus s) (ncpu s) (lapicid s) = Some p"
    and "lock_free (locks s (SleepSpin l))"
  shows "holdingsleep l s = Ret (slocked (slocks s l) \<noteq> 0 \<and> spid (slocks s l) = pid (procs s ! p),
    s\<lparr>cpus := rested (cpus s) (ncpu s) (lapicid s) (ifl s)\<rparr>)"
  using assms
  by (simp add: holdingsleep_def acquire_at_free curproc_at Let_def
      release_at_taken [where cs = "cpus s" and b = "ifl s" and k = "locks s (SleepSpin l)"])
end
