(* ===== verification/Bio.thy ===== *)
theory Bio
  imports Sleeplock
begin

text \<open>
  The buffer cache, \<^verbatim>\<open>bio.c\<close>, and the disk that keeps its blocks in memory, \<^verbatim>\<open>memide.c\<close>.  The state \<open>bst\<close>
  adds the buffers, linked through \<open>bprev\<close> and \<open>bnext\<close> by index; the entry after the last buffer is
  \<open>bcache.head\<close>.  The disk is the list of its blocks.  \<open>dwrites\<close> is the history of the writes that
  reached the disk; no operation reads it, and it serves to describe crashes.
\<close>

unbundle bit_operations_syntax

section \<open>State\<close>

abbreviation BSIZE :: nat where "BSIZE \<equiv> 512"
abbreviation NBUF :: nat where "NBUF \<equiv> 30"
abbreviation bhead :: nat where "bhead \<equiv> NBUF"

definition B_VALID :: uint where "B_VALID = 0x2"
definition B_DIRTY :: uint where "B_DIRTY = 0x4"

record buf =
  flags :: uint
  bdev :: uint
  blockno :: uint
  refcnt :: uint
  bprev :: nat
  bnext :: nat
  qnext :: "nat option"
  data :: "uchar list"

record bst = sst +
  bufs :: "buf list"
  disk :: "uchar list list"
  dwrites :: "(uint \<times> uchar list) list"

definition upd_buf :: "nat \<Rightarrow> (buf \<Rightarrow> buf) \<Rightarrow> 'a bst_scheme \<Rightarrow> 'a bst_scheme" where
  "upd_buf b f s = s\<lparr>bufs := (bufs s)[b := f (bufs s ! b)]\<rparr>"

section \<open>The disk in memory\<close>

text \<open>The image is cut into whole blocks; a partial block at its end is not part of the disk.\<close>

fun blocks_of :: "nat \<Rightarrow> uchar list \<Rightarrow> uchar list list" where
  "blocks_of 0 img = []"
| "blocks_of (Suc n) img = take BSIZE img # blocks_of n (drop BSIZE img)"

definition ideinit :: "uchar list \<Rightarrow> 'a bst_scheme \<Rightarrow> 'a bst_scheme" where
  "ideinit img s = s\<lparr>disk := blocks_of (length img div BSIZE) img\<rparr>"

definition iderw :: "nat \<Rightarrow> 'a bst_scheme \<Rightarrow> 'a bst_scheme outcome" where
  "iderw b s =
     andthen (holdingsleep (BufSleep b) s) (\<lambda>(h, s).
     if \<not> h then Panic ''iderw: buf not locked''
     else if flags (bufs s ! b) AND (B_VALID OR B_DIRTY) = B_VALID then Panic ''iderw: nothing to do''
     else if bdev (bufs s ! b) \<noteq> 1 then Panic ''iderw: request not for disk 1''
     else if unat (blockno (bufs s ! b)) \<ge> length (disk s) then Panic ''iderw: block out of range''
     else
       let p = unat (blockno (bufs s ! b));
           s = (if flags (bufs s ! b) AND B_DIRTY \<noteq> 0 then
                  let s = upd_buf b (\<lambda>x. x\<lparr>flags := flags x AND NOT B_DIRTY\<rparr>) s in
                  s\<lparr>disk := (disk s)[p := data (bufs s ! b)],
                    dwrites := dwrites s @ [(blockno (bufs s ! b), data (bufs s ! b))]\<rparr>
                else upd_buf b (\<lambda>x. x\<lparr>data := disk s ! p\<rparr>) s) in
       Ret (upd_buf b (\<lambda>x. x\<lparr>flags := flags x OR B_VALID\<rparr>) s))"

section \<open>The cache\<close>

text \<open>\<open>binit\<close> puts every buffer at the head of the list in turn.\<close>

definition binit_one :: "nat \<Rightarrow> 'a bst_scheme \<Rightarrow> 'a bst_scheme" where
  "binit_one b s =
     (let s = upd_buf b (\<lambda>x. x\<lparr>bnext := bnext (bufs s ! bhead)\<rparr>) s;
          s = upd_buf b (\<lambda>x. x\<lparr>bprev := bhead\<rparr>) s;
          s = initsleeplock (BufSleep b) ''buffer'' s;
          s = upd_buf (bnext (bufs s ! bhead)) (\<lambda>x. x\<lparr>bprev := b\<rparr>) s in
      upd_buf bhead (\<lambda>x. x\<lparr>bnext := b\<rparr>) s)"

definition binit :: "'a bst_scheme \<Rightarrow> 'a bst_scheme" where
  "binit s =
     (let s = s\<lparr>locks := (locks s)(BcacheLock := initlock ''bcache'')\<rparr>;
          s = upd_buf bhead (\<lambda>x. x\<lparr>bprev := bhead\<rparr>) s;
          s = upd_buf bhead (\<lambda>x. x\<lparr>bnext := bhead\<rparr>) s in
      fold binit_one [0..<NBUF] s)"

text \<open>
  The two searches of \<open>bget\<close> from buffer \<open>b\<close> on, forwards for the block and backwards for a buffer
  to recycle, until the head.  The first argument bounds the nodes visited; a list of \<open>NBUF\<close> buffers
  and the head needs one more than \<open>NBUF\<close>.
\<close>

fun bget_cached :: "nat \<Rightarrow> buf list \<Rightarrow> uint \<Rightarrow> uint \<Rightarrow> nat \<Rightarrow> nat option outcome" where
  "bget_cached 0 bs dev bno b = Diverge"
| "bget_cached (Suc fuel) bs dev bno b =
     (if b = bhead then Ret None
      else if bdev (bs ! b) = dev \<and> blockno (bs ! b) = bno then Ret (Some b)
      else bget_cached fuel bs dev bno (bnext (bs ! b)))"

fun bget_victim :: "nat \<Rightarrow> buf list \<Rightarrow> nat \<Rightarrow> nat option outcome" where
  "bget_victim 0 bs b = Diverge"
| "bget_victim (Suc fuel) bs b =
     (if b = bhead then Ret None
      else if refcnt (bs ! b) = 0 \<and> flags (bs ! b) AND B_DIRTY = 0 then Ret (Some b)
      else bget_victim fuel bs (bprev (bs ! b)))"

definition bget :: "uint \<Rightarrow> uint \<Rightarrow> 'a bst_scheme \<Rightarrow> (nat \<times> 'a bst_scheme) outcome" where
  "bget dev bno s =
     andthen (acquire_at BcacheLock s) (\<lambda>s.
     andthen (bget_cached (Suc NBUF) (bufs s) dev bno (bnext (bufs s ! bhead))) (\<lambda>r.
     case r of
       Some b \<Rightarrow>
         let s = upd_buf b (\<lambda>x. x\<lparr>refcnt := refcnt x + 1\<rparr>) s in
         andthen (release_at BcacheLock s) (\<lambda>s.
         andthen (acquiresleep (BufSleep b) s) (\<lambda>s. Ret (b, s)))
     | None \<Rightarrow>
         andthen (bget_victim (Suc NBUF) (bufs s) (bprev (bufs s ! bhead))) (\<lambda>r.
         case r of
           Some b \<Rightarrow>
             let s = upd_buf b (\<lambda>x. x\<lparr>bdev := dev, blockno := bno, flags := 0, refcnt := 1\<rparr>) s in
             andthen (release_at BcacheLock s) (\<lambda>s.
             andthen (acquiresleep (BufSleep b) s) (\<lambda>s. Ret (b, s)))
         | None \<Rightarrow> Panic ''bget: no buffers'')))"

definition bread :: "uint \<Rightarrow> uint \<Rightarrow> 'a bst_scheme \<Rightarrow> (nat \<times> 'a bst_scheme) outcome" where
  "bread dev bno s =
     andthen (bget dev bno s) (\<lambda>(b, s).
     if flags (bufs s ! b) AND B_VALID = 0 then andthen (iderw b s) (\<lambda>s. Ret (b, s))
     else Ret (b, s))"

definition bwrite :: "nat \<Rightarrow> 'a bst_scheme \<Rightarrow> 'a bst_scheme outcome" where
  "bwrite b s =
     andthen (holdingsleep (BufSleep b) s) (\<lambda>(h, s).
     if \<not> h then Panic ''bwrite''
     else iderw b (upd_buf b (\<lambda>x. x\<lparr>flags := flags x OR B_DIRTY\<rparr>) s))"

text \<open>\<open>to_front\<close> is the pointer surgery of \<open>brelse\<close>: unlink the buffer, link it behind the head.\<close>

definition to_front :: "nat \<Rightarrow> buf list \<Rightarrow> buf list" where
  "to_front b bs =
     (let bs = bs[bnext (bs ! b) := (bs ! bnext (bs ! b))\<lparr>bprev := bprev (bs ! b)\<rparr>];
          bs = bs[bprev (bs ! b) := (bs ! bprev (bs ! b))\<lparr>bnext := bnext (bs ! b)\<rparr>];
          bs = bs[b := (bs ! b)\<lparr>bnext := bnext (bs ! bhead)\<rparr>];
          bs = bs[b := (bs ! b)\<lparr>bprev := bhead\<rparr>];
          bs = bs[bnext (bs ! bhead) := (bs ! bnext (bs ! bhead))\<lparr>bprev := b\<rparr>] in
      bs[bhead := (bs ! bhead)\<lparr>bnext := b\<rparr>])"

definition brelse :: "nat \<Rightarrow> 'a bst_scheme \<Rightarrow> 'a bst_scheme outcome" where
  "brelse b s =
     andthen (holdingsleep (BufSleep b) s) (\<lambda>(h, s).
     if \<not> h then Panic ''brelse''
     else
       andthen (releasesleep (BufSleep b) s) (\<lambda>s.
       andthen (acquire_at BcacheLock s) (\<lambda>s.
       let s = upd_buf b (\<lambda>x. x\<lparr>refcnt := refcnt x - 1\<rparr>) s;
           s = (if refcnt (bufs s ! b) = 0 then s\<lparr>bufs := to_front b (bufs s)\<rparr> else s) in
       release_at BcacheLock s)))"

section \<open>The list of buffers\<close>

text \<open>
  \<open>ring bs xs\<close>: from the head, \<open>bnext\<close> visits the buffers \<open>xs\<close> in this order and returns to the head,
  and \<open>bprev\<close> visits them in the opposite order.  The first of \<open>xs\<close> is the most recently used.
\<close>

definition adj :: "buf list \<Rightarrow> nat \<Rightarrow> nat \<Rightarrow> bool" where
  "adj bs i j \<longleftrightarrow> bnext (bs ! i) = j \<and> bprev (bs ! j) = i"

definition ring :: "buf list \<Rightarrow> nat list \<Rightarrow> bool" where
  "ring bs xs \<longleftrightarrow> successively (adj bs) (bhead # xs @ [bhead]) \<and> distinct xs \<and> set xs = {..<NBUF}
     \<and> length bs = Suc NBUF"

lemma successively_adj_cong:
  assumes "\<And>i. i \<in> set (butlast xs) \<Longrightarrow> bnext (bs ! i) = bnext (cs ! i)"
    and "\<And>i. i \<in> set (tl xs) \<Longrightarrow> bprev (bs ! i) = bprev (cs ! i)"
  shows "successively (adj bs) xs = successively (adj cs) xs"
  using assms
proof (induction xs rule: induct_list012)
  case (3 x y zs)
  have "successively (adj bs) (y # zs) = successively (adj cs) (y # zs)"
    by (rule 3) (use 3(3,4) in \<open>auto split: if_splits simp: in_set_conv_decomp\<close>)
  then show ?case using 3(3) [of x] 3(4) [of y] by (simp add: adj_def)
qed simp_all

lemma ring_length: "ring bs xs \<Longrightarrow> length xs = NBUF"
  unfolding ring_def by (metis card_lessThan distinct_card)

lemma forward_search:
  "successively (adj bs) (i # xs @ [bhead]) \<Longrightarrow> bhead \<notin> set xs \<Longrightarrow> length xs < fuel \<Longrightarrow>
   bget_cached fuel bs dev bno (bnext (bs ! i)) = Ret (find (\<lambda>b. bdev (bs ! b) = dev \<and> blockno (bs ! b) = bno) xs)"
proof (induction xs arbitrary: i fuel)
  case Nil
  then show ?case by (cases fuel) (auto simp: adj_def)
next
  case (Cons x xs)
  then obtain f where f: "fuel = Suc f" by (cases fuel) auto
  have "bnext (bs ! i) = x" using Cons.prems(1) by (simp add: adj_def)
  moreover have "successively (adj bs) (x # xs @ [bhead])" using Cons.prems(1) by simp
  ultimately show ?case using Cons.IH [of x f] Cons.prems(2,3) f by auto
qed

lemma backward_search:
  "successively (adj bs) (bhead # xs @ [i]) \<Longrightarrow> bhead \<notin> set xs \<Longrightarrow> length xs < fuel \<Longrightarrow>
   bget_victim fuel bs (bprev (bs ! i)) = Ret (find (\<lambda>b. refcnt (bs ! b) = 0 \<and> flags (bs ! b) AND B_DIRTY = 0) (rev xs))"
proof (induction xs arbitrary: i fuel rule: rev_induct)
  case Nil
  then show ?case by (cases fuel) (auto simp: adj_def)
next
  case (snoc x xs)
  then obtain f where f: "fuel = Suc f" by (cases fuel) auto
  have "successively (adj bs) ((bhead # xs) @ [x, i])" using snoc.prems(1) by simp
  then have "successively (adj bs) ((bhead # xs) @ [x])" and "adj bs x i"
    by (simp_all only: successively_append_iff) auto
  then show ?case using snoc.IH [of x f] snoc.prems(2,3) f by (auto simp: adj_def)
qed

text \<open>Only the links of buffers matter.\<close>

lemma ring_cong:
  assumes "length bs = length cs" and "\<And>i. i < length bs \<Longrightarrow> bnext (bs ! i) = bnext (cs ! i) \<and> bprev (bs ! i) = bprev (cs ! i)"
  shows "ring bs xs = ring cs xs"
proof -
  have "set xs = {..<NBUF} \<Longrightarrow> length bs = Suc NBUF \<Longrightarrow>
      successively (adj bs) (bhead # xs @ [bhead]) = successively (adj cs) (bhead # xs @ [bhead])"
    by (rule successively_adj_cong) (use assms(2) in \<open>auto simp: butlast_append\<close>)
  then show ?thesis using assms(1) unfolding ring_def by auto
qed

lemma ring_upd:
  assumes "\<And>x. bnext (f x) = bnext x" and "\<And>x. bprev (f x) = bprev x"
  shows "ring (bs[b := f (bs ! b)]) xs = ring bs xs"
proof (rule ring_cong)
  show "bnext (bs[b := f (bs ! b)] ! i) = bnext (bs ! i) \<and> bprev (bs[b := f (bs ! b)] ! i) = bprev (bs ! i)" for i
    by (cases "b < length bs") (simp_all add: nth_list_update list_update_beyond assms)
qed simp

text \<open>The pointer surgery moves the buffer to the front of the list.\<close>

lemma last_notin_butlast: "distinct xs \<Longrightarrow> i \<in> set (butlast xs) \<Longrightarrow> i \<noteq> last xs"
  by (induction xs) (auto split: if_splits)

lemma unlink_ring:
  assumes "successively (adj bs) ((h # us) @ b # vs @ [h])" and "distinct (us @ b # vs)" and "h \<notin> set (us @ b # vs)"
    and nx: "\<And>i. i \<in> set (h # us @ vs) \<Longrightarrow> bnext (cs ! i) = (if i = bprev (bs ! b) then bnext (bs ! b) else bnext (bs ! i))"
    and pv: "\<And>i. i \<in> set (h # us @ vs) \<Longrightarrow> bprev (cs ! i) = (if i = bnext (bs ! b) then bprev (bs ! b) else bprev (bs ! i))"
  shows "successively (adj cs) ((h # us) @ vs @ [h])"
proof -
  have A: "successively (adj bs) (h # us)" and B: "successively (adj bs) (vs @ [h])"
    and p: "adj bs (last (h # us)) b" and n: "adj bs b (hd (vs @ [h]))"
    using assms(1) by (simp_all only: successively_append_iff successively_Cons) (auto simp: successively_Cons)
  have in_us: "last (h # us) \<in> set (h # us)" and in_vs: "hd (vs @ [h]) \<in> set (vs @ [h])"
    by simp (cases vs; simp)
  have "successively (adj cs) (h # us)"
  proof (subst successively_adj_cong [of _ cs bs])
    show "bnext (cs ! i) = bnext (bs ! i)" if "i \<in> set (butlast (h # us))" for i
      using that last_notin_butlast [of "h # us" i] assms(2,3) p in_set_butlastD [OF that]
      by (auto simp: nx adj_def)
    show "bprev (cs ! i) = bprev (bs ! i)" if "i \<in> set (tl (h # us))" for i
      using that n assms(2,3) by (cases vs) (auto simp: pv adj_def)
  qed (rule A)
  moreover have "successively (adj cs) (vs @ [h])"
  proof (subst successively_adj_cong [of _ cs bs])
    show "bnext (cs ! i) = bnext (bs ! i)" if "i \<in> set (butlast (vs @ [h]))" for i
      using that p in_us assms(2,3) by (auto simp: nx adj_def)
    show "bprev (cs ! i) = bprev (bs ! i)" if "i \<in> set (tl (vs @ [h]))" for i
      using that n assms(2,3) by (cases vs) (auto simp: pv adj_def)
  qed (rule B)
  moreover have "adj cs (last (h # us)) (hd (vs @ [h]))"
  proof -
    have "bnext (cs ! last (h # us)) = hd (vs @ [h])"
      using nx [of "last (h # us)"] in_us p n by (auto simp: adj_def)
    moreover have "bprev (cs ! hd (vs @ [h])) = last (h # us)"
      using pv [of "hd (vs @ [h])"] in_vs p n by (auto simp: adj_def)
    ultimately show ?thesis by (simp add: adj_def)
  qed
  ultimately show ?thesis by (simp only: successively_append_iff) auto
qed

lemma link_ring:
  assumes "successively (adj bs) (h # xs @ [h])" and "b \<notin> set (h # xs)" and "h \<notin> set xs" "distinct xs"
    and nx: "\<And>i. i \<in> set (h # b # xs) \<Longrightarrow> bnext (cs ! i) = (if i = h then b else if i = b then bnext (bs ! h) else bnext (bs ! i))"
    and pv: "\<And>i. i \<in> set (h # b # xs) \<Longrightarrow> bprev (cs ! i) = (if i = bnext (bs ! h) then b else if i = b then h else bprev (bs ! i))"
  shows "successively (adj cs) (h # (b # xs) @ [h])"
proof -
  have B: "successively (adj bs) (xs @ [h])" and n: "adj bs h (hd (xs @ [h]))"
    using assms(1) by (auto simp: successively_Cons)
  have "successively (adj cs) (xs @ [h])"
  proof (subst successively_adj_cong [of _ cs bs])
    show "bnext (cs ! i) = bnext (bs ! i)" if "i \<in> set (butlast (xs @ [h]))" for i
      using that assms(2,3) by (auto simp: nx)
    show "bprev (cs ! i) = bprev (bs ! i)" if "i \<in> set (tl (xs @ [h]))" for i
      using that n assms(2-4) by (cases xs) (auto simp: pv adj_def)
  qed (rule B)
  moreover have "adj cs h b"
    using nx [of h] pv [of b] n assms(2) by (cases xs) (auto simp: adj_def)
  moreover have "adj cs b (hd (xs @ [h]))"
    using nx [of b] pv [of "hd (xs @ [h])"] n assms(2) by (cases xs) (auto simp: adj_def)
  ultimately show ?thesis by (simp add: successively_Cons)
qed


lemma ring_to_front:
  assumes "ring bs (us @ b # vs)"
  shows "ring (to_front b bs) (b # us @ vs)"
proof -
  define cs where "cs = bs[bnext (bs ! b) := (bs ! bnext (bs ! b))\<lparr>bprev := bprev (bs ! b)\<rparr>]"
  define ds where "ds = cs[bprev (cs ! b) := (cs ! bprev (cs ! b))\<lparr>bnext := bnext (cs ! b)\<rparr>]"
  define es where "es = ds[b := (ds ! b)\<lparr>bnext := bnext (ds ! bhead)\<rparr>]"
  define fs where "fs = es[b := (es ! b)\<lparr>bprev := bhead\<rparr>]"
  define gs where "gs = fs[bnext (fs ! bhead) := (fs ! bnext (fs ! bhead))\<lparr>bprev := b\<rparr>]"
  have tf: "to_front b bs = gs[bhead := (gs ! bhead)\<lparr>bnext := b\<rparr>]"
    unfolding to_front_def Let_def gs_def fs_def es_def ds_def cs_def by simp
  have r: "successively (adj bs) ((bhead # us) @ b # vs @ [bhead])" and d: "distinct (us @ b # vs)"
    and st: "set (us @ b # vs) = {..<NBUF}" and len: "length bs = Suc NBUF"
    using assms by (simp_all add: ring_def)
  have h: "bhead \<notin> set (us @ b # vs)" unfolding st by simp
  have le: "i \<le> NBUF" if "i \<in> set (bhead # us @ vs) \<union> {b}" for i
  proof -
    from that have "i = bhead \<or> i \<in> set (us @ b # vs)" by auto
    then show ?thesis unfolding st by auto
  qed
  have p: "bprev (bs ! b) = last (bhead # us)" and n: "bnext (bs ! b) = hd (vs @ [bhead])"
    using r by (simp_all only: successively_append_iff successively_Cons adj_def) (auto simp: successively_Cons adj_def)
  have pin: "last (bhead # us) \<in> set (bhead # us)" and nin: "hd (vs @ [bhead]) \<in> set (vs @ [bhead])"
    by simp (cases vs; simp)
  have b: "b < NBUF" using st by auto
  have bn: "bnext (bs ! b) \<noteq> b" "bprev (bs ! b) \<noteq> b" "bnext (bs ! b) \<le> NBUF" "bprev (bs ! b) \<le> NBUF"
    unfolding p n using pin nin h d le [of "last (bhead # us)"] le [of "hd (vs @ [bhead])"] by auto
  have nx: "bnext (ds ! i) = (if i = bprev (bs ! b) then bnext (bs ! b) else bnext (bs ! i))"
    and pv: "bprev (ds ! i) = (if i = bnext (bs ! b) then bprev (bs ! b) else bprev (bs ! i))" if "i \<le> NBUF" for i
    using that len bn b unfolding ds_def cs_def by (auto simp: nth_list_update)
  have un: "successively (adj ds) ((bhead # us) @ vs @ [bhead])"
    by (rule unlink_ring [OF r d h]) (use nx pv le in auto)
  have ld: "length ds = Suc NBUF" using len by (simp add: ds_def cs_def)
  have hn: "bnext (ds ! bhead) \<in> set (us @ vs) \<union> {bhead}"
  proof (cases "us @ vs")
    case (Cons x xs)
    have "successively (adj ds) (bhead # (us @ vs) @ [bhead])" using un by simp
    then show ?thesis unfolding Cons by (simp add: adj_def)
  qed (use un in \<open>simp add: adj_def\<close>)
  then have hb: "bnext (ds ! bhead) \<noteq> b" "bnext (ds ! bhead) \<le> NBUF"
    using b d le [of "bnext (ds ! bhead)"] by auto
  have lk: "bnext (to_front b bs ! i) = (if i = bhead then b else if i = b then bnext (ds ! bhead) else bnext (ds ! i))"
      "bprev (to_front b bs ! i) = (if i = bnext (ds ! bhead) then b else if i = b then bhead else bprev (ds ! i))"
    if "i \<le> NBUF" for i
    using that ld b hb unfolding tf gs_def fs_def es_def by (auto simp: nth_list_update)
  have "successively (adj (to_front b bs)) (bhead # (b # us @ vs) @ [bhead])"
    by (rule link_ring [OF _ _ _ _ lk]) (use un d h b le in auto)
  moreover have "length (to_front b bs) = Suc NBUF"
    using ld unfolding tf gs_def fs_def es_def by simp
  ultimately show ?thesis using d st by (auto simp: ring_def)
qed

end
