(* ===== verification/Log.thy ===== *)
theory Log
  imports Bio
begin

text \<open>
  The redo log, \<^verbatim>\<open>log.c\<close>, and the superblock it reads.  The state \<open>lst\<close> adds the in-memory log and its header.
  Integers of the header are kept as the signed 32-bit values the code compares.
\<close>

unbundle bit_operations_syntax

section \<open>Words in a block\<close>

text \<open>Little-endian fields of the structures that are laid over the data of a buffer.\<close>

definition get16 :: "uchar list \<Rightarrow> nat \<Rightarrow> ushort" where
  "get16 d i = ucast (d ! i) OR push_bit 8 (ucast (d ! (i + 1)))"

definition put16 :: "uchar list \<Rightarrow> nat \<Rightarrow> ushort \<Rightarrow> uchar list" where
  "put16 d i w = d[i := ucast w, i + 1 := ucast (drop_bit 8 w)]"

definition get32 :: "uchar list \<Rightarrow> nat \<Rightarrow> uint" where
  "get32 d i = ucast (d ! i) OR push_bit 8 (ucast (d ! (i + 1)))
     OR push_bit 16 (ucast (d ! (i + 2))) OR push_bit 24 (ucast (d ! (i + 3)))"

definition put32 :: "uchar list \<Rightarrow> nat \<Rightarrow> uint \<Rightarrow> uchar list" where
  "put32 d i w = d[i := ucast w, i + 1 := ucast (drop_bit 8 w),
     i + 2 := ucast (drop_bit 16 w), i + 3 := ucast (drop_bit 24 w)]"

section \<open>State\<close>

record superblock =
  sb_size :: uint
  sb_nblocks :: uint
  sb_ninodes :: uint
  sb_nlog :: uint
  sb_logstart :: uint
  sb_inodestart :: uint
  sb_bmapstart :: uint

abbreviation LOGSIZE :: nat where "LOGSIZE \<equiv> 30"
abbreviation MAXOPBLOCKS :: nat where "MAXOPBLOCKS \<equiv> 10"

record logheader =
  lh_n :: int
  lh_block :: "uint list"

record log =
  lstart :: uint
  lsize :: int
  outstanding :: int
  committing :: bool
  ldev :: uint
  lh :: logheader

record lst = bst +
  the_log :: log

definition upd_log :: "(log \<Rightarrow> log) \<Rightarrow> 'a lst_scheme \<Rightarrow> 'a lst_scheme" where
  "upd_log f s = s\<lparr>the_log := f (the_log s)\<rparr>"

definition set_data :: "nat \<Rightarrow> uchar list \<Rightarrow> 'a bst_scheme \<Rightarrow> 'a bst_scheme" where
  "set_data b d s = upd_buf b (\<lambda>x. x\<lparr>data := d\<rparr>) s"

section \<open>Moving blocks between the log and their homes\<close>

definition readsb :: "uint \<Rightarrow> 'a bst_scheme \<Rightarrow> (superblock \<times> 'a bst_scheme) outcome" where
  "readsb dev s =
     andthen (bread dev 1 s) (\<lambda>(bp, s).
     let d = data (bufs s ! bp);
         sb = \<lparr>sb_size = get32 d 0, sb_nblocks = get32 d 4, sb_ninodes = get32 d 8, sb_nlog = get32 d 12,
           sb_logstart = get32 d 16, sb_inodestart = get32 d 20, sb_bmapstart = get32 d 24\<rparr> in
     andthen (brelse bp s) (\<lambda>s. Ret (sb, s)))"

text \<open>The loops over the header run \<open>k\<close> more times, from block \<open>tail\<close> on.\<close>

fun install_trans_loop :: "nat \<Rightarrow> nat \<Rightarrow> 'a lst_scheme \<Rightarrow> 'a lst_scheme outcome" where
  "install_trans_loop 0 i s = Ret s"
| "install_trans_loop (Suc k) i s =
     andthen (bread (ldev (the_log s)) (lstart (the_log s) + of_nat i + 1) s) (\<lambda>(lbuf, s).
     andthen (bread (ldev (the_log s)) (lh_block (lh (the_log s)) ! i) s) (\<lambda>(dbuf, s).
     let s = set_data dbuf (data (bufs s ! lbuf)) s in
     andthen (bwrite dbuf s) (\<lambda>s.
     andthen (brelse lbuf s) (\<lambda>s.
     andthen (brelse dbuf s) (install_trans_loop k (Suc i))))))"

definition install_trans :: "'a lst_scheme \<Rightarrow> 'a lst_scheme outcome" where
  "install_trans s = install_trans_loop (nat (lh_n (lh (the_log s)))) 0 s"

text \<open>
  The header is copied block by block; an index outside the in-memory array is out of bounds.
\<close>

fun copy_blocks :: "nat \<Rightarrow> (nat \<Rightarrow> uint) \<Rightarrow> uint list \<Rightarrow> uint list outcome" where
  "copy_blocks 0 src dst = Ret dst"
| "copy_blocks (Suc k) src dst =
     andthen (copy_blocks k src dst) (\<lambda>dst.
     if k < length dst then Ret (dst[k := src k]) else Undef ''log.lh.block out of bounds'')"

definition read_head :: "'a lst_scheme \<Rightarrow> 'a lst_scheme outcome" where
  "read_head s =
     andthen (bread (ldev (the_log s)) (lstart (the_log s)) s) (\<lambda>(b, s).
     let d = data (bufs s ! b);
         s = upd_log (\<lambda>l. l\<lparr>lh := (lh l)\<lparr>lh_n := sint (get32 d 0)\<rparr>\<rparr>) s in
     andthen (copy_blocks (nat (lh_n (lh (the_log s)))) (\<lambda>i. get32 d (4 + 4 * i)) (lh_block (lh (the_log s)))) (\<lambda>bl.
     let s = upd_log (\<lambda>l. l\<lparr>lh := (lh l)\<lparr>lh_block := bl\<rparr>\<rparr>) s in
     brelse b s))"

fun put_blocks :: "nat \<Rightarrow> uint list \<Rightarrow> uchar list \<Rightarrow> uchar list" where
  "put_blocks 0 bl d = d"
| "put_blocks (Suc k) bl d = put32 (put_blocks k bl d) (4 + 4 * k) (bl ! k)"

definition write_head :: "'a lst_scheme \<Rightarrow> 'a lst_scheme outcome" where
  "write_head s =
     andthen (bread (ldev (the_log s)) (lstart (the_log s)) s) (\<lambda>(b, s).
     let h = lh (the_log s);
         d = put32 (data (bufs s ! b)) 0 (of_int (lh_n h));
         d = put_blocks (nat (lh_n h)) (lh_block h) d;
         s = set_data b d s in
     andthen (bwrite b s) (brelse b))"

definition recover_from_log :: "'a lst_scheme \<Rightarrow> 'a lst_scheme outcome" where
  "recover_from_log s =
     andthen (read_head s) (\<lambda>s.
     andthen (install_trans s) (\<lambda>s.
     let s = upd_log (\<lambda>l. l\<lparr>lh := (lh l)\<lparr>lh_n := 0\<rparr>\<rparr>) s in
     write_head s))"

text \<open>\<open>struct logheader\<close> takes 124 bytes, so the test at the start of \<open>initlog\<close> never panics.\<close>

definition initlog :: "uint \<Rightarrow> 'a lst_scheme \<Rightarrow> 'a lst_scheme outcome" where
  "initlog dev s =
     (if 4 + 4 * LOGSIZE \<ge> BSIZE then Panic ''initlog: too big logheader''
      else
        let s = s\<lparr>locks := (locks s)(LogLock := initlock ''log'')\<rparr> in
        andthen (readsb dev s) (\<lambda>(sb, s).
        let s = upd_log (\<lambda>l. l\<lparr>lstart := sb_logstart sb\<rparr>) s;
            s = upd_log (\<lambda>l. l\<lparr>lsize := sint (sb_nlog sb)\<rparr>) s;
            s = upd_log (\<lambda>l. l\<lparr>ldev := dev\<rparr>) s in
        recover_from_log s))"

section \<open>Transactions\<close>

text \<open>An operation that has to wait for a commit or for log space sleeps.\<close>

definition begin_op :: "'a lst_scheme \<Rightarrow> 'a lst_scheme outcome" where
  "begin_op s =
     andthen (acquire_at LogLock s) (\<lambda>s.
     if committing (the_log s) then sleep ChLog (Some LogLock) s
     else if lh_n (lh (the_log s)) + (outstanding (the_log s) + 1) * int MAXOPBLOCKS > int LOGSIZE
     then sleep ChLog (Some LogLock) s
     else
       let s = upd_log (\<lambda>l. l\<lparr>outstanding := outstanding l + 1\<rparr>) s in
       release_at LogLock s)"

fun write_log_loop :: "nat \<Rightarrow> nat \<Rightarrow> 'a lst_scheme \<Rightarrow> 'a lst_scheme outcome" where
  "write_log_loop 0 i s = Ret s"
| "write_log_loop (Suc k) i s =
     andthen (bread (ldev (the_log s)) (lstart (the_log s) + of_nat i + 1) s) (\<lambda>(to, s).
     andthen (bread (ldev (the_log s)) (lh_block (lh (the_log s)) ! i) s) (\<lambda>(frm, s).
     let s = set_data to (data (bufs s ! frm)) s in
     andthen (bwrite to s) (\<lambda>s.
     andthen (brelse frm s) (\<lambda>s.
     andthen (brelse to s) (write_log_loop k (Suc i))))))"

definition write_log :: "'a lst_scheme \<Rightarrow> 'a lst_scheme outcome" where
  "write_log s = write_log_loop (nat (lh_n (lh (the_log s)))) 0 s"

definition commit :: "'a lst_scheme \<Rightarrow> 'a lst_scheme outcome" where
  "commit s =
     (if lh_n (lh (the_log s)) > 0 then
        andthen (write_log s) (\<lambda>s.
        andthen (write_head s) (\<lambda>s.
        andthen (install_trans s) (\<lambda>s.
        let s = upd_log (\<lambda>l. l\<lparr>lh := (lh l)\<lparr>lh_n := 0\<rparr>\<rparr>) s in
        write_head s)))
      else Ret s)"

definition end_op :: "'a lst_scheme \<Rightarrow> 'a lst_scheme outcome" where
  "end_op s =
     andthen (acquire_at LogLock s) (\<lambda>s.
     let s = upd_log (\<lambda>l. l\<lparr>outstanding := outstanding l - 1\<rparr>) s in
     if committing (the_log s) then Panic ''log.committing''
     else
       let do_commit = (outstanding (the_log s) = 0) in
       andthen (if do_commit then Ret (upd_log (\<lambda>l. l\<lparr>committing := True\<rparr>) s) else wakeup ChLog s) (\<lambda>s.
       andthen (release_at LogLock s) (\<lambda>s.
       if do_commit then
         andthen (commit s) (\<lambda>s.
         andthen (acquire_at LogLock s) (\<lambda>s.
         let s = upd_log (\<lambda>l. l\<lparr>committing := False\<rparr>) s in
         andthen (wakeup ChLog s) (release_at LogLock)))
       else Ret s)))"

text \<open>The position of a block in the header, or the number of blocks when it is not there.\<close>

fun log_slot :: "uint list \<Rightarrow> uint \<Rightarrow> nat" where
  "log_slot [] b = 0"
| "log_slot (x # xs) b = (if x = b then 0 else Suc (log_slot xs b))"

definition log_write :: "nat \<Rightarrow> 'a lst_scheme \<Rightarrow> 'a lst_scheme outcome" where
  "log_write b s =
     (let n = lh_n (lh (the_log s)) in
      if n \<ge> int LOGSIZE \<or> n \<ge> lsize (the_log s) - 1 then Panic ''too big a transaction''
      else if outstanding (the_log s) < 1 then Panic ''log_write outside of trans''
      else
        andthen (acquire_at LogLock s) (\<lambda>s.
        let h = lh (the_log s);
            i = log_slot (take (nat (lh_n h)) (lh_block h)) (blockno (bufs s ! b));
            s = upd_log (\<lambda>l. l\<lparr>lh := (lh l)\<lparr>lh_block := (lh_block (lh l))[i := blockno (bufs s ! b)]\<rparr>\<rparr>) s;
            s = (if int i = lh_n (lh (the_log s)) then upd_log (\<lambda>l. l\<lparr>lh := (lh l)\<lparr>lh_n := lh_n (lh l) + 1\<rparr>\<rparr>) s else s);
            s = upd_buf b (\<lambda>x. x\<lparr>flags := flags x OR B_DIRTY\<rparr>) s in
        release_at LogLock s))"

end
