(* ===== verification/Bcache.thy ===== *)
theory Bcache
  imports Log
begin

text \<open>
  The contract of the buffer cache.  For a process that runs alone the cache is a map from block
  numbers to contents, together with the buffers the process holds and the blocks that are pinned
  because they are dirty; \<open>bread\<close>, \<open>bwrite\<close> and \<open>brelse\<close> return and act on that map as one expects
  from a disk, whatever buffers they recycle.
\<close>

unbundle bit_operations_syntax

section \<open>A process that is not interrupted\<close>

lemma find_SomeD: "find P xs = Some x \<Longrightarrow> x \<in> set xs \<and> P x"
  by (induction xs) (auto split: if_splits)

lemma runs_seq: "runs m P \<Longrightarrow> (\<And>t. P t \<Longrightarrow> runs (f t) R) \<Longrightarrow> runs (andthen m f) R"
  by (auto intro: runs_mono)

definition ready :: "'a pst_scheme \<Rightarrow> bool" where
  "ready s \<longleftrightarrow> ok_at (cpus s) (ncpu s) (lapicid s) (ifl s) \<and> (\<forall>l. lock_free (locks s l))
     \<and> (case me_at (cpus s) (ncpu s) (lapicid s) of None \<Rightarrow> False | Some p \<Rightarrow> p < length (procs s))"

definition me :: "'a pst_scheme \<Rightarrow> nat" where
  "me s = the (me_at (cpus s) (ncpu s) (lapicid s))"

definition mypid :: "'a pst_scheme \<Rightarrow> int" where
  "mypid s = pid (procs s ! me s)"

lemma readyD:
  "ready s \<Longrightarrow> ok_at (cpus s) (ncpu s) (lapicid s) (ifl s)"
  "ready s \<Longrightarrow> lock_free (locks s l)"
  "ready s \<Longrightarrow> me_at (cpus s) (ncpu s) (lapicid s) = Some (me s)"
  "ready s \<Longrightarrow> me s < length (procs s)"
  by (auto simp: ready_def me_def split: option.splits)

section \<open>Flags\<close>

definition valid :: "buf \<Rightarrow> bool" where "valid x \<longleftrightarrow> flags x AND B_VALID \<noteq> 0"
definition dirty :: "buf \<Rightarrow> bool" where "dirty x \<longleftrightarrow> flags x AND B_DIRTY \<noteq> 0"

lemma bit_flags [simp]: "bit B_VALID n \<longleftrightarrow> n = 1" "bit B_DIRTY n \<longleftrightarrow> n = 2"
proof -
  have v: "B_VALID = push_bit 1 1" "B_DIRTY = push_bit 2 1" by (simp_all add: B_VALID_def B_DIRTY_def)
  show "bit B_VALID n \<longleftrightarrow> n = 1" "bit B_DIRTY n \<longleftrightarrow> n = 2"
    unfolding v bit_push_bit_iff bit_1_iff by auto
qed

lemma flag_bits: "valid x \<longleftrightarrow> bit (flags x) 1" "dirty x \<longleftrightarrow> bit (flags x) 2"
  unfolding valid_def dirty_def B_VALID_def B_DIRTY_def
  using and_exp_eq_0_iff_not_bit [of "flags x" 1] and_exp_eq_0_iff_not_bit [of "flags x" 2] by simp_all

lemma flags_both: "flags x AND (B_VALID OR B_DIRTY) = B_VALID \<longleftrightarrow> valid x \<and> \<not> dirty x"
proof
  assume "flags x AND (B_VALID OR B_DIRTY) = B_VALID"
  then have "bit (flags x AND (B_VALID OR B_DIRTY)) n = bit B_VALID n" for n by simp
  from this [of 1] this [of 2] show "valid x \<and> \<not> dirty x"
    by (simp add: bit_simps flag_bits)
next
  assume "valid x \<and> \<not> dirty x"
  then show "flags x AND (B_VALID OR B_DIRTY) = B_VALID"
    by (intro bit_word_eqI) (auto simp: bit_simps flag_bits)
qed

lemma valid_dirty_simps [simp]:
  "valid (x\<lparr>flags := 0\<rparr>) = False" "dirty (x\<lparr>flags := 0\<rparr>) = False"
  "valid (x\<lparr>flags := f OR B_VALID\<rparr>)" "dirty (x\<lparr>flags := f OR B_VALID\<rparr>) = dirty (x\<lparr>flags := f\<rparr>)"
  "dirty (x\<lparr>flags := f OR B_DIRTY\<rparr>)" "valid (x\<lparr>flags := f OR B_DIRTY\<rparr>) = valid (x\<lparr>flags := f\<rparr>)"
  "dirty (x\<lparr>flags := f AND NOT B_DIRTY\<rparr>) = False" "valid (x\<lparr>flags := f AND NOT B_DIRTY\<rparr>) = valid (x\<lparr>flags := f\<rparr>)"
  "valid (x\<lparr>flags := flags x\<rparr>) = valid x" "dirty (x\<lparr>flags := flags x\<rparr>) = dirty x"
  "valid (x\<lparr>refcnt := r\<rparr>) = valid x" "dirty (x\<lparr>refcnt := r\<rparr>) = dirty x"
  "valid (x\<lparr>data := d\<rparr>) = valid x" "dirty (x\<lparr>data := d\<rparr>) = dirty x"
  "valid (x\<lparr>bdev := r1\<rparr>) = valid x" "dirty (x\<lparr>bdev := r1\<rparr>) = dirty x"
  "valid (x\<lparr>blockno := r2\<rparr>) = valid x" "dirty (x\<lparr>blockno := r2\<rparr>) = dirty x"
  by (simp_all add: flag_bits bit_simps)

text \<open>
  \<open>cache s B H Q\<close> describes the cache of a process that runs alone: block \<open>n\<close> of the disk has the
  contents \<open>B n\<close> (in the cache, or else on the disk), \<open>H n\<close> is the buffer of block \<open>n\<close> when the
  process holds it, and \<open>Q\<close> is the set of blocks pinned in the cache because they are dirty.
\<close>

definition one_buffer :: "buf list \<Rightarrow> bool" where
  "one_buffer bs \<longleftrightarrow> (\<forall>i<NBUF. \<forall>j<NBUF. bdev (bs ! i) = 1 \<and> bdev (bs ! j) = 1 \<and> blockno (bs ! i) = blockno (bs ! j) \<longrightarrow> i = j)"

definition holds :: "'a bst_scheme \<Rightarrow> (uint \<Rightarrow> nat option) \<Rightarrow> bool" where
  "holds s H \<longleftrightarrow>
     (\<forall>i<NBUF. if H (blockno (bufs s ! i)) = Some i
        then bdev (bufs s ! i) = 1 \<and> refcnt (bufs s ! i) = 1 \<and> slocked (slocks s (BufSleep i)) \<noteq> 0
          \<and> spid (slocks s (BufSleep i)) = mypid s
        else refcnt (bufs s ! i) = 0 \<and> slocked (slocks s (BufSleep i)) = 0)
     \<and> (\<forall>n i. H n = Some i \<longrightarrow> i < NBUF \<and> blockno (bufs s ! i) = n)"

definition pins :: "buf list \<Rightarrow> uint set \<Rightarrow> bool" where
  "pins bs Q \<longleftrightarrow> (\<forall>i<NBUF. dirty (bs ! i) \<longleftrightarrow> bdev (bs ! i) = 1 \<and> blockno (bs ! i) \<in> Q)
     \<and> (\<forall>n\<in>Q. \<exists>i<NBUF. bdev (bs ! i) = 1 \<and> blockno (bs ! i) = n)"

definition contents :: "buf list \<Rightarrow> uchar list list \<Rightarrow> (uint \<Rightarrow> uchar list) \<Rightarrow> bool" where
  "contents bs D B \<longleftrightarrow> (\<forall>i<NBUF. bdev (bs ! i) = 1 \<longrightarrow>
     valid (bs ! i) \<and> data (bs ! i) = B (blockno (bs ! i)) \<and> unat (blockno (bs ! i)) < length D)"

definition on_disk :: "uchar list list \<Rightarrow> (uint \<Rightarrow> uchar list) \<Rightarrow> uint set \<Rightarrow> bool" where
  "on_disk D B X \<longleftrightarrow> (\<forall>n. unat n < length D \<longrightarrow> length (B n) = BSIZE \<and> (n \<notin> X \<longrightarrow> B n = D ! unat n))"

definition cache :: "'a bst_scheme \<Rightarrow> (uint \<Rightarrow> uchar list) \<Rightarrow> (uint \<Rightarrow> nat option) \<Rightarrow> uint set \<Rightarrow> bool" where
  "cache s B H Q \<longleftrightarrow> ready s \<and> (\<exists>xs. ring (bufs s) xs) \<and> one_buffer (bufs s) \<and> holds s H \<and> pins (bufs s) Q
     \<and> contents (bufs s) (disk s) B \<and> on_disk (disk s) B (dom H \<union> Q)"

lemma holds_slot: "holds s H \<Longrightarrow> H n = Some i \<Longrightarrow> i < NBUF \<and> blockno (bufs s ! i) = n"
  by (simp add: holds_def)

lemma holds_held:
  assumes "holds s H" and "H n = Some i"
  shows "bdev (bufs s ! i) = 1 \<and> refcnt (bufs s ! i) = 1 \<and> slocked (slocks s (BufSleep i)) \<noteq> 0
    \<and> spid (slocks s (BufSleep i)) = mypid s"
proof -
  note i = holds_slot [OF assms]
  then have "H (blockno (bufs s ! i)) = Some i" using assms(2) by simp
  then show ?thesis using assms(1) i unfolding holds_def by metis
qed

lemma holds_free:
  assumes "holds s H" and "i < NBUF" and "H (blockno (bufs s ! i)) \<noteq> Some i"
  shows "refcnt (bufs s ! i) = 0 \<and> slocked (slocks s (BufSleep i)) = 0"
  using assms unfolding holds_def by metis

lemma pins_dirty: "pins bs Q \<Longrightarrow> i < NBUF \<Longrightarrow> dirty (bs ! i) \<longleftrightarrow> bdev (bs ! i) = 1 \<and> blockno (bs ! i) \<in> Q"
  by (simp add: pins_def)

lemma cacheD:
  assumes "cache s B H Q"
  shows "ready s" and "\<exists>xs. ring (bufs s) xs" and "length (bufs s) = Suc NBUF" and "one_buffer (bufs s)"
    and "holds s H" and "pins (bufs s) Q" and "contents (bufs s) (disk s) B" and "on_disk (disk s) B (dom H \<union> Q)"
  using assms by (auto simp: cache_def ring_def)

definition bframe :: "'a bst_scheme \<Rightarrow> 'a bst_scheme \<Rightarrow> bool" where
  "bframe s t \<longleftrightarrow> t = s\<lparr>cpus := cpus t, procs := procs t, slocks := slocks t, bufs := bufs t, disk := disk t, dwrites := dwrites t\<rparr>"

lemma bget_hit:
  assumes "ready s" and "ring (bufs s) xs"
    and "find (\<lambda>b. bdev (bufs s ! b) = dev \<and> blockno (bufs s ! b) = bno) xs = Some b"
    and "slocked (slocks s (BufSleep b)) = 0"
  shows "bget dev bno s = Ret (b, s\<lparr>cpus := rested (cpus s) (ncpu s) (lapicid s) (ifl s),
    slocks := (slocks s)(BufSleep b := (slocks s (BufSleep b))\<lparr>slocked := 1, spid := mypid s\<rparr>),
    bufs := (bufs s)[b := (bufs s ! b)\<lparr>refcnt := refcnt (bufs s ! b) + 1\<rparr>]\<rparr>)"
proof -
  note [simp] = readyD [OF assms(1)]
  have "bget_cached 31 (bufs s) dev bno (bnext (bufs s ! bhead)) = Ret (Some b)"
    using assms(2) ring_length [OF assms(2)] unfolding assms(3) [symmetric]
    by (intro forward_search) (auto simp: ring_def)
  then show ?thesis
    using assms(4)
    by (simp add: bget_def acquire_at_free Let_def upd_buf_def acquiresleep_at mypid_def
      release_at_taken [where cs = "cpus s" and b = "ifl s" and k = "locks s BcacheLock"])
qed

lemma bget_miss:
  assumes "ready s" and "ring (bufs s) xs"
    and "find (\<lambda>b. bdev (bufs s ! b) = dev \<and> blockno (bufs s ! b) = bno) xs = None"
    and "find (\<lambda>b. refcnt (bufs s ! b) = 0 \<and> flags (bufs s ! b) AND B_DIRTY = 0) (rev xs) = Some b"
    and "slocked (slocks s (BufSleep b)) = 0"
  shows "bget dev bno s = Ret (b, s\<lparr>cpus := rested (cpus s) (ncpu s) (lapicid s) (ifl s),
    slocks := (slocks s)(BufSleep b := (slocks s (BufSleep b))\<lparr>slocked := 1, spid := mypid s\<rparr>),
    bufs := (bufs s)[b := (bufs s ! b)\<lparr>bdev := dev, blockno := bno, flags := 0, refcnt := 1\<rparr>]\<rparr>)"
proof -
  note [simp] = readyD [OF assms(1)]
  have "bget_cached 31 (bufs s) dev bno (bnext (bufs s ! bhead)) = Ret None"
    using assms(2) ring_length [OF assms(2)] unfolding assms(3) [symmetric]
    by (intro forward_search) (auto simp: ring_def)
  moreover have "bget_victim 31 (bufs s) (bprev (bufs s ! bhead)) = Ret (Some b)"
    using assms(2) ring_length [OF assms(2)] unfolding assms(4) [symmetric]
    by (intro backward_search) (auto simp: ring_def)
  ultimately show ?thesis
    using assms(5)
    by (simp add: bget_def acquire_at_free Let_def upd_buf_def acquiresleep_at mypid_def
      release_at_taken [where cs = "cpus s" and b = "ifl s" and k = "locks s BcacheLock"])
qed

lemma iderw_read:
  assumes "ready s" and "slocked (slocks s (BufSleep b)) \<noteq> 0" and "spid (slocks s (BufSleep b)) = mypid s"
    and "flags (bufs s ! b) = 0" and "bdev (bufs s ! b) = 1" and "unat (blockno (bufs s ! b)) < length (disk s)"
    and "b < length (bufs s)"
  shows "iderw b s = Ret (s\<lparr>cpus := rested (cpus s) (ncpu s) (lapicid s) (ifl s),
    bufs := (bufs s)[b := (bufs s ! b)\<lparr>data := disk s ! unat (blockno (bufs s ! b)), flags := B_VALID\<rparr>]\<rparr>)"
proof -
  note [simp] = readyD [OF assms(1)]
  have "\<not> valid (bufs s ! b)" "\<not> dirty (bufs s ! b)" using assms(4) by (simp_all add: valid_def dirty_def)
  then show ?thesis
    using assms(2-) by (simp add: iderw_def holdingsleep_at mypid_def flags_both upd_buf_def Let_def)
qed

lemma room_victim:
  assumes c: "cache s B H Q" and r: "ring (bufs s) xs" and room: "card (dom H \<union> Q) < NBUF"
  obtains b where "find (\<lambda>b. refcnt (bufs s ! b) = 0 \<and> flags (bufs s ! b) AND B_DIRTY = 0) (rev xs) = Some b"
    and "b < NBUF" and "H (blockno (bufs s ! b)) \<noteq> Some b" and "\<not> dirty (bufs s ! b)"
proof (cases "find (\<lambda>b. refcnt (bufs s ! b) = 0 \<and> flags (bufs s ! b) AND B_DIRTY = 0) (rev xs)")
  case (Some b)
  have "b \<in> set xs" "refcnt (bufs s ! b) = 0" "\<not> dirty (bufs s ! b)"
    using find_SomeD [OF Some] by (simp_all add: dirty_def)
  moreover have "b < NBUF" using \<open>b \<in> set xs\<close> r by (auto simp: ring_def)
  moreover have "H (blockno (bufs s ! b)) \<noteq> Some b"
    using holds_held [OF cacheD(5) [OF c], of "blockno (bufs s ! b)" b] \<open>refcnt (bufs s ! b) = 0\<close> by auto
  ultimately show thesis using that Some by blast
next
  case None
  have xs: "set xs = {..<NBUF}" using r by (simp add: ring_def)
  let ?f = "\<lambda>i. blockno (bufs s ! i)"
  have busy: "bdev (bufs s ! i) = 1 \<and> ?f i \<in> dom H \<union> Q" if "i < NBUF" for i
  proof -
    have "refcnt (bufs s ! i) \<noteq> 0 \<or> dirty (bufs s ! i)"
      using None that xs by (auto simp: find_None_iff dirty_def)
    then show ?thesis
      using holds_free [OF cacheD(5) [OF c] that] holds_held [OF cacheD(5) [OF c], of "?f i" i]
        pins_dirty [OF cacheD(6) [OF c] that] by (cases "H (?f i) = Some i") auto
  qed
  then have "inj_on ?f {..<NBUF}" and "?f ` {..<NBUF} \<subseteq> dom H \<union> Q"
    using cacheD(4) [OF c] by (auto simp: inj_on_def one_buffer_def)
  moreover have "finite (dom H \<union> Q)"
  proof (rule finite_subset)
    have "n \<in> ?f ` {..<NBUF}" if "H n = Some i" for n i
      using holds_slot [OF cacheD(5) [OF c] that] by auto
    moreover have "n \<in> ?f ` {..<NBUF}" if "n \<in> Q" for n
      using cacheD(6) [OF c] that by (auto simp: pins_def)
    ultimately show "dom H \<union> Q \<subseteq> ?f ` {..<NBUF}" by auto
  qed simp
  ultimately have "NBUF \<le> card (dom H \<union> Q)" by (metis card_image card_lessThan card_mono)
  then show thesis using room by simp
qed

lemma ring_find:
  assumes "one_buffer (bufs s)" and "ring (bufs s) xs" and "i < NBUF" "bdev (bufs s ! i) = 1"
  shows "find (\<lambda>b. bdev (bufs s ! b) = 1 \<and> blockno (bufs s ! b) = blockno (bufs s ! i)) xs = Some i"
proof -
  have xs: "set xs = {..<NBUF}" using assms(2) by (simp add: ring_def)
  obtain j where j: "find (\<lambda>b. bdev (bufs s ! b) = 1 \<and> blockno (bufs s ! b) = blockno (bufs s ! i)) xs = Some j"
    using assms(3,4) xs by (metis (mono_tags, lifting) find_None_iff lessThan_iff not_None_eq)
  then have "j < NBUF" "bdev (bufs s ! j) = 1" "blockno (bufs s ! j) = blockno (bufs s ! i)"
    using find_SomeD [OF j] xs by auto
  with assms(1,3,4) j show ?thesis by (auto simp: one_buffer_def)
qed

text \<open>Replacing one buffer, links apart.\<close>

lemma one_bufferD:
  "one_buffer bs \<Longrightarrow> i < NBUF \<Longrightarrow> j < NBUF \<Longrightarrow> bdev (bs ! i) = 1 \<Longrightarrow> bdev (bs ! j) = 1 \<Longrightarrow> blockno (bs ! i) = blockno (bs ! j) \<Longrightarrow> i = j"
  by (auto simp: one_buffer_def)

lemma one_buffer_upd:
  assumes "one_buffer bs" and "length bs = Suc NBUF" and "\<And>i. i < NBUF \<Longrightarrow> i \<noteq> b \<Longrightarrow> bdev (bs ! i) = 1 \<Longrightarrow> bdev x = 1 \<Longrightarrow> blockno (bs ! i) \<noteq> blockno x"
  shows "one_buffer (bs[b := x])"
  unfolding one_buffer_def
proof (intro allI impI)
  fix i j assume ij: "i < NBUF" "j < NBUF"
    and e: "bdev (bs[b := x] ! i) = 1 \<and> bdev (bs[b := x] ! j) = 1 \<and> blockno (bs[b := x] ! i) = blockno (bs[b := x] ! j)"
  have l: "i < length bs" "j < length bs" using ij assms(2) by simp_all
  show "i = j"
  proof (cases "i = b"; cases "j = b")
    assume "i = b" "j \<noteq> b"
    then show ?thesis using e l ij assms(3) [of j] by (simp add: nth_list_update)
  next
    assume "i \<noteq> b" "j = b"
    then show ?thesis using e l ij assms(3) [of i] by (simp add: nth_list_update)
  next
    assume "i \<noteq> b" "j \<noteq> b"
    then show ?thesis using e l ij assms(1) by (auto simp: one_buffer_def)
  qed simp
qed

lemma pins_upd:
  assumes "pins bs Q" and "length bs = Suc NBUF" and "b < NBUF" and "\<not> dirty (bs ! b)"
    and "dirty x \<longleftrightarrow> bdev x = 1 \<and> blockno x \<in> Q"
  shows "pins (bs[b := x]) Q"
  unfolding pins_def
proof (intro conjI allI impI ballI)
  fix i assume "i < NBUF"
  then show "dirty (bs[b := x] ! i) \<longleftrightarrow> bdev (bs[b := x] ! i) = 1 \<and> blockno (bs[b := x] ! i) \<in> Q"
    using assms by (cases "i = b") (simp_all add: pins_def)
next
  fix n assume n: "n \<in> Q"
  then obtain i where i: "i < NBUF" "bdev (bs ! i) = 1" "blockno (bs ! i) = n"
    using assms(1) by (auto simp: pins_def)
  then have "i \<noteq> b" using pins_dirty [OF assms(1), of i] n assms(4) by auto
  with i show "\<exists>i<NBUF. bdev (bs[b := x] ! i) = 1 \<and> blockno (bs[b := x] ! i) = n" by (intro exI [of _ i]) simp
qed

lemma contents_upd:
  assumes "contents bs D B" and "length bs = Suc NBUF"
    and "bdev x = 1 \<Longrightarrow> valid x \<and> data x = B (blockno x) \<and> unat (blockno x) < length D"
  shows "contents (bs[b := x]) D B"
  unfolding contents_def
proof (intro allI impI)
  fix i assume "i < NBUF" "bdev (bs[b := x] ! i) = 1"
  then show "valid (bs[b := x] ! i) \<and> data (bs[b := x] ! i) = B (blockno (bs[b := x] ! i)) \<and> unat (blockno (bs[b := x] ! i)) < length D"
    using assms by (cases "i = b") (simp_all add: contents_def)
qed

lemma holds_take:
  assumes "holds s H" and "length (bufs s) = Suc NBUF" and "b < NBUF" and "H n = None"
    and "H (blockno (bufs s ! b)) \<noteq> Some b"
    and "\<And>i. i < NBUF \<Longrightarrow> i \<noteq> b \<Longrightarrow> bdev (bufs s ! i) = 1 \<Longrightarrow> blockno (bufs s ! i) \<noteq> n"
    and t: "bufs t = (bufs s)[b := x]" "slocks t = (slocks s)(BufSleep b := l)" "mypid t = mypid s"
    and x: "bdev x = 1" "refcnt x = 1" "blockno x = n" "slocked l \<noteq> 0" "spid l = mypid s"
  shows "holds t (H(n := Some b))"
proof -
  have *: "(H(n := Some b)) (blockno (bufs t ! i)) = Some i \<longleftrightarrow> H (blockno (bufs s ! i)) = Some i" if "i < NBUF" "i \<noteq> b" for i
  proof -
    have "bdev (bufs s ! i) = 1" if "H (blockno (bufs s ! i)) = Some i"
      using holds_held [OF assms(1) that] by simp
    with assms(6) [OF that] that t(1) assms(4) show ?thesis by auto
  qed
  show ?thesis
    unfolding holds_def
  proof (intro conjI allI impI)
    fix i assume i: "i < NBUF"
    show "if (H(n := Some b)) (blockno (bufs t ! i)) = Some i
        then bdev (bufs t ! i) = 1 \<and> refcnt (bufs t ! i) = 1 \<and> slocked (slocks t (BufSleep i)) \<noteq> 0
          \<and> spid (slocks t (BufSleep i)) = mypid t
        else refcnt (bufs t ! i) = 0 \<and> slocked (slocks t (BufSleep i)) = 0"
    proof (cases "i = b")
      case True
      then show ?thesis using assms(2,3) t x by simp
    next
      case False
      then have "bufs t ! i = bufs s ! i" "slocks t (BufSleep i) = slocks s (BufSleep i)" by (simp_all add: t)
      then show ?thesis
        using * [OF i False] holds_free [OF assms(1) i] holds_held [OF assms(1), of "blockno (bufs s ! i)" i] t(3) by auto
    qed
  next
    fix m i assume "(H(n := Some b)) m = Some i"
    then have "i = b \<and> m = n \<or> (m \<noteq> n \<and> H m = Some i)" by (auto split: if_splits)
    moreover have "i \<noteq> b" if "H m = Some i" using that assms(5) holds_slot [OF assms(1) that] by auto
    ultimately show "i < NBUF" and "blockno (bufs t ! i) = m"
      using holds_slot [OF assms(1), of m i] assms(2,3) t x by auto
  qed
qed

lemma on_disk_mono: "on_disk D B X \<Longrightarrow> X \<subseteq> Y \<Longrightarrow> on_disk D B Y"
  by (auto simp: on_disk_def)

lemma ready_frame:
  assumes "ready s" and "cpus t = rested (cpus s) (ncpu s) (lapicid s) (ifl s) \<or> cpus t = cpus s"
    and "ncpu t = ncpu s" "lapicid t = lapicid s" "ifl t = ifl s" "locks t = locks s" "length (procs t) = length (procs s)"
  shows "ready t" and "me t = me s"
  using assms readyD(1) [OF assms(1)] by (auto simp: ready_def me_def split: option.splits)

lemma bread_cache:
  assumes c: "cache s B H Q" and n: "unat n < length (disk s)" and h: "H n = None" and room: "n \<in> Q \<or> card (dom H \<union> Q) < NBUF"
  shows "runs (bread 1 n s) (\<lambda>(b, t). cache t B (H(n := Some b)) Q \<and> bframe s t \<and> disk t = disk s
    \<and> dwrites t = dwrites s \<and> procs t = procs s \<and> b < NBUF \<and> data (bufs t ! b) = B n)"
proof -
  note d = cacheD [OF c]
  obtain xs where r: "ring (bufs s) xs" using d(2) by blast
  show ?thesis
  proof (cases "\<exists>i<NBUF. bdev (bufs s ! i) = 1 \<and> blockno (bufs s ! i) = n")
    case True
    then obtain b where b: "b < NBUF" "bdev (bufs s ! b) = 1" "blockno (bufs s ! b) = n" by blast
    note f = ring_find [OF d(4) r b(1,2), unfolded b(3)]
    have free: "refcnt (bufs s ! b) = 0" "slocked (slocks s (BufSleep b)) = 0"
      using holds_free [OF d(5) b(1)] b(3) h by auto
    have val: "valid (bufs s ! b)" "data (bufs s ! b) = B n" using d(7) b by (auto simp: contents_def)
    have u: "blockno (bufs s ! i) \<noteq> n" if "i < NBUF" "i \<noteq> b" "bdev (bufs s ! i) = 1" for i
      using one_bufferD [OF d(4) that(1) b(1) that(3) b(2)] that(2) b(3) by auto
    let ?x = "(bufs s ! b)\<lparr>refcnt := refcnt (bufs s ! b) + 1\<rparr>"
    let ?l = "(slocks s (BufSleep b))\<lparr>slocked := 1, spid := mypid s\<rparr>"
    let ?t = "s\<lparr>cpus := rested (cpus s) (ncpu s) (lapicid s) (ifl s), slocks := (slocks s)(BufSleep b := ?l), bufs := (bufs s)[b := ?x]\<rparr>"
    have rt: "ready ?t" and mt: "me ?t = me s" using ready_frame [OF d(1), of ?t] by auto
    have "bread 1 n s = Ret (b, ?t)"
      using val b(1) d(3) by (simp add: bread_def bget_hit [OF d(1) r f free(2)] valid_def)
    moreover have "ring (bufs ?t) xs" using r by (simp add: ring_upd)
    moreover have "one_buffer (bufs ?t)"
      by (simp, rule one_buffer_upd [OF d(4,3)]) (use u b in simp_all)
    moreover have "holds ?t (H(n := Some b))"
      by (rule holds_take [OF d(5,3) b(1) h, where x = ?x and l = ?l]) (use u b h free mt in \<open>simp_all add: mypid_def\<close>)
    moreover have "pins (bufs ?t) Q"
    proof -
      have "length (bufs s) = Suc NBUF" by (rule d)
      then show ?thesis using d(6) b unfolding pins_def by (auto simp: nth_list_update)
    qed
    moreover have "contents (bufs ?t) (disk ?t) B"
      by (simp, rule contents_upd [OF d(7,3)]) (use d(7) b in \<open>auto simp: contents_def\<close>)
    moreover have "on_disk (disk ?t) B (dom (H(n := Some b)) \<union> Q)"
      using d(8) by (auto intro: on_disk_mono)
    moreover have "bframe s ?t" by (simp add: bframe_def)
    ultimately show ?thesis using rt val b(1) d(3) by (auto simp: cache_def)
  next
    case False
    then have f: "find (\<lambda>b. bdev (bufs s ! b) = 1 \<and> blockno (bufs s ! b) = n) xs = None"
      using r by (auto simp: find_None_iff ring_def)
    have nQ: "n \<notin> Q" using False d(6) by (auto simp: pins_def)
    with room have room': "card (dom H \<union> Q) < NBUF" by simp
    obtain b where v: "find (\<lambda>b. refcnt (bufs s ! b) = 0 \<and> flags (bufs s ! b) AND B_DIRTY = 0) (rev xs) = Some b"
      and b: "b < NBUF" "H (blockno (bufs s ! b)) \<noteq> Some b" and nd: "\<not> dirty (bufs s ! b)"
      by (rule room_victim [OF c r room'])
    have free: "slocked (slocks s (BufSleep b)) = 0" using holds_free [OF d(5) b] by simp
    let ?l = "(slocks s (BufSleep b))\<lparr>slocked := 1, spid := mypid s\<rparr>"
    let ?y = "(bufs s ! b)\<lparr>bdev := 1, blockno := n, flags := 0, refcnt := 1\<rparr>"
    let ?x = "?y\<lparr>data := disk s ! unat n, flags := B_VALID\<rparr>"
    let ?u = "s\<lparr>cpus := rested (cpus s) (ncpu s) (lapicid s) (ifl s), slocks := (slocks s)(BufSleep b := ?l), bufs := (bufs s)[b := ?y]\<rparr>"
    let ?t = "s\<lparr>cpus := rested (cpus s) (ncpu s) (lapicid s) (ifl s), slocks := (slocks s)(BufSleep b := ?l), bufs := (bufs s)[b := ?x]\<rparr>"
    have ru: "ready ?u" and mu: "me ?u = me s" using ready_frame [OF d(1), of ?u] by auto
    have rt: "ready ?t" and mt: "me ?t = me s" using ready_frame [OF d(1), of ?t] by auto
    have "iderw b ?u = Ret ?t"
      by (subst iderw_read [OF ru]) (use b n d(3) readyD(1) [OF d(1)] mu in \<open>simp_all add: mypid_def\<close>)
    then have "bread 1 n s = Ret (b, ?t)"
      using b d(3) by (simp add: bread_def bget_miss [OF d(1) r f v free])
    moreover have Bn: "B n = disk s ! unat n" using d(8) n h nQ by (auto simp: on_disk_def)
    moreover have "ring (bufs ?t) xs" using r ring_upd [of "\<lambda>x. x\<lparr>bdev := 1, blockno := n, flags := 0, refcnt := 1, data := disk s ! unat n, flags := B_VALID\<rparr>"] by simp
    moreover have "one_buffer (bufs ?t)"
      by (simp, rule one_buffer_upd [OF d(4,3)]) (use False in auto)
    moreover have "holds ?t (H(n := Some b))"
      by (rule holds_take [OF d(5,3) b(1) h, where x = ?x and l = ?l]) (use b h False mt in \<open>simp_all add: mypid_def\<close>)
    moreover have "pins (bufs ?t) Q"
      by (simp, rule pins_upd [OF d(6,3) b(1) nd]) (use nQ in \<open>simp add: flag_bits\<close>)
    moreover have "contents (bufs ?t) (disk ?t) B"
      by (simp, rule contents_upd [OF d(7,3)]) (use n Bn in \<open>auto simp: flag_bits\<close>)
    moreover have "on_disk (disk ?t) B (dom (H(n := Some b)) \<union> Q)"
      using d(8) by (auto intro: on_disk_mono)
    moreover have "bframe s ?t" by (simp add: bframe_def)
    ultimately show ?thesis using rt b(1) d(3) by (auto simp: cache_def)
  qed
qed

lemma one_buffer_cong:
  assumes "one_buffer bs" and f: "\<And>i. i < NBUF \<Longrightarrow> bdev (cs ! i) = bdev (bs ! i) \<and> blockno (cs ! i) = blockno (bs ! i)"
  shows "one_buffer cs"
  unfolding one_buffer_def
proof (intro allI impI)
  fix i j assume "i < NBUF" "j < NBUF" "bdev (cs ! i) = 1 \<and> bdev (cs ! j) = 1 \<and> blockno (cs ! i) = blockno (cs ! j)"
  then show "i = j" using one_bufferD [OF assms(1), of i j] f [of i] f [of j] by simp
qed

lemma pins_cong:
  assumes "pins bs Q" and f: "\<And>i. i < NBUF \<Longrightarrow> bdev (cs ! i) = bdev (bs ! i) \<and> blockno (cs ! i) = blockno (bs ! i) \<and> dirty (cs ! i) = dirty (bs ! i)"
  shows "pins cs Q"
  unfolding pins_def
proof (intro conjI allI impI ballI)
  fix m assume "m \<in> Q"
  then obtain i where "i < NBUF" "bdev (bs ! i) = 1" "blockno (bs ! i) = m" using assms(1) by (auto simp: pins_def)
  then show "\<exists>i<NBUF. bdev (cs ! i) = 1 \<and> blockno (cs ! i) = m" by (intro exI [of _ i]) (simp add: f)
qed (use pins_dirty [OF assms(1)] in \<open>simp add: f\<close>)

lemma holds_cong:
  assumes "holds s H" and "slocks t = slocks s" and "mypid t = mypid s"
    and f: "\<And>i. i < NBUF \<Longrightarrow> bdev (bufs t ! i) = bdev (bufs s ! i) \<and> blockno (bufs t ! i) = blockno (bufs s ! i) \<and> refcnt (bufs t ! i) = refcnt (bufs s ! i)"
  shows "holds t H"
proof -
  have "if H (blockno (bufs t ! i)) = Some i
        then bdev (bufs t ! i) = 1 \<and> refcnt (bufs t ! i) = 1 \<and> slocked (slocks t (BufSleep i)) \<noteq> 0
          \<and> spid (slocks t (BufSleep i)) = mypid t
        else refcnt (bufs t ! i) = 0 \<and> slocked (slocks t (BufSleep i)) = 0" if "i < NBUF" for i
    using f [OF that] holds_free [OF assms(1) that] holds_held [OF assms(1), of "blockno (bufs s ! i)" i] assms(2,3) by simp
  moreover have "H n = Some i \<longrightarrow> i < NBUF \<and> blockno (bufs t ! i) = n" for n i
    using holds_slot [OF assms(1), of n i] f [of i] by auto
  ultimately show ?thesis unfolding holds_def by blast
qed

lemma contentsD:
  "contents bs D B \<Longrightarrow> i < NBUF \<Longrightarrow> bdev (bs ! i) = 1 \<Longrightarrow> valid (bs ! i) \<and> data (bs ! i) = B (blockno (bs ! i)) \<and> unat (blockno (bs ! i)) < length D"
  by (simp add: contents_def)

lemma set_data_cache:
  assumes c: "cache s B H Q" and h: "H n = Some b" and l: "length d = BSIZE"
  shows "cache (set_data b d s) (B(n := d)) H Q" and "bframe s (set_data b d s)"
    and "disk (set_data b d s) = disk s" "dwrites (set_data b d s) = dwrites s" "procs (set_data b d s) = procs s"
proof -
  note D = cacheD [OF c]
  have b: "b < NBUF" "blockno (bufs s ! b) = n" using holds_slot [OF D(5) h] by auto
  have dev: "bdev (bufs s ! b) = 1" using holds_held [OF D(5) h] by simp
  let ?t = "set_data b d s"
  have t: "?t = s\<lparr>bufs := (bufs s)[b := (bufs s ! b)\<lparr>data := d\<rparr>]\<rparr>" by (simp add: set_data_def upd_buf_def)
  have f: "bdev (bufs ?t ! i) = bdev (bufs s ! i)" "blockno (bufs ?t ! i) = blockno (bufs s ! i)"
    "refcnt (bufs ?t ! i) = refcnt (bufs s ! i)" "dirty (bufs ?t ! i) = dirty (bufs s ! i)"
    "valid (bufs ?t ! i) = valid (bufs s ! i)" "data (bufs ?t ! i) = (if i = b then d else data (bufs s ! i))" if "i < NBUF" for i
    using that D(3) b(1) by (auto simp: t nth_list_update)
  have r: "ready ?t" "me ?t = me s" using ready_frame [OF D(1), of ?t] by (simp_all add: t)
  obtain xs where "ring (bufs s) xs" using D(2) by blast
  then have "ring (bufs ?t) xs" by (simp add: t ring_upd)
  moreover have "one_buffer (bufs ?t)" by (rule one_buffer_cong [OF D(4)]) (simp add: f)
  moreover have "holds ?t H"
    by (rule holds_cong [OF D(5)]) (use r(2) in \<open>simp_all add: f, simp_all add: t mypid_def\<close>)
  moreover have "pins (bufs ?t) Q" by (rule pins_cong [OF D(6)]) (simp add: f)
  moreover have "contents (bufs ?t) (disk ?t) (B(n := d))"
    unfolding contents_def
  proof (intro allI impI)
    fix i assume i: "i < NBUF" "bdev (bufs ?t ! i) = 1"
    then have "valid (bufs s ! i) \<and> data (bufs s ! i) = B (blockno (bufs s ! i)) \<and> unat (blockno (bufs s ! i)) < length (disk s)"
      using contentsD [OF D(7)] by (simp add: f)
    moreover have "blockno (bufs s ! i) = n \<longleftrightarrow> i = b"
      using one_bufferD [OF D(4) i(1) b(1) _ dev] i b(2) by (auto simp: f)
    ultimately show "valid (bufs ?t ! i) \<and> data (bufs ?t ! i) = (B(n := d)) (blockno (bufs ?t ! i)) \<and> unat (blockno (bufs ?t ! i)) < length (disk ?t)"
      using i by (simp add: f) (auto simp: t)
  qed
  moreover have "on_disk (disk ?t) (B(n := d)) (dom H \<union> Q)"
    using D(8) h l by (auto simp: on_disk_def t)
  ultimately show "cache ?t (B(n := d)) H Q" using r by (auto simp: cache_def)
  show "bframe s ?t" "disk ?t = disk s" "dwrites ?t = dwrites s" "procs ?t = procs s" by (simp_all add: bframe_def t)
qed

lemma bwrite_eq:
  assumes "ready s" and "slocked (slocks s (BufSleep b)) \<noteq> 0" and "spid (slocks s (BufSleep b)) = mypid s"
    and "bdev (bufs s ! b) = 1" and "unat (blockno (bufs s ! b)) < length (disk s)"
    and "b < length (bufs s)"
  shows "bwrite b s = Ret (s\<lparr>cpus := rested (cpus s) (ncpu s) (lapicid s) (ifl s),
    bufs := (bufs s)[b := (bufs s ! b)\<lparr>flags := ((flags (bufs s ! b) OR B_DIRTY) AND NOT B_DIRTY) OR B_VALID\<rparr>],
    disk := (disk s)[unat (blockno (bufs s ! b)) := data (bufs s ! b)],
    dwrites := dwrites s @ [(blockno (bufs s ! b), data (bufs s ! b))]\<rparr>)"
proof -
  note [simp] = readyD [OF assms(1)]
  let ?x = "(bufs s ! b)\<lparr>flags := flags (bufs s ! b) OR B_DIRTY\<rparr>"
  have "flags ?x AND B_DIRTY \<noteq> 0" and "\<not> (flags ?x AND (B_VALID OR B_DIRTY) = B_VALID)"
    using flags_both [of ?x] valid_dirty_simps(5) [where x = "bufs s ! b" and f = "flags (bufs s ! b)"] by (auto simp: dirty_def)
  then show ?thesis
    using assms(2-) by (simp add: bwrite_def iderw_def holdingsleep_at mypid_def upd_buf_def Let_def)
qed

lemma bwrite_cache:
  assumes c: "cache s B H Q" and h: "H n = Some b"
  shows "runs (bwrite b s) (\<lambda>t. cache t B H (Q - {n}) \<and> bframe s t \<and> disk t = (disk s)[unat n := B n]
    \<and> dwrites t = dwrites s @ [(n, B n)] \<and> procs t = procs s)"
proof -
  note D = cacheD [OF c]
  have b: "b < NBUF" "blockno (bufs s ! b) = n" using holds_slot [OF D(5) h] by auto
  have hb: "bdev (bufs s ! b) = 1" "slocked (slocks s (BufSleep b)) \<noteq> 0" "spid (slocks s (BufSleep b)) = mypid s"
    using holds_held [OF D(5) h] by auto
  have cb: "valid (bufs s ! b)" "data (bufs s ! b) = B n" "unat n < length (disk s)"
    using contentsD [OF D(7) b(1) hb(1)] b(2) by auto
  let ?t = "s\<lparr>cpus := rested (cpus s) (ncpu s) (lapicid s) (ifl s),
    bufs := (bufs s)[b := (bufs s ! b)\<lparr>flags := ((flags (bufs s ! b) OR B_DIRTY) AND NOT B_DIRTY) OR B_VALID\<rparr>],
    disk := (disk s)[unat n := B n], dwrites := dwrites s @ [(n, B n)]\<rparr>"
  have eq: "bwrite b s = Ret ?t"
    by (subst bwrite_eq [OF D(1) hb(2,3,1)]) (use b cb D(3) in simp_all)
  have f: "bdev (bufs ?t ! i) = bdev (bufs s ! i)" "blockno (bufs ?t ! i) = blockno (bufs s ! i)"
    "refcnt (bufs ?t ! i) = refcnt (bufs s ! i)" "dirty (bufs ?t ! i) \<longleftrightarrow> i \<noteq> b \<and> dirty (bufs s ! i)"
    "valid (bufs ?t ! i) = (i = b \<or> valid (bufs s ! i))" "data (bufs ?t ! i) = data (bufs s ! i)" if "i < NBUF" for i
    using that D(3) b(1) by (auto simp: nth_list_update)
  have r: "ready ?t" "me ?t = me s" using ready_frame [OF D(1), of ?t] by simp_all
  have only: "blockno (bufs s ! i) = n \<longleftrightarrow> i = b" if "i < NBUF" "bdev (bufs s ! i) = 1" for i
    using one_bufferD [OF D(4) that(1) b(1) that(2) hb(1)] b(2) by auto
  obtain xs where "ring (bufs s) xs" using D(2) by blast
  then have ring: "ring (bufs ?t) xs"
    using ring_upd [of "\<lambda>x. x\<lparr>flags := ((flags x OR B_DIRTY) AND NOT B_DIRTY) OR B_VALID\<rparr>"] by simp
  have one: "one_buffer (bufs ?t)" by (rule one_buffer_cong [OF D(4)]) (simp only: f simp_thms)
  have hold: "holds ?t H"
    by (rule holds_cong [OF D(5)]) (use r(2) in \<open>simp_all only: f simp_thms, simp_all add: mypid_def\<close>)
  have pin: "pins (bufs ?t) (Q - {n})"
    unfolding pins_def
  proof (intro conjI allI impI ballI)
    fix i assume i: "i < NBUF"
    show "dirty (bufs ?t ! i) \<longleftrightarrow> bdev (bufs ?t ! i) = 1 \<and> blockno (bufs ?t ! i) \<in> Q - {n}"
      using only [OF i] pins_dirty [OF D(6) i] unfolding f [OF i] by auto
  next
    fix m assume "m \<in> Q - {n}"
    then obtain i where "i < NBUF" "bdev (bufs s ! i) = 1" "blockno (bufs s ! i) = m" using D(6) by (auto simp: pins_def)
    then show "\<exists>i<NBUF. bdev (bufs ?t ! i) = 1 \<and> blockno (bufs ?t ! i) = m" using f(1,2) [of i] by (intro exI [of _ i]) simp
  qed
  have cont: "contents (bufs ?t) (disk ?t) B"
    unfolding contents_def
  proof (intro allI impI)
    fix i assume i: "i < NBUF" "bdev (bufs ?t ! i) = 1"
    show "valid (bufs ?t ! i) \<and> data (bufs ?t ! i) = B (blockno (bufs ?t ! i)) \<and> unat (blockno (bufs ?t ! i)) < length (disk ?t)"
      using contentsD [OF D(7) i(1)] i(2) unfolding f [OF i(1)] by simp
  qed
  have "on_disk (disk ?t) B (dom H \<union> (Q - {n}))"
    unfolding on_disk_def
  proof (intro allI impI conjI)
    fix m :: uint assume m: "unat m < length (disk ?t)"
    then show "length (B m) = BSIZE" using D(8) by (simp add: on_disk_def)
    assume "m \<notin> dom H \<union> (Q - {n})"
    then have "m \<notin> dom H \<union> Q" and "unat n \<noteq> unat m" using h by (auto simp: word_unat_eq_iff [symmetric])
    then show "B m = disk ?t ! unat m"
      using D(8) m cb(3) by (auto simp: on_disk_def nth_list_update)
  qed
  then have "cache ?t B H (Q - {n})" unfolding cache_def using r(1) ring one hold pin cont by blast
  moreover have "bframe s ?t" by (simp add: bframe_def)
  ultimately show ?thesis unfolding eq by simp
qed

definition core :: "buf \<Rightarrow> uint \<times> uint \<times> uint \<times> uint \<times> uchar list" where
  "core x = (flags x, bdev x, blockno x, refcnt x, data x)"

lemma map_core_upd: "core (f (bs ! i)) = core (bs ! i) \<Longrightarrow> map core (bs[i := f (bs ! i)]) = map core bs"
  by (cases "i < length bs") (simp_all add: map_update list_update_beyond, metis length_map list_update_id nth_map)

lemma core_links [simp]: "core (x\<lparr>bnext := j\<rparr>) = core x" "core (x\<lparr>bprev := j\<rparr>) = core x"
  by (simp_all add: core_def)

lemma map_core_next: "map core (bs[i := (bs ! i)\<lparr>bnext := j\<rparr>]) = map core bs"
  and map_core_prev: "map core (bs[i := (bs ! i)\<lparr>bprev := j\<rparr>]) = map core bs"
  by (simp_all add: map_core_upd)

lemma map_core_to_front: "map core (to_front b bs) = map core bs"
  unfolding to_front_def Let_def by (simp only: map_core_next map_core_prev)

lemma core_to_front:
  assumes "i < length bs"
  shows "core (to_front b bs ! i) = core (bs ! i)"
proof -
  have "length (to_front b bs) = length bs" using arg_cong [OF map_core_to_front [of b bs], of length] by simp
  then show ?thesis using assms map_core_to_front [of b bs] by (metis nth_map)
qed

lemma pid_woken: "p < length ps \<Longrightarrow> pid (woken ch ps ! p) = pid (ps ! p)"
  by (simp add: woken_def)

lemma length_woken [simp]: "length (woken ch ps) = length ps"
  by (simp add: woken_def)

lemma brelse_eq:
  assumes "ready s" and "slocked (slocks s (BufSleep b)) \<noteq> 0" and "spid (slocks s (BufSleep b)) = mypid s"
    and "refcnt (bufs s ! b) = 1" and "b < length (bufs s)"
  shows "brelse b s = Ret (s\<lparr>cpus := rested (cpus s) (ncpu s) (lapicid s) (ifl s),
    slocks := (slocks s)(BufSleep b := (slocks s (BufSleep b))\<lparr>slocked := 0, spid := 0\<rparr>),
    procs := woken (ChSleep (BufSleep b)) (procs s),
    bufs := to_front b ((bufs s)[b := (bufs s ! b)\<lparr>refcnt := 0\<rparr>])\<rparr>)"
proof -
  note [simp] = readyD [OF assms(1)]
  show ?thesis
    using assms(2-) by (simp add: brelse_def holdingsleep_at releasesleep_at acquire_at_free mypid_def upd_buf_def Let_def
      release_at_taken [where cs = "rested (cpus s) (ncpu s) (lapicid s) (ifl s)" and b = "ifl s" and k = "locks s BcacheLock"])
qed

lemma holds_drop:
  assumes "holds s H" and "one_buffer (bufs s)" and h: "H n = Some b" and "mypid t = mypid s"
    and f: "\<And>i. i < NBUF \<Longrightarrow> bdev (bufs t ! i) = bdev (bufs s ! i) \<and> blockno (bufs t ! i) = blockno (bufs s ! i)
      \<and> refcnt (bufs t ! i) = (if i = b then 0 else refcnt (bufs s ! i))"
    and l: "slocks t = (slocks s)(BufSleep b := l)" "slocked l = 0"
  shows "holds t (H(n := None))"
proof -
  note b = holds_slot [OF assms(1) h]
  have other: "(H(n := None)) (blockno (bufs t ! i)) = Some i \<longleftrightarrow> i \<noteq> b \<and> H (blockno (bufs s ! i)) = Some i" if "i < NBUF" for i
    using f [OF that] b h by auto
  have "if (H(n := None)) (blockno (bufs t ! i)) = Some i
        then bdev (bufs t ! i) = 1 \<and> refcnt (bufs t ! i) = 1 \<and> slocked (slocks t (BufSleep i)) \<noteq> 0
          \<and> spid (slocks t (BufSleep i)) = mypid t
        else refcnt (bufs t ! i) = 0 \<and> slocked (slocks t (BufSleep i)) = 0" if i: "i < NBUF" for i
    unfolding other [OF i]
    using f [OF i] holds_free [OF assms(1) i] holds_held [OF assms(1), of "blockno (bufs s ! i)" i] assms(4) l by auto
  moreover have "(H(n := None)) m = Some i \<longrightarrow> i < NBUF \<and> blockno (bufs t ! i) = m" for m i
    using holds_slot [OF assms(1), of m i] f [of i] by auto
  ultimately show ?thesis unfolding holds_def by blast
qed

lemma brelse_cache:
  assumes c: "cache s B H Q" and h: "H n = Some b" and clean: "n \<in> Q \<or> B n = disk s ! unat n"
  shows "runs (brelse b s) (\<lambda>t. cache t B (H(n := None)) Q \<and> bframe s t \<and> disk t = disk s
    \<and> dwrites t = dwrites s \<and> length (procs t) = length (procs s))"
proof -
  note D = cacheD [OF c]
  have b: "b < NBUF" "blockno (bufs s ! b) = n" using holds_slot [OF D(5) h] by auto
  have hb: "bdev (bufs s ! b) = 1" "refcnt (bufs s ! b) = 1" "slocked (slocks s (BufSleep b)) \<noteq> 0" "spid (slocks s (BufSleep b)) = mypid s"
    using holds_held [OF D(5) h] by auto
  let ?bs = "(bufs s)[b := (bufs s ! b)\<lparr>refcnt := 0\<rparr>]"
  let ?l = "(slocks s (BufSleep b))\<lparr>slocked := 0, spid := 0\<rparr>"
  let ?t = "s\<lparr>cpus := rested (cpus s) (ncpu s) (lapicid s) (ifl s), slocks := (slocks s)(BufSleep b := ?l),
    procs := woken (ChSleep (BufSleep b)) (procs s), bufs := to_front b ?bs\<rparr>"
  have eq: "brelse b s = Ret ?t" using D(3) b(1) by (intro brelse_eq [OF D(1) hb(3,4,2)]) simp
  have f: "bdev (bufs ?t ! i) = bdev (bufs s ! i)" "blockno (bufs ?t ! i) = blockno (bufs s ! i)"
    "refcnt (bufs ?t ! i) = (if i = b then 0 else refcnt (bufs s ! i))" "dirty (bufs ?t ! i) = dirty (bufs s ! i)"
    "valid (bufs ?t ! i) = valid (bufs s ! i)" "data (bufs ?t ! i) = data (bufs s ! i)" if "i < NBUF" for i
  proof -
    have "core (to_front b ?bs ! i) = core (?bs ! i)" using that D(3) by (intro core_to_front) simp
    then show "bdev (bufs ?t ! i) = bdev (bufs s ! i)" "blockno (bufs ?t ! i) = blockno (bufs s ! i)"
      "refcnt (bufs ?t ! i) = (if i = b then 0 else refcnt (bufs s ! i))" "dirty (bufs ?t ! i) = dirty (bufs s ! i)"
      "valid (bufs ?t ! i) = valid (bufs s ! i)" "data (bufs ?t ! i) = data (bufs s ! i)"
      using that D(3) b(1) by (auto simp: core_def dirty_def valid_def nth_list_update split: if_splits)
  qed
  have r: "ready ?t" "me ?t = me s" using ready_frame [OF D(1), of ?t] by simp_all
  then have pidt: "mypid ?t = mypid s" using readyD(4) [OF D(1)] by (simp add: mypid_def pid_woken)
  obtain xs where xs: "ring (bufs s) xs" using D(2) by blast
  then obtain us vs where "xs = us @ b # vs" using b(1) by (metis lessThan_iff ring_def split_list)
  then have "ring ?bs (us @ b # vs)" using xs ring_upd [of "\<lambda>x. x\<lparr>refcnt := 0\<rparr>"] by simp
  then have ring: "ring (bufs ?t) (b # us @ vs)" using ring_to_front by simp
  have one: "one_buffer (bufs ?t)" by (rule one_buffer_cong [OF D(4)]) (simp only: f simp_thms)
  have hold: "holds ?t (H(n := None))"
    by (rule holds_drop [OF D(5,4) h pidt, where l = ?l]) (simp_all only: f simp_thms, simp_all)
  have pin: "pins (bufs ?t) Q" by (rule pins_cong [OF D(6)]) (simp only: f simp_thms)
  have cont: "contents (bufs ?t) (disk ?t) B"
    unfolding contents_def
  proof (intro allI impI)
    fix i assume i: "i < NBUF" "bdev (bufs ?t ! i) = 1"
    show "valid (bufs ?t ! i) \<and> data (bufs ?t ! i) = B (blockno (bufs ?t ! i)) \<and> unat (blockno (bufs ?t ! i)) < length (disk ?t)"
      using contentsD [OF D(7) i(1)] i(2) unfolding f [OF i(1)] by simp
  qed
  have "on_disk (disk ?t) B (dom (H(n := None)) \<union> Q)"
    using D(8) clean by (auto simp: on_disk_def)
  then have "cache ?t B (H(n := None)) Q" unfolding cache_def using r(1) ring one hold pin cont by blast
  moreover have "bframe s ?t" by (simp add: bframe_def)
  ultimately show ?thesis unfolding eq by simp
qed
end
