(* ===== verification/Logwrite.thy ===== *)
theory Logwrite
  imports Bcache
begin

text \<open>
  The states the log starts from: \<open>binit\<close> builds an empty cache, and \<open>begin_op\<close> and \<open>log_write\<close> of log.c
  reserve space in the log and pin the blocks of a transaction in the cache.
\<close>

unbundle bit_operations_syntax

section \<open>An empty cache\<close>

definition linked :: "nat \<Rightarrow> buf list \<Rightarrow> buf list" where
  "linked b bs =
     (let bs = bs[b := (bs ! b)\<lparr>bnext := bnext (bs ! bhead)\<rparr>];
          bs = bs[b := (bs ! b)\<lparr>bprev := bhead\<rparr>];
          bs = bs[bnext (bs ! bhead) := (bs ! bnext (bs ! bhead))\<lparr>bprev := b\<rparr>] in
      bs[bhead := (bs ! bhead)\<lparr>bnext := b\<rparr>])"

lemma binit_one_linked:
  "binit_one b s = s\<lparr>locks := (locks s)(SleepSpin (BufSleep b) := initlock ''sleep lock''),
     slocks := (slocks s)(BufSleep b := \<lparr>slocked = 0, sname = ''buffer'', spid = 0\<rparr>), bufs := linked b (bufs s)\<rparr>"
  by (simp add: binit_one_def linked_def upd_buf_def initsleeplock_def Let_def)

lemma linked_links:
  assumes len: "length bs = Suc NBUF" and b: "b < NBUF" and hb: "bnext (bs ! bhead) \<noteq> b" "bnext (bs ! bhead) \<le> NBUF" and i: "i \<le> NBUF"
  shows "bnext (linked b bs ! i) = (if i = bhead then b else if i = b then bnext (bs ! bhead) else bnext (bs ! i))"
    and "bprev (linked b bs ! i) = (if i = bnext (bs ! bhead) then b else if i = b then bhead else bprev (bs ! i))"
  using assms by (auto simp: linked_def Let_def nth_list_update)

lemma map_core_linked: "map core (linked b bs) = map core bs"
  unfolding linked_def Let_def by (simp only: map_core_upd core_links)

lemma link_all:
  assumes "length bs = Suc NBUF" and "adj bs bhead bhead" and "k \<le> NBUF"
  shows "successively (adj (fold linked [0..<k] bs)) (bhead # rev [0..<k] @ [bhead]) \<and> length (fold linked [0..<k] bs) = Suc NBUF
    \<and> map core (fold linked [0..<k] bs) = map core bs"
  using assms(3)
proof (induction k)
  case (Suc k)
  let ?bs = "fold linked [0..<k] bs"
  from Suc have IH: "successively (adj ?bs) (bhead # rev [0..<k] @ [bhead])" "length ?bs = Suc NBUF" "map core ?bs = map core bs"
    by simp_all
  have hn: "bnext (?bs ! bhead) = hd (rev [0..<k] @ [bhead])"
    using IH(1) by (simp only: successively_Cons) (auto simp: adj_def)
  have "hd (rev [0..<k] @ [bhead]) \<in> {..<k} \<union> {bhead}" by (cases k) auto
  then have "bnext (?bs ! bhead) \<in> {..<k} \<union> {bhead}" unfolding hn .
  then have hb: "bnext (?bs ! bhead) \<noteq> k" "bnext (?bs ! bhead) \<le> NBUF" using Suc.prems by auto
  have "successively (adj (linked k ?bs)) (bhead # (k # rev [0..<k]) @ [bhead])"
    by (rule link_ring [OF IH(1)]) (use linked_links [OF IH(2) _ hb] Suc.prems in auto)
  then show ?case using IH map_core_linked [of k ?bs] by (simp add: map_eq_imp_length_eq [OF map_core_linked])
qed (use assms in simp)

lemma fold_binit_one:
  "\<exists>ls sl. fold binit_one [0..<k] s = s\<lparr>locks := ls, slocks := sl, bufs := fold linked [0..<k] (bufs s)\<rparr>
     \<and> (\<forall>l. lock_free (locks s l) \<longrightarrow> lock_free (ls l)) \<and> (\<forall>i<k. slocked (sl (BufSleep i)) = 0)"
proof (induction k)
  case 0
  show ?case by (rule exI [of _ "locks s"], rule exI [of _ "slocks s"]) simp
next
  case (Suc k)
  then obtain ls sl where e: "fold binit_one [0..<k] s = s\<lparr>locks := ls, slocks := sl, bufs := fold linked [0..<k] (bufs s)\<rparr>"
    and f: "\<forall>l. lock_free (locks s l) \<longrightarrow> lock_free (ls l)" "\<forall>i<k. slocked (sl (BufSleep i)) = 0" by blast
  let ?ls = "ls(SleepSpin (BufSleep k) := initlock ''sleep lock'')"
  let ?sl = "sl(BufSleep k := \<lparr>slocked = 0, sname = ''buffer'', spid = 0\<rparr>)"
  have "fold binit_one [0..<Suc k] s = binit_one k (s\<lparr>locks := ls, slocks := sl, bufs := fold linked [0..<k] (bufs s)\<rparr>)"
    by (simp add: e)
  also have "\<dots> = s\<lparr>locks := ?ls, slocks := ?sl, bufs := fold linked [0..<Suc k] (bufs s)\<rparr>"
    by (simp add: binit_one_linked)
  finally have "fold binit_one [0..<Suc k] s = s\<lparr>locks := ?ls, slocks := ?sl, bufs := fold linked [0..<Suc k] (bufs s)\<rparr>" .
  moreover have "\<forall>l. lock_free (locks s l) \<longrightarrow> lock_free (?ls l)" using f(1) by (simp add: initlock_def lock_free_def)
  moreover have "\<forall>i<Suc k. slocked (?sl (BufSleep i)) = 0" using f(2) by (simp add: less_Suc_eq)
  ultimately show ?case by blast
qed

text \<open>A buffer that has never been used: the static storage of the kernel starts as zero.\<close>

definition unused_buf :: "buf \<Rightarrow> bool" where
  "unused_buf x \<longleftrightarrow> bdev x = 0 \<and> refcnt x = 0 \<and> flags x = 0"

definition blocks_ok :: "uchar list list \<Rightarrow> bool" where
  "blocks_ok D \<longleftrightarrow> (\<forall>d\<in>set D. length d = BSIZE)"

lemma binit_eq:
  assumes len: "length (bufs s) = Suc NBUF" and u: "\<forall>x\<in>set (bufs s). unused_buf x"
  obtains ls sl cs xs where "binit s = s\<lparr>locks := ls, slocks := sl, bufs := cs\<rparr>" and "\<forall>l. lock_free (locks s l) \<longrightarrow> lock_free (ls l)"
    and "\<forall>i<NBUF. slocked (sl (BufSleep i)) = 0" and "ring cs xs" and "\<forall>i<NBUF. unused_buf (cs ! i)"
proof -
  let ?h = "(bufs s ! bhead)\<lparr>bprev := bhead, bnext := bhead\<rparr>"
  let ?bs = "(bufs s)[bhead := ?h]"
  let ?s = "s\<lparr>locks := (locks s)(BcacheLock := initlock ''bcache''), bufs := ?bs\<rparr>"
  obtain N where N: "N = NBUF" by blast
  then have Nle: "N \<le> NBUF" and Nset: "{0..<N} = {..<NBUF}" and Nless: "i < N \<longleftrightarrow> i < NBUF" for i by auto
  have "binit s = fold binit_one [0..<N] ?s"
    using len unfolding N binit_def upd_buf_def Let_def by (simp del: upt_rec_numeral)
  with fold_binit_one [of N ?s] obtain ls sl where t: "binit s = s\<lparr>locks := ls, slocks := sl, bufs := fold linked [0..<N] ?bs\<rparr>"
    and ls: "\<forall>l. lock_free (locks s l) \<longrightarrow> lock_free (ls l)" and sl: "\<forall>i<N. slocked (sl (BufSleep i)) = 0"
    by (auto simp: initlock_def lock_free_def)
  let ?cs = "fold linked [0..<N] ?bs"
  have la: "successively (adj ?cs) (bhead # rev [0..<N] @ [bhead])" "length ?cs = Suc NBUF" "map core ?cs = map core ?bs"
    using link_all [OF _ _ Nle, of ?bs] len by (simp_all add: adj_def)
  have ring: "ring ?cs (rev [0..<N])" using la Nset by (simp add: ring_def)
  have un: "unused_buf (?cs ! i)" if "i < NBUF" for i
  proof -
    have "core (?cs ! i) = map core ?cs ! i" using la(2) that by simp
    also have "\<dots> = core (?bs ! i)" unfolding la(3) using len that by simp
    finally have "core (?cs ! i) = core (?bs ! i)" .
    moreover have "unused_buf (?bs ! i)" using u len that by simp
    ultimately show ?thesis by (simp add: core_def unused_buf_def)
  qed
  show thesis using that [OF t ls _ ring] sl un by (simp add: Nless)
qed

text \<open>
  \<open>binit\<close> runs before there is a process; the cache is used when the first process runs, in a state \<open>t\<close> that
  has the buffers as \<open>binit\<close> has left them.
\<close>

lemma binit_start:
  assumes "length (bufs s) = Suc NBUF" and "\<forall>x\<in>set (bufs s). unused_buf x" and D: "blocks_ok (disk s)"
    and r: "ready t" and "bufs t = bufs (binit s)" and "\<forall>i<NBUF. slocks t (BufSleep i) = slocks (binit s) (BufSleep i)"
    and d: "disk t = disk s"
  shows "cache t (\<lambda>b. disk s ! unat b) Map.empty {}"
proof -
  obtain ls sl cs xs where b: "binit s = s\<lparr>locks := ls, slocks := sl, bufs := cs\<rparr>" "\<forall>i<NBUF. slocked (sl (BufSleep i)) = 0"
    and ring: "ring cs xs" and un: "\<forall>i<NBUF. unused_buf (cs ! i)"
    using binit_eq [OF assms(1,2)] by metis
  have c: "bufs t = cs" "\<forall>i<NBUF. slocked (slocks t (BufSleep i)) = 0" using assms(5,6) b by simp_all
  then have "holds t Map.empty" using un by (simp add: holds_def unused_buf_def)
  moreover have "one_buffer cs" "pins cs {}" "contents cs (disk s) (\<lambda>b. disk s ! unat b)"
    using un by (auto simp: one_buffer_def pins_def contents_def unused_buf_def dirty_def)
  moreover have "on_disk (disk s) (\<lambda>b. disk s ! unat b) {}"
    using D by (auto simp: on_disk_def blocks_ok_def)
  ultimately show ?thesis using ring r c(1) d by (auto simp: cache_def)
qed

lemma binit_cache:
  assumes r: "ready s" and len: "length (bufs s) = Suc NBUF" and u: "\<forall>x\<in>set (bufs s). unused_buf x"
    and D: "blocks_ok (disk s)"
  shows "cache (binit s) (\<lambda>b. disk s ! unat b) Map.empty {}"
proof -
  obtain ls sl cs where b: "binit s = s\<lparr>locks := ls, slocks := sl, bufs := cs\<rparr>" "\<forall>l. lock_free (locks s l) \<longrightarrow> lock_free (ls l)"
    using binit_eq [OF len u] by metis
  have "ready (binit s)" using r b(2) by (simp add: b(1) ready_def split: option.splits)
  then show ?thesis by (rule binit_start [OF len u D]) (simp_all add: b(1))
qed

section \<open>Frames\<close>

lemma bframe_refl: "bframe s s"
  by (simp add: bframe_def)

lemma bframe_trans: "bframe s t \<Longrightarrow> bframe t u \<Longrightarrow> bframe s u"
proof -
  assume "bframe s t" "bframe t u"
  then have t: "t = s\<lparr>cpus := cpus t, procs := procs t, slocks := slocks t, bufs := bufs t, disk := disk t, dwrites := dwrites t\<rparr>"
    and u: "u = t\<lparr>cpus := cpus u, procs := procs u, slocks := slocks u, bufs := bufs u, disk := disk u, dwrites := dwrites u\<rparr>"
    by (simp_all add: bframe_def)
  have "u = s\<lparr>cpus := cpus u, procs := procs u, slocks := slocks u, bufs := bufs u, disk := disk u, dwrites := dwrites u\<rparr>"
    by (subst u, subst t) simp
  then show ?thesis by (simp add: bframe_def)
qed

lemma bframe_log: "bframe s t \<Longrightarrow> the_log t = the_log s"
proof -
  assume "bframe s t"
  then have t: "t = s\<lparr>cpus := cpus t, procs := procs t, slocks := slocks t, bufs := bufs t, disk := disk t, dwrites := dwrites t\<rparr>"
    by (simp add: bframe_def)
  show ?thesis by (subst t) simp
qed

section \<open>Logging a block\<close>

lemma cache_upd_log [simp]: "cache (upd_log f s) B H Q \<longleftrightarrow> cache s B H Q"
  by (simp add: cache_def ready_def holds_def mypid_def me_def upd_log_def cong: option.case_cong)

lemma upd_log_simps [simp]:
  "the_log (upd_log f s) = f (the_log s)" "disk (upd_log f s) = disk s" "dwrites (upd_log f s) = dwrites s"
  by (simp_all add: upd_log_def)

text \<open>The blocks of the transaction that has been logged so far.\<close>

definition logged :: "log \<Rightarrow> nat" where
  "logged L = nat (lh_n (lh L))"

definition homes :: "log \<Rightarrow> uint list" where
  "homes L = take (logged L) (lh_block (lh L))"

definition log_add :: "uint \<Rightarrow> log \<Rightarrow> log" where
  "log_add n L =
     (let i = log_slot (homes L) n in
      L\<lparr>lh := \<lparr>lh_n = (if int i = lh_n (lh L) then lh_n (lh L) + 1 else lh_n (lh L)), lh_block = (lh_block (lh L))[i := n]\<rparr>\<rparr>)"

lemma log_slot_new: "b \<notin> set xs \<Longrightarrow> log_slot xs b = length xs"
  by (induction xs) auto

lemma log_slot_old: "b \<in> set xs \<Longrightarrow> log_slot xs b < length xs \<and> xs ! log_slot xs b = b"
  by (induction xs) auto

text \<open>The invariant of the header in memory.\<close>

definition log_ok :: "log \<Rightarrow> bool" where
  "log_ok L \<longleftrightarrow> 0 \<le> lh_n (lh L) \<and> length (lh_block (lh L)) = LOGSIZE \<and> logged L \<le> LOGSIZE \<and> distinct (homes L)"

lemma homes_log_add:
  assumes "log_ok L" and "logged L < LOGSIZE"
  shows "homes (log_add n L) = (if n \<in> set (homes L) then homes L else homes L @ [n])" and "log_ok (log_add n L)"
proof -
  have n: "lh_n (lh L) = int (logged L)" and l: "length (homes L) = logged L" "length (lh_block (lh L)) = LOGSIZE"
    using assms by (simp_all add: log_ok_def logged_def homes_def)
  show "homes (log_add n L) = (if n \<in> set (homes L) then homes L else homes L @ [n])"
  proof (cases "n \<in> set (homes L)")
    case True
    let ?i = "log_slot (homes L) n"
    have i: "?i < logged L" using log_slot_old [OF True] l by simp
    then have "lh_block (lh L) ! ?i = homes L ! ?i" by (simp add: homes_def)
    then have "lh_block (lh L) ! ?i = n" using log_slot_old [OF True] by simp
    then have e: "(lh_block (lh L))[?i := n] = lh_block (lh L)" using list_update_id [of "lh_block (lh L)" ?i] by simp
    have "lh_n (lh (log_add n L)) = lh_n (lh L)" "lh_block (lh (log_add n L)) = lh_block (lh L)"
      using i e n by (simp_all add: log_add_def Let_def)
    then show ?thesis using True by (simp add: homes_def logged_def)
  next
    case False
    have "log_slot (homes L) n = logged L" using log_slot_new [OF False] l by simp
    then have "lh_n (lh (log_add n L)) = int (Suc (logged L))" "lh_block (lh (log_add n L)) = (lh_block (lh L))[logged L := n]"
      using n by (simp_all add: log_add_def Let_def)
    then have "homes (log_add n L) = take (Suc (logged L)) ((lh_block (lh L))[logged L := n])"
      unfolding homes_def [of "log_add n L"] logged_def [of "log_add n L"] by (simp only: nat_int)
    also have "\<dots> = homes L @ [n]" using l(2) assms(2) by (simp add: take_Suc_conv_app_nth homes_def)
    finally show ?thesis using False by simp
  qed
  then have "distinct (homes (log_add n L))" using assms(1) by (simp add: log_ok_def)
  moreover have "0 \<le> lh_n (lh L)" "lh_n (lh L) < int LOGSIZE" using n assms(2) by simp_all
  then have "0 \<le> lh_n (lh (log_add n L))" "length (lh_block (lh (log_add n L))) = LOGSIZE" "logged (log_add n L) \<le> LOGSIZE"
    using l(2) unfolding log_add_def Let_def logged_def by (simp_all add: nat_le_iff)
  ultimately show "log_ok (log_add n L)" by (simp add: log_ok_def)
qed

lemma log_write_eq:
  assumes "ready s" and "lh_n (lh (the_log s)) < int LOGSIZE" and "lh_n (lh (the_log s)) < lsize (the_log s) - 1"
    and "1 \<le> outstanding (the_log s)"
  shows "log_write b s = Ret (s\<lparr>cpus := rested (cpus s) (ncpu s) (lapicid s) (ifl s),
    the_log := log_add (blockno (bufs s ! b)) (the_log s),
    bufs := (bufs s)[b := (bufs s ! b)\<lparr>flags := flags (bufs s ! b) OR B_DIRTY\<rparr>]\<rparr>)"
proof -
  note [simp] = readyD [OF assms(1)]
  show ?thesis
    using assms(2-) by (simp add: log_write_def acquire_at_free Let_def upd_log_def upd_buf_def log_add_def homes_def logged_def
      release_at_taken [where cs = "cpus s" and b = "ifl s" and k = "locks s LogLock"])
qed

lemma log_write_cache:
  assumes c: "cache s B H Q" and h: "H n = Some b" and ok: "log_ok (the_log s)"
    and room: "int (logged (the_log s)) < lsize (the_log s) - 1" "logged (the_log s) < LOGSIZE" and o: "1 \<le> outstanding (the_log s)"
  shows "runs (log_write b s) (\<lambda>t. cache t B H (insert n Q) \<and> the_log t = log_add n (the_log s)
    \<and> disk t = disk s \<and> dwrites t = dwrites s)"
proof -
  note D = cacheD [OF c]
  have b: "b < NBUF" "blockno (bufs s ! b) = n" using holds_slot [OF D(5) h] by auto
  have hb: "bdev (bufs s ! b) = 1" using holds_held [OF D(5) h] by auto
  have lhn: "lh_n (lh (the_log s)) = int (logged (the_log s))" using ok by (simp add: log_ok_def logged_def)
  let ?t = "s\<lparr>cpus := rested (cpus s) (ncpu s) (lapicid s) (ifl s), the_log := log_add n (the_log s),
    bufs := (bufs s)[b := (bufs s ! b)\<lparr>flags := flags (bufs s ! b) OR B_DIRTY\<rparr>]\<rparr>"
  have eq: "log_write b s = Ret ?t" using log_write_eq [OF D(1), of b] lhn room o b(2) by simp
  have f: "bdev (bufs ?t ! i) = bdev (bufs s ! i)" "blockno (bufs ?t ! i) = blockno (bufs s ! i)"
    "refcnt (bufs ?t ! i) = refcnt (bufs s ! i)" "dirty (bufs ?t ! i) \<longleftrightarrow> i = b \<or> dirty (bufs s ! i)"
    "valid (bufs ?t ! i) = valid (bufs s ! i)" "data (bufs ?t ! i) = data (bufs s ! i)" if "i < NBUF" for i
    using that D(3) b(1) by (auto simp: nth_list_update)
  have r: "ready ?t" "me ?t = me s" using ready_frame [OF D(1), of ?t] by simp_all
  have only: "blockno (bufs s ! i) = n \<longleftrightarrow> i = b" if "i < NBUF" "bdev (bufs s ! i) = 1" for i
    using one_bufferD [OF D(4) that(1) b(1) that(2) hb] b(2) by auto
  obtain xs where "ring (bufs s) xs" using D(2) by blast
  then have ring: "ring (bufs ?t) xs" using ring_upd [of "\<lambda>x. x\<lparr>flags := flags x OR B_DIRTY\<rparr>"] by simp
  have one: "one_buffer (bufs ?t)" by (rule one_buffer_cong [OF D(4)]) (simp only: f simp_thms)
  have hold: "holds ?t H"
    by (rule holds_cong [OF D(5)]) (use r(2) in \<open>simp_all only: f simp_thms, simp_all add: mypid_def\<close>)
  have pin: "pins (bufs ?t) (insert n Q)"
    unfolding pins_def
  proof (intro conjI allI impI ballI)
    fix i assume i: "i < NBUF"
    show "dirty (bufs ?t ! i) \<longleftrightarrow> bdev (bufs ?t ! i) = 1 \<and> blockno (bufs ?t ! i) \<in> insert n Q"
      using only [OF i] pins_dirty [OF D(6) i] hb b unfolding f [OF i] by auto
  next
    fix m assume "m \<in> insert n Q"
    then obtain i where "i < NBUF" "bdev (bufs s ! i) = 1" "blockno (bufs s ! i) = m" using D(6) b hb by (auto simp: pins_def)
    then show "\<exists>i<NBUF. bdev (bufs ?t ! i) = 1 \<and> blockno (bufs ?t ! i) = m" using f(1,2) [of i] by (intro exI [of _ i]) simp
  qed
  have cont: "contents (bufs ?t) (disk ?t) B"
    unfolding contents_def
  proof (intro allI impI)
    fix i assume i: "i < NBUF" "bdev (bufs ?t ! i) = 1"
    show "valid (bufs ?t ! i) \<and> data (bufs ?t ! i) = B (blockno (bufs ?t ! i)) \<and> unat (blockno (bufs ?t ! i)) < length (disk ?t)"
      using contentsD [OF D(7) i(1)] i(2) unfolding f [OF i(1)] by simp
  qed
  have "on_disk (disk ?t) B (dom H \<union> insert n Q)" using D(8) by (auto intro: on_disk_mono)
  then have "cache ?t B H (insert n Q)" unfolding cache_def using r(1) ring one hold pin cont by blast
  then show ?thesis unfolding eq by simp
qed

section \<open>Reserving space\<close>

lemma begin_op_eq:
  assumes "ready s" and "\<not> committing (the_log s)"
    and "lh_n (lh (the_log s)) + (outstanding (the_log s) + 1) * int MAXOPBLOCKS \<le> int LOGSIZE"
  shows "begin_op s = Ret (s\<lparr>cpus := rested (cpus s) (ncpu s) (lapicid s) (ifl s),
    the_log := (the_log s)\<lparr>outstanding := outstanding (the_log s) + 1\<rparr>\<rparr>)"
proof -
  note [simp] = readyD [OF assms(1)]
  show ?thesis
    using assms(2-) by (simp add: begin_op_def acquire_at_free Let_def upd_log_def
      release_at_taken [where cs = "cpus s" and b = "ifl s" and k = "locks s LogLock"])
qed

lemma ready_log:
  assumes "ready s"
  shows "ready (s\<lparr>cpus := rested (cpus s) (ncpu s) (lapicid s) (ifl s), the_log := L\<rparr>)"
  by (rule ready_frame [OF assms]) simp_all

section \<open>A concrete machine\<close>

text \<open>One CPU that runs process 0, unused buffers and a disk; the witnesses run on it.\<close>

definition proc0 :: proc where
  "proc0 = \<lparr>sz = 0, pgdir = 0, kstack = 0, pstate = RUNNING, pid = 1, parent = None, tf = 0, pcontext = 0,
     chan = None, killed = False, ofile = replicate NOFILE None, cwd = None, pname = []\<rparr>"

definition buf0 :: buf where
  "buf0 = \<lparr>flags = 0, bdev = 0, blockno = 0, refcnt = 0, bprev = 0, bnext = 0, qnext = None, data = replicate BSIZE 0\<rparr>"

definition log0 :: log where
  "log0 = \<lparr>lstart = 0, lsize = 0, outstanding = 0, committing = False, ldev = 0, lh = \<lparr>lh_n = 0, lh_block = replicate LOGSIZE 0\<rparr>\<rparr>"

definition machine_with :: "uchar list list \<Rightarrow> 'a \<Rightarrow> 'a lst_scheme" where
  "machine_with D m = \<lparr>cpus = [cpu0\<lparr>cproc := Some 0\<rparr>], ncpu = 1, lapicid = 0, ifl = True, cr3 = 0, mem = (\<lambda>_. 0), freelist = 0,
     use_lock = True, kmem_lock = initlock ''kmem'', kend = 0x80110000, kdata = 0x80108000, kpgdir = 0, cpus_addr = 0,
     locks = (\<lambda>_. initlock ''''), procs = [proc0], initproc = Some 0, nextpid = 2, trapret = 0, forkret_addr = 0,
     slocks = (\<lambda>_. \<lparr>slocked = 0, sname = '''', spid = 0\<rparr>),
     bufs = replicate (Suc NBUF) buf0, disk = D, dwrites = [], the_log = log0, \<dots> = m\<rparr>"

abbreviation machine :: "uchar list list \<Rightarrow> lst" where
  "machine D \<equiv> machine_with D ()"

lemma machine_ready: "ready (machine_with D m)"
  by (simp add: ready_def machine_with_def ok_at_def hw_ok_def cur_cpu_def me_at_def here_at_def here_def cpu0_def lock_free_def initlock_def)

lemma machine_fields [simp]: "disk (machine_with D m) = D" "dwrites (machine_with D m) = []" "the_log (machine_with D m) = log0"
  by (simp_all add: machine_with_def)

lemma machine_cache: "blocks_ok D \<Longrightarrow> cache (binit (machine D)) (\<lambda>b. D ! unat b) Map.empty {}"
  using binit_cache [OF machine_ready [of D "()"]] by (simp add: machine_with_def unused_buf_def buf0_def)

lemma binit_fields [simp]: "disk (binit s) = disk s" "dwrites (binit s) = dwrites s" "the_log (binit s) = the_log s"
proof -
  let ?s = "s\<lparr>locks := (locks s)(BcacheLock := initlock ''bcache''), bufs := bufs (upd_buf bhead (\<lambda>x. x\<lparr>bnext := bhead\<rparr>) (upd_buf bhead (\<lambda>x. x\<lparr>bprev := bhead\<rparr>) s))\<rparr>"
  have "binit s = fold binit_one [0..<NBUF] ?s" by (simp add: binit_def upd_buf_def Let_def del: upt_rec_numeral)
  moreover obtain ls sl where "fold binit_one [0..<NBUF] ?s = ?s\<lparr>locks := ls, slocks := sl, bufs := fold linked [0..<NBUF] (bufs ?s)\<rparr>"
    using fold_binit_one [of NBUF ?s] by blast
  ultimately have e: "binit s = ?s\<lparr>locks := ls, slocks := sl, bufs := fold linked [0..<NBUF] (bufs ?s)\<rparr>" by simp
  show "disk (binit s) = disk s" "dwrites (binit s) = dwrites s" unfolding e by (simp_all del: upt_rec_numeral)
  show "the_log (binit s) = the_log s" unfolding e by (simp del: upt_rec_numeral)
qed

section \<open>Properties\<close>

text \<open>
  C17: \<open>binit\<close> turns the zeroed buffers of the kernel into an empty cache.  It runs before there is a process; in
  any later state in which a process runs and the buffers and the disk are as \<open>binit\<close> has left them, the
  cache stands for the disk: the list visits every buffer once in each direction, every block read has the contents
  of the disk, no buffer is held and none is dirty.
\<close>

theorem binit_empty_cache:
  assumes "length (bufs s) = Suc NBUF" and "\<forall>x\<in>set (bufs s). unused_buf x" and "blocks_ok (disk s)"
    and "ready t" and "bufs t = bufs (binit s)" and "\<forall>i<NBUF. slocks t (BufSleep i) = slocks (binit s) (BufSleep i)"
    and "disk t = disk s"
  shows "cache t (\<lambda>b. disk s ! unat b) Map.empty {}"
  by (rule binit_start [OF assms])

text \<open>The machine before its first process, and the same machine with a process after \<open>binit\<close>.\<close>

theorem binit_empty_cache_witness:
  "me_at (cpus ((machine [replicate BSIZE 7])\<lparr>cpus := [cpu0]\<rparr>)) 1 0 = None \<and>
   cache ((machine [replicate BSIZE 7])\<lparr>bufs := bufs (binit ((machine [replicate BSIZE 7])\<lparr>cpus := [cpu0]\<rparr>)),
      slocks := slocks (binit ((machine [replicate BSIZE 7])\<lparr>cpus := [cpu0]\<rparr>))\<rparr>)
     (\<lambda>b. [replicate BSIZE 7] ! unat b) Map.empty {}"
proof -
  let ?s = "(machine [replicate BSIZE 7])\<lparr>cpus := [cpu0]\<rparr>"
  let ?t = "(machine [replicate BSIZE 7])\<lparr>bufs := bufs (binit ?s), slocks := slocks (binit ?s)\<rparr>"
  have s: "length (bufs ?s) = Suc NBUF" "\<forall>x\<in>set (bufs ?s). unused_buf x" "blocks_ok (disk ?s)"
    by (simp_all add: machine_with_def unused_buf_def buf0_def blocks_ok_def)
  have "ready ?t" using machine_ready [of "[replicate BSIZE 7]" "()"] by (simp add: ready_def split: option.splits)
  from binit_empty_cache [OF s this] have "cache ?t (\<lambda>b. disk ?s ! unat b) Map.empty {}" by simp
  moreover have "me_at (cpus ?s) 1 0 = None" by (simp add: me_at_def here_at_def here_def cur_cpu_def cpu0_def)
  ultimately show ?thesis by simp
qed

text \<open>
  C16: \<open>log_write\<close> on a buffer the caller holds pins its block: the block becomes dirty, so that the
  cache keeps it, and enters the header unless it is already there (absorption); the header keeps
  its invariant and nothing is written to the disk.
\<close>

theorem log_write_pins_block:
  assumes "cache s B H Q" and "H n = Some b" and "log_ok (the_log s)"
    and "int (logged (the_log s)) < lsize (the_log s) - 1" and "logged (the_log s) < LOGSIZE" and "1 \<le> outstanding (the_log s)"
  shows "runs (log_write b s) (\<lambda>t. cache t B H (insert n Q) \<and> log_ok (the_log t) \<and> disk t = disk s \<and> dwrites t = dwrites s
    \<and> homes (the_log t) = (if n \<in> set (homes (the_log s)) then homes (the_log s) else homes (the_log s) @ [n]))"
  by (rule runs_mono [OF log_write_cache [OF assms]]) (use homes_log_add [OF assms(3,5)] in auto)

text \<open>One empty block, read and held, in an operation that has begun.\<close>

definition in_op :: "uchar list list \<Rightarrow> lst" where
  "in_op D = upd_log (\<lambda>l. l\<lparr>lstart := 2, lsize := 30, ldev := 1, outstanding := 1\<rparr>) (binit (machine D))"

lemma in_op_cache: "blocks_ok D \<Longrightarrow> cache (in_op D) (\<lambda>b. D ! unat b) Map.empty {}"
  by (simp add: in_op_def machine_cache)

lemma in_op_fields: "the_log (in_op D) = log0\<lparr>lstart := 2, lsize := 30, ldev := 1, outstanding := 1\<rparr>" "disk (in_op D) = D" "dwrites (in_op D) = []"
  by (simp_all add: in_op_def)

theorem log_write_pins_block_witness:
  "runs (andthen (bread 1 0 (in_op [replicate BSIZE 7])) (\<lambda>(b, s). log_write b s)) (\<lambda>t. homes (the_log t) = [0])"
proof -
  let ?s = "in_op [replicate BSIZE 7]"
  have c: "cache ?s (\<lambda>b. [replicate BSIZE 7] ! unat b) Map.empty {}" by (rule in_op_cache) (simp add: blocks_ok_def)
  have "runs (bread 1 0 ?s) (\<lambda>(b, t). cache t (\<lambda>b. [replicate BSIZE 7] ! unat b) (Map.empty(0 := Some b)) {} \<and> the_log t = the_log ?s)"
    by (rule runs_mono [OF bread_cache [OF c]]) (auto simp: in_op_fields bframe_log)
  then show ?thesis
    unfolding runs_andthen
  proof (rule runs_mono, clarify)
    fix b t assume t: "cache t (\<lambda>b. [replicate BSIZE 7] ! unat b) (Map.empty(0 := Some b)) {}" "the_log t = the_log ?s"
    have "log_ok (the_log t)" "logged (the_log t) = 0" "homes (the_log t) = []"
      by (simp_all add: t(2) in_op_fields log0_def log_ok_def logged_def homes_def)
    then show "runs (log_write b t) (\<lambda>t. homes (the_log t) = [0])"
      by (intro runs_mono [OF log_write_pins_block [OF t(1)]]) (auto simp: t(2) in_op_fields)
  qed
qed

text \<open>
  C18: the log promises more than it holds.  On the file system mkfs makes, whose log has 30 blocks,
  three operations that start together are all admitted, for 10 blocks each; yet the log holds 29
  blocks beside its header, and \<open>log_write\<close> stops the machine at the thirtieth block.
\<close>

theorem log_promises_too_much:
  assumes "ready s" and "\<not> committing (the_log s)" and "lh_n (lh (the_log s)) = 0" and "outstanding (the_log s) = 0"
    and "lsize (the_log s) = int LOGSIZE"
  shows "runs (andthen (begin_op s) (\<lambda>s. andthen (begin_op s) begin_op)) (\<lambda>t. outstanding (the_log t) * int MAXOPBLOCKS = int LOGSIZE
    \<and> log_write b (upd_log (\<lambda>l. l\<lparr>lh := (lh l)\<lparr>lh_n := 29\<rparr>\<rparr>) t) = Panic ''too big a transaction'')"
proof -
  have step: "\<exists>t. begin_op s = Ret t \<and> ready t \<and> the_log t = (the_log s)\<lparr>outstanding := outstanding (the_log s) + 1\<rparr>"
    if "ready s" "\<not> committing (the_log s)" "lh_n (lh (the_log s)) = 0" "outstanding (the_log s) \<le> 2" for s :: "'a lst_scheme"
    using begin_op_eq [OF that(1,2)] that(3,4) ready_log [OF that(1)] by simp
  obtain s1 where 1: "begin_op s = Ret s1" "ready s1" "the_log s1 = (the_log s)\<lparr>outstanding := 1\<rparr>" using step [of s] assms by auto
  obtain s2 where 2: "begin_op s1 = Ret s2" "ready s2" "the_log s2 = (the_log s)\<lparr>outstanding := 2\<rparr>" using step [of s1] 1 assms by auto
  obtain s3 where 3: "begin_op s2 = Ret s3" "the_log s3 = (the_log s)\<lparr>outstanding := 3\<rparr>" using step [of s2] 2 assms by auto
  show ?thesis using 1(1) 2(1) 3 assms(5) by (simp add: log_write_def)
qed

theorem log_promises_too_much_witness:
  "runs (andthen (begin_op (upd_log (\<lambda>l. l\<lparr>outstanding := 0\<rparr>) (in_op []))) (\<lambda>s. andthen (begin_op s) begin_op))
     (\<lambda>t. outstanding (the_log t) * int MAXOPBLOCKS = int LOGSIZE
       \<and> log_write 0 (upd_log (\<lambda>l. l\<lparr>lh := (lh l)\<lparr>lh_n := 29\<rparr>\<rparr>) t) = Panic ''too big a transaction'')"
proof -
  have "cache (upd_log (\<lambda>l. l\<lparr>outstanding := 0\<rparr>) (in_op [])) (\<lambda>b. [] ! unat b) Map.empty {}"
    by (simp add: in_op_cache blocks_ok_def)
  then have "ready (upd_log (\<lambda>l. l\<lparr>outstanding := 0\<rparr>) (in_op []))" by (rule cacheD)
  then show ?thesis by (rule log_promises_too_much) (simp_all add: in_op_fields log0_def)
qed
end
