(* ===== verification/Crash.thy ===== *)
theory Crash
  imports Logwrite
begin

text \<open>
  The write-ahead log of log.c above the buffer cache: what \<open>commit\<close> writes to the disk and in which
  order, what \<open>initlog\<close> does with the disk a crash leaves, and that together they make a transaction
  atomic.
\<close>

unbundle bit_operations_syntax

section \<open>Fields of a block\<close>

lemma length_put32 [simp]: "length (put32 d i w) = length d"
  by (simp add: put32_def)

lemma length_put16 [simp]: "length (put16 d i w) = length d"
  by (simp add: put16_def)

lemma get32_put32 [simp]:
  assumes "i + 3 < length d"
  shows "get32 (put32 d i w) i = w"
proof (rule bit_word_eqI)
  fix n assume "n < LENGTH(32)"
  then consider "n < 8" | "8 \<le> n" "n < 16" | "16 \<le> n" "n < 24" | "24 \<le> n" "n < 32"
    by force
  then show "bit (get32 (put32 d i w) i) n \<longleftrightarrow> bit w n"
    using assms by cases (auto simp: get32_def put32_def bit_simps)
qed

lemma get32_put32_other:
  assumes "j + 4 \<le> i \<or> i + 4 \<le> j"
  shows "get32 (put32 d i w) j = get32 d j"
  using assms unfolding get32_def put32_def by auto

lemma get16_put16 [simp]:
  assumes "i + 1 < length d"
  shows "get16 (put16 d i w) i = w"
proof (rule bit_word_eqI)
  fix n assume "n < LENGTH(16)"
  then have "n < 16" by simp
  then show "bit (get16 (put16 d i w) i) n \<longleftrightarrow> bit w n"
    using assms unfolding get16_def put16_def
    by (simp add: nth_list_update bit_simps) (auto simp: not_less)
qed

lemma get16_put16_other: "j + 2 \<le> i \<or> i + 2 \<le> j \<Longrightarrow> get16 (put16 d i w) j = get16 d j"
  and get16_put32_other: "j + 2 \<le> i \<or> i + 4 \<le> j \<Longrightarrow> get16 (put32 d i v) j = get16 d j"
  and get32_put16_other: "j + 4 \<le> i \<or> i + 2 \<le> j \<Longrightarrow> get32 (put16 d i w) j = get32 d j"
  unfolding get16_def put16_def get32_def put32_def by auto

lemma length_put_blocks [simp]: "length (put_blocks n bl d) = length d"
  by (induction n) simp_all

lemma get32_put_blocks:
  "4 + 4 * n \<le> length d \<Longrightarrow> i < n \<Longrightarrow> get32 (put_blocks n bl d) (4 + 4 * i) = bl ! i"
proof (induction n)
  case (Suc n)
  show ?case
  proof (cases "i = n")
    case False
    with Suc have "i < n" "4 + 4 * n \<le> length d" by simp_all
    then have "get32 (put_blocks n bl d) (4 + 4 * i) = bl ! i" by (rule Suc.IH [rotated])
    then show ?thesis using \<open>i < n\<close> by (simp add: get32_put32_other)
  qed (use Suc.prems in simp)
qed simp

lemma get32_put_blocks_0: "get32 (put_blocks n bl d) 0 = get32 d 0"
  by (induction n) (simp_all add: get32_put32_other)

section \<open>Sequences of writes\<close>

definition apply_writes :: "(uint \<times> uchar list) list \<Rightarrow> uchar list list \<Rightarrow> uchar list list" where
  "apply_writes ws D = fold (\<lambda>(n, d) D. D[unat n := d]) ws D"

definition upd_blocks :: "(uint \<times> uchar list) list \<Rightarrow> (uint \<Rightarrow> uchar list) \<Rightarrow> uint \<Rightarrow> uchar list" where
  "upd_blocks ws B = fold (\<lambda>(n, d) B. B(n := d)) ws B"

lemma apply_writes_simps [simp]:
  "apply_writes [] D = D" "apply_writes ((n, d) # ws) D = apply_writes ws (D[unat n := d])"
  "apply_writes (ws @ vs) D = apply_writes vs (apply_writes ws D)"
  by (simp_all add: apply_writes_def)

lemma upd_blocks_simps [simp]:
  "upd_blocks [] B = B" "upd_blocks ((n, d) # ws) B = upd_blocks ws (B(n := d))"
  "upd_blocks (ws @ vs) B = upd_blocks vs (upd_blocks ws B)"
  by (simp_all add: upd_blocks_def)

lemma length_apply_writes [simp]: "length (apply_writes ws D) = length D"
  by (induction ws arbitrary: D) auto

lemma apply_writes_other: "n \<notin> fst ` set ws \<Longrightarrow> apply_writes ws D ! unat n = D ! unat n"
proof (induction ws arbitrary: D)
  case (Cons w ws)
  obtain m d where w: "w = (m, d)" by (cases w)
  with Cons.prems have "unat m \<noteq> unat n" by (auto simp: uint_eq_iff_unat)
  with Cons show ?case by (simp add: w)
qed simp

lemma upd_blocks_other: "n \<notin> fst ` set ws \<Longrightarrow> upd_blocks ws B n = B n"
  by (induction ws arbitrary: B) auto

lemma upd_blocks_at:
  assumes "distinct (map fst ws)" and "(n, d) \<in> set ws"
  shows "upd_blocks ws B n = d"
  using assms
proof (induction ws arbitrary: B)
  case (Cons w ws)
  then show ?case
  proof (cases "w = (n, d)")
    case True
    then show ?thesis using Cons.prems by (simp add: upd_blocks_other)
  next
    case False
    then have "(n, d) \<in> set ws" using Cons.prems by auto
    moreover obtain m e where "w = (m, e)" by (cases w)
    ultimately show ?thesis using Cons by simp
  qed
qed simp

lemma apply_writes_at:
  assumes "distinct (map fst ws)" and "(n, d) \<in> set ws" and "unat n < length D"
  shows "apply_writes ws D ! unat n = d"
  using assms
proof (induction ws arbitrary: D)
  case (Cons w ws)
  then show ?case
  proof (cases "w = (n, d)")
    case True
    then show ?thesis using Cons.prems by (simp add: apply_writes_other)
  next
    case False
    then have "(n, d) \<in> set ws" using Cons.prems by auto
    moreover obtain m e where "w = (m, e)" by (cases w)
    ultimately show ?thesis using Cons by simp
  qed
qed simp
section \<open>Copying a block\<close>

lemma cache_clean:
  assumes "cache s B H Q" and "unat n < length (disk s)" and "n \<notin> Q" and "H n = None"
  shows "B n = disk s ! unat n"
  using cacheD(8) [OF assms(1)] assms(2-4) by (auto simp: on_disk_def)

lemma cache_length:
  assumes "cache s B H Q" and "unat n < length (disk s)"
  shows "length (B n) = BSIZE"
  using cacheD(8) [OF assms(1)] assms(2) by (auto simp: on_disk_def)

lemma cache_finite:
  assumes "cache s B H Q"
  shows "finite Q"
proof (rule finite_subset)
  show "Q \<subseteq> (\<lambda>i. blockno (bufs s ! i)) ` {..<NBUF}"
    using cacheD(6) [OF assms] by (auto simp: pins_def)
qed simp

lemma cache_data:
  assumes "cache s B H Q" and "H n = Some b"
  shows "data (bufs s ! b) = B n" and "unat n < length (disk s)"
  using contentsD [OF cacheD(7) [OF assms(1)], of b] holds_slot [OF cacheD(5) [OF assms(1)] assms(2)]
    holds_held [OF cacheD(5) [OF assms(1)] assms(2)] by auto

lemma room_one: "finite Q \<Longrightarrow> card Q + 2 \<le> NBUF \<Longrightarrow> card (dom (Map.empty(l := Some to)) \<union> Q) < NBUF"
  by (simp add: card_insert_if)

text \<open>The contract of the three operations, as elimination rules.\<close>

lemma breadE:
  assumes "cache s B H Q" and "unat n < length (disk s)" and "H n = None" and "n \<in> Q \<or> card (dom H \<union> Q) < NBUF"
  obtains b t where "bread 1 n s = Ret (b, t)" and "cache t B (H(n := Some b)) Q" and "bframe s t"
    and "disk t = disk s" and "dwrites t = dwrites s"
  using bread_cache [OF assms] by (auto simp: runs_iff)

lemma bwriteE:
  assumes "cache s B H Q" and "H n = Some b" and "B n = d"
  obtains t where "bwrite b s = Ret t" and "cache t B H (Q - {n})" and "bframe s t"
    and "disk t = (disk s)[unat n := d]" and "dwrites t = dwrites s @ [(n, d)]"
  using bwrite_cache [OF assms(1,2)] assms(3) by (auto simp: runs_iff)

lemma brelseE:
  assumes "cache s B H Q" and "H n = Some b" and "n \<in> Q \<or> B n = disk s ! unat n" and "H(n := None) = H'"
  obtains t where "brelse b s = Ret t" and "cache t B H' Q" and "bframe s t"
    and "disk t = disk s" and "dwrites t = dwrites s"
  using brelse_cache [OF assms(1-3)] assms(4) by (auto simp: runs_iff)

text \<open>The block of the log that holds the \<open>j\<close>th logged block, and the home of that block.\<close>

definition log_block :: "log \<Rightarrow> nat \<Rightarrow> uint" where
  "log_block L j = lstart L + of_nat j + 1"

definition home :: "log \<Rightarrow> nat \<Rightarrow> uint" where
  "home L j = lh_block (lh L) ! j"

text \<open>
  One round of \<open>write_log\<close>: the contents of the logged block go to a block of the log, in the cache
  and on the disk.
\<close>

lemma log_one:
  assumes c: "cache s B Map.empty Q" and l: "unat l < length (disk s)" "l \<notin> Q"
    and h: "unat h < length (disk s)" "h \<in> Q" and q: "card Q < NBUF"
    and L: "the_log s = L" "ldev L = 1" "log_block L j = l" "home L j = h"
  shows "runs (andthen (bread (ldev (the_log s)) (lstart (the_log s) + of_nat j + 1) s) (\<lambda>(to, s).
       andthen (bread (ldev (the_log s)) (lh_block (lh (the_log s)) ! j) s) (\<lambda>(frm, s).
       let s = set_data to (data (bufs s ! frm)) s in
       andthen (bwrite to s) (\<lambda>s.
       andthen (brelse frm s) (\<lambda>s. brelse to s)))))
     (\<lambda>t. cache t (B(l := B h)) Map.empty Q \<and> bframe s t \<and> disk t = (disk s)[unat l := B h]
        \<and> dwrites t = dwrites s @ [(l, B h)])"
proof -
  have lh: "l \<noteq> h" using l(2) h(2) by auto
  have r1: "l \<in> Q \<or> card (dom (Map.empty :: uint \<Rightarrow> nat option) \<union> Q) < NBUF" using q by simp
  obtain to s1 where 1: "bread 1 l s = Ret (to, s1)" "cache s1 B (Map.empty(l := Some to)) Q" "bframe s s1"
      "disk s1 = disk s" "dwrites s1 = dwrites s"
    by (rule breadE [OF c l(1) _ r1]) simp
  obtain frm s2 where 2: "bread 1 h s1 = Ret (frm, s2)" "cache s2 B (Map.empty(l := Some to, h := Some frm)) Q" "bframe s1 s2"
      "disk s2 = disk s1" "dwrites s2 = dwrites s1"
    by (rule breadE [OF 1(2), of h]) (use h lh 1(4) in auto)
  let ?H = "Map.empty(l := Some to, h := Some frm)"
  have Hl: "?H l = Some to" and Hh: "?H h = Some frm" using lh by simp_all
  have dh: "data (bufs s2 ! frm) = B h" by (rule cache_data [OF 2(2) Hh])
  note 3 = set_data_cache [OF 2(2) Hl cache_length [OF c h(1)]]
  let ?s3 = "set_data to (B h) s2"
  obtain s4 where 4: "bwrite to ?s3 = Ret s4" "cache s4 (B(l := B h)) ?H (Q - {l})" "bframe ?s3 s4"
      "disk s4 = (disk ?s3)[unat l := B h]" "dwrites s4 = dwrites ?s3 @ [(l, B h)]"
    by (rule bwriteE [OF 3(1) Hl, of "B h"]) simp
  obtain s5 where 5: "brelse frm s4 = Ret s5" "cache s5 (B(l := B h)) (Map.empty(l := Some to)) (Q - {l})" "bframe s4 s5"
      "disk s5 = disk s4" "dwrites s5 = dwrites s4"
    by (rule brelseE [OF 4(2) Hh, where H' = "Map.empty(l := Some to)"]) (use h(2) lh in \<open>auto simp: fun_eq_iff\<close>)
  obtain s6 where 6: "brelse to s5 = Ret s6" "cache s6 (B(l := B h)) Map.empty (Q - {l})" "bframe s5 s6"
      "disk s6 = disk s5" "dwrites s6 = dwrites s5"
    by (rule brelseE [OF 5(2), of l to Map.empty]) (use 5(4) 4(4) 3(3) 2(4) 1(4) l(1) in auto)
  have "bframe s s6" using 1(3) 2(3) 3(2) 4(3) 5(3) 6(3) by (blast intro: bframe_trans)
  moreover have "Q - {l} = Q" using l(2) by simp
  moreover have "the_log s1 = L" using bframe_log [OF 1(3)] L(1) by simp
  ultimately show ?thesis
    using L 1(1,4,5) 2(1,4,5) dh 3(3,4) 4(1,4,5) 5(1,4,5) 6 by (simp add: log_block_def home_def)
qed

text \<open>One round of \<open>install_trans\<close>: the block of the log goes to its home, which is then clean.\<close>

lemma install_one:
  assumes c: "cache s B Map.empty Q" and l: "unat l < length (disk s)" "l \<notin> Q"
    and h: "unat h < length (disk s)" and lh: "l \<noteq> h" and q: "card Q < NBUF" and qh: "h \<in> Q \<or> card Q + 2 \<le> NBUF"
    and L: "the_log s = L" "ldev L = 1" "log_block L j = l" "home L j = h"
  shows "runs (andthen (bread (ldev (the_log s)) (lstart (the_log s) + of_nat j + 1) s) (\<lambda>(lbuf, s).
       andthen (bread (ldev (the_log s)) (lh_block (lh (the_log s)) ! j) s) (\<lambda>(dbuf, s).
       let s = set_data dbuf (data (bufs s ! lbuf)) s in
       andthen (bwrite dbuf s) (\<lambda>s.
       andthen (brelse lbuf s) (\<lambda>s. brelse dbuf s)))))
     (\<lambda>t. cache t (B(h := B l)) Map.empty (Q - {h}) \<and> bframe s t \<and> disk t = (disk s)[unat h := B l]
        \<and> dwrites t = dwrites s @ [(h, B l)])"
proof -
  have r1: "l \<in> Q \<or> card (dom (Map.empty :: uint \<Rightarrow> nat option) \<union> Q) < NBUF" using q by simp
  obtain to s1 where 1: "bread 1 l s = Ret (to, s1)" "cache s1 B (Map.empty(l := Some to)) Q" "bframe s s1"
      "disk s1 = disk s" "dwrites s1 = dwrites s"
    by (rule breadE [OF c l(1) _ r1]) simp
  obtain frm s2 where 2: "bread 1 h s1 = Ret (frm, s2)" "cache s2 B (Map.empty(l := Some to, h := Some frm)) Q" "bframe s1 s2"
      "disk s2 = disk s1" "dwrites s2 = dwrites s1"
    by (rule breadE [OF 1(2), of h]) (use h(1) lh 1(4) qh room_one [OF cache_finite [OF c]] in auto)
  let ?H = "Map.empty(l := Some to, h := Some frm)"
  have Hl: "?H l = Some to" and Hh: "?H h = Some frm" using lh by simp_all
  have dl: "data (bufs s2 ! to) = B l" by (rule cache_data [OF 2(2) Hl])
  note 3 = set_data_cache [OF 2(2) Hh cache_length [OF c l(1)]]
  let ?s3 = "set_data frm (B l) s2"
  obtain s4 where 4: "bwrite frm ?s3 = Ret s4" "cache s4 (B(h := B l)) ?H (Q - {h})" "bframe ?s3 s4"
      "disk s4 = (disk ?s3)[unat h := B l]" "dwrites s4 = dwrites ?s3 @ [(h, B l)]"
    by (rule bwriteE [OF 3(1) Hh, of "B l"]) simp
  have disk4: "disk s4 = (disk s)[unat h := B l]" using 4(4) 3(3) 2(4) 1(4) by simp
  have "B l = disk s ! unat l" using cache_clean [OF c l(1,2)] by simp
  then have cl: "l \<in> Q - {h} \<or> (B(h := B l)) l = disk s4 ! unat l"
    using lh by (simp add: disk4 nth_list_update uint_eq_iff_unat)
  obtain s5 where 5: "brelse to s4 = Ret s5" "cache s5 (B(h := B l)) (Map.empty(h := Some frm)) (Q - {h})" "bframe s4 s5"
      "disk s5 = disk s4" "dwrites s5 = dwrites s4"
    by (rule brelseE [OF 4(2) Hl cl, where H' = "Map.empty(h := Some frm)"]) (use lh in \<open>auto simp: fun_eq_iff\<close>)
  obtain s6 where 6: "brelse frm s5 = Ret s6" "cache s6 (B(h := B l)) Map.empty (Q - {h})" "bframe s5 s6"
      "disk s6 = disk s5" "dwrites s6 = dwrites s5"
    by (rule brelseE [OF 5(2), of h frm Map.empty]) (use 5(4) disk4 h in auto)
  have "bframe s s6" using 1(3) 2(3) 3(2) 4(3) 5(3) 6(3) by (blast intro: bframe_trans)
  moreover have "the_log s1 = L" using bframe_log [OF 1(3)] L(1) by simp
  ultimately show ?thesis
    using L 1(1,5) 2(1,5) dl 3(4) 4(1,5) 5(1,4,5) 6 disk4 by (simp add: log_block_def home_def)
qed

text \<open>The header block of a log, written over the old contents of that block.\<close>

definition head_block :: "log \<Rightarrow> uchar list \<Rightarrow> uchar list" where
  "head_block L d = put_blocks (nat (lh_n (lh L))) (lh_block (lh L)) (put32 d 0 (of_int (lh_n (lh L))))"

lemma length_head_block [simp]: "length (head_block L d) = length d"
  by (simp add: head_block_def)

lemma write_head_spec:
  assumes c: "cache s B Map.empty Q" and L: "the_log s = L" "ldev L = 1" "lstart L = l"
    and l: "unat l < length (disk s)" "l \<notin> Q" and q: "card Q < NBUF"
  shows "runs (write_head s) (\<lambda>t. cache t (B(l := head_block L (B l))) Map.empty Q \<and> bframe s t
    \<and> disk t = (disk s)[unat l := head_block L (B l)] \<and> dwrites t = dwrites s @ [(l, head_block L (B l))])"
proof -
  have r1: "l \<in> Q \<or> card (dom (Map.empty :: uint \<Rightarrow> nat option) \<union> Q) < NBUF" using q by simp
  obtain b s1 where 1: "bread 1 l s = Ret (b, s1)" "cache s1 B (Map.empty(l := Some b)) Q" "bframe s s1"
      "disk s1 = disk s" "dwrites s1 = dwrites s"
    by (rule breadE [OF c l(1) _ r1]) simp
  let ?H = "Map.empty(l := Some b)" and ?d = "head_block L (B l)"
  have Hl: "?H l = Some b" and len: "length ?d = BSIZE" by (simp_all add: cache_length [OF c l(1)])
  have dl: "data (bufs s1 ! b) = B l" by (rule cache_data [OF 1(2) Hl])
  note 3 = set_data_cache [OF 1(2) Hl len]
  let ?s3 = "set_data b ?d s1"
  obtain s4 where 4: "bwrite b ?s3 = Ret s4" "cache s4 (B(l := ?d)) ?H (Q - {l})" "bframe ?s3 s4"
      "disk s4 = (disk ?s3)[unat l := ?d]" "dwrites s4 = dwrites ?s3 @ [(l, ?d)]"
    by (rule bwriteE [OF 3(1) Hl, of ?d]) simp
  obtain s5 where 5: "brelse b s4 = Ret s5" "cache s5 (B(l := ?d)) Map.empty (Q - {l})" "bframe s4 s5"
      "disk s5 = disk s4" "dwrites s5 = dwrites s4"
    by (rule brelseE [OF 4(2) Hl, of Map.empty]) (use 4(4) 3(3) 1(4) l(1) in auto)
  have "bframe s s5" using 1(3) 3(2) 4(3) 5(3) by (blast intro: bframe_trans)
  moreover have "Q - {l} = Q" using l(2) by simp
  moreover have "the_log s1 = L" using bframe_log [OF 1(3)] L(1) by simp
  ultimately show ?thesis
    using L 1(1,4,5) dl 4(1,4,5) 5 3(3,4) by (simp add: write_head_def Let_def head_block_def)
qed

text \<open>Reading a block and letting it go.\<close>

lemma read_one:
  assumes c: "cache s B Map.empty Q" and l: "unat l < length (disk s)" and q: "l \<in> Q \<or> card Q < NBUF"
  obtains b s1 s2 where "bread 1 l s = Ret (b, s1)" and "data (bufs s1 ! b) = B l" and "bframe s s1"
    and "brelse b s1 = Ret s2" and "cache s2 B Map.empty Q" and "bframe s s2" and "disk s2 = disk s" and "dwrites s2 = dwrites s"
proof -
  have r1: "l \<in> Q \<or> card (dom (Map.empty :: uint \<Rightarrow> nat option) \<union> Q) < NBUF" using q by simp
  obtain b s1 where 1: "bread 1 l s = Ret (b, s1)" "cache s1 B (Map.empty(l := Some b)) Q" "bframe s s1"
      "disk s1 = disk s" "dwrites s1 = dwrites s"
    by (rule breadE [OF c l(1) _ r1]) simp
  have cl: "l \<in> Q \<or> B l = disk s1 ! unat l" using cache_clean [OF c l(1)] 1(4) by auto
  obtain s2 where 2: "brelse b s1 = Ret s2" "cache s2 B Map.empty Q" "bframe s1 s2"
      "disk s2 = disk s1" "dwrites s2 = dwrites s1"
    by (rule brelseE [OF 1(2) _ cl, of b Map.empty]) simp_all
  show thesis
    by (rule that [OF 1(1) cache_data(1) [OF 1(2)] 1(3) 2(1,2)]) (use 1 2 bframe_trans in auto)
qed

section \<open>The loops\<close>

definition log_writes :: "log \<Rightarrow> (uint \<Rightarrow> uchar list) \<Rightarrow> nat list \<Rightarrow> (uint \<times> uchar list) list" where
  "log_writes L B js = map (\<lambda>j. (log_block L j, B (home L j))) js"

definition home_writes :: "log \<Rightarrow> (uint \<Rightarrow> uchar list) \<Rightarrow> nat list \<Rightarrow> (uint \<times> uchar list) list" where
  "home_writes L B js = map (\<lambda>j. (home L j, B (log_block L j))) js"

lemma atLeastLessThan_Suc_first: "{i..<i + Suc k} = insert i {Suc i..<Suc i + k}"
  by auto

lemma write_log_loop_spec:
  assumes "cache s B Map.empty Q" and "the_log s = L" and "ldev L = 1" and "card Q < NBUF"
    and "\<forall>j. i \<le> j \<and> j < i + k \<longrightarrow> unat (log_block L j) < length (disk s) \<and> log_block L j \<notin> Q
      \<and> unat (home L j) < length (disk s) \<and> home L j \<in> Q"
  shows "runs (write_log_loop k i s) (\<lambda>t. let W = log_writes L B [i..<i + k] in
    cache t (upd_blocks W B) Map.empty Q \<and> bframe s t \<and> disk t = apply_writes W (disk s) \<and> dwrites t = dwrites s @ W)"
  using assms
proof (induction k arbitrary: i s B)
  case 0
  then show ?case by (simp add: log_writes_def bframe_refl)
next
  case (Suc k)
  let ?l = "log_block L i" and ?h = "home L i"
  have lh: "unat ?l < length (disk s)" "?l \<notin> Q" "unat ?h < length (disk s)" "?h \<in> Q"
    using Suc.prems(5) by auto
  note one = log_one [OF Suc.prems(1) lh Suc.prems(4,2,3) refl refl]
  let ?B = "B(?l := B ?h)"
  have rest: "runs (write_log_loop k (Suc i) t) (\<lambda>u. let W = log_writes L B [i..<i + Suc k] in
      cache u (upd_blocks W B) Map.empty Q \<and> bframe s u \<and> disk u = apply_writes W (disk s) \<and> dwrites u = dwrites s @ W)"
    if t: "cache t ?B Map.empty Q \<and> bframe s t \<and> disk t = (disk s)[unat ?l := B ?h] \<and> dwrites t = dwrites s @ [(?l, B ?h)]" for t
  proof -
    have L: "the_log t = L" using bframe_log [of s t] t Suc.prems(2) by simp
    have "home L j \<noteq> ?l" if "i \<le> j" "j < i + Suc k" for j using Suc.prems(5) lh(2) that by metis
    then have W: "log_writes L B [i..<i + Suc k] = (?l, B ?h) # log_writes L ?B [Suc i..<Suc i + k]"
      by (simp add: log_writes_def upt_conv_Cons del: upt_Suc)
    have "runs (write_log_loop k (Suc i) t) (\<lambda>u. let W = log_writes L ?B [Suc i..<Suc i + k] in
      cache u (upd_blocks W ?B) Map.empty Q \<and> bframe t u \<and> disk u = apply_writes W (disk t) \<and> dwrites u = dwrites t @ W)"
      using Suc.prems(4,5) t by (intro Suc.IH [OF conjunct1 [OF t] L Suc.prems(3)]) auto
    then show ?thesis unfolding W Let_def by (rule runs_mono) (use t in \<open>auto intro: bframe_trans\<close>)
  qed
  have eq: "write_log_loop (Suc k) i s = andthen (andthen (bread (ldev (the_log s)) (lstart (the_log s) + of_nat i + 1) s) (\<lambda>(to, s).
       andthen (bread (ldev (the_log s)) (lh_block (lh (the_log s)) ! i) s) (\<lambda>(frm, s).
       let s = set_data to (data (bufs s ! frm)) s in
       andthen (bwrite to s) (\<lambda>s.
       andthen (brelse frm s) (\<lambda>s. brelse to s))))) (write_log_loop k (Suc i))"
    by (simp add: andthen_assoc Let_def split_def)
  show ?case unfolding eq by (rule runs_seq [OF one rest])
qed

lemma install_trans_loop_spec:
  assumes "cache s B Map.empty Q" and "the_log s = L" and "ldev L = 1" and "card Q < NBUF"
    and "\<forall>j. i \<le> j \<and> j < i + k \<longrightarrow> unat (log_block L j) < length (disk s) \<and> log_block L j \<notin> Q
      \<and> unat (home L j) < length (disk s) \<and> (home L j \<in> Q \<or> card Q + 2 \<le> NBUF)"
    and "\<forall>j j'. i \<le> j \<and> j < i + k \<and> i \<le> j' \<and> j' < i + k \<longrightarrow> log_block L j \<noteq> home L j'"
    and "\<forall>j j'. i \<le> j \<and> j < j' \<and> j' < i + k \<longrightarrow> home L j \<noteq> home L j'"
  shows "runs (install_trans_loop k i s) (\<lambda>t. let W = home_writes L B [i..<i + k] in
    cache t (upd_blocks W B) Map.empty (Q - home L ` {i..<i + k}) \<and> bframe s t \<and> disk t = apply_writes W (disk s) \<and> dwrites t = dwrites s @ W)"
  using assms
proof (induction k arbitrary: i s B Q)
  case 0
  then show ?case by (simp add: home_writes_def bframe_refl)
next
  case (Suc k)
  let ?l = "log_block L i" and ?h = "home L i"
  have lh: "unat ?l < length (disk s)" "?l \<notin> Q" "unat ?h < length (disk s)" "?l \<noteq> ?h" "?h \<in> Q \<or> card Q + 2 \<le> NBUF"
    using Suc.prems(5,6) by auto
  note one = install_one [OF Suc.prems(1) lh(1-4) Suc.prems(4) lh(5) Suc.prems(2,3) refl refl]
  let ?B = "B(?h := B ?l)" and ?Q = "Q - {?h}"
  have card: "card ?Q < NBUF" "card ?Q \<le> card Q"
    using Suc.prems(4) cache_finite [OF Suc.prems(1)] card_Diff1_le [of Q ?h] by auto
  have rest: "runs (install_trans_loop k (Suc i) t) (\<lambda>u. let W = home_writes L B [i..<i + Suc k] in
      cache u (upd_blocks W B) Map.empty (Q - home L ` {i..<i + Suc k}) \<and> bframe s u \<and> disk u = apply_writes W (disk s) \<and> dwrites u = dwrites s @ W)"
    if t: "cache t ?B Map.empty ?Q \<and> bframe s t \<and> disk t = (disk s)[unat ?h := B ?l] \<and> dwrites t = dwrites s @ [(?h, B ?l)]" for t
  proof -
    have L: "the_log t = L" using bframe_log [of s t] t Suc.prems(2) by simp
    have "log_block L j \<noteq> ?h" if "i \<le> j" "j < i + Suc k" for j using Suc.prems(6) that by auto
    then have W: "home_writes L B [i..<i + Suc k] = (?h, B ?l) # home_writes L ?B [Suc i..<Suc i + k]"
      by (simp add: home_writes_def upt_conv_Cons del: upt_Suc)
    have Q: "Q - home L ` {i..<i + Suc k} = ?Q - home L ` {Suc i..<Suc i + k}"
      by (subst atLeastLessThan_Suc_first) blast
    have "runs (install_trans_loop k (Suc i) t) (\<lambda>u. let W = home_writes L ?B [Suc i..<Suc i + k] in
      cache u (upd_blocks W ?B) Map.empty (?Q - home L ` {Suc i..<Suc i + k}) \<and> bframe t u \<and> disk u = apply_writes W (disk t) \<and> dwrites u = dwrites t @ W)"
    proof (rule Suc.IH [OF conjunct1 [OF t] L Suc.prems(3) card(1)]; intro allI impI)
      fix j assume j: "Suc i \<le> j \<and> j < Suc i + k"
      then have "home L i \<noteq> home L j" by (intro Suc.prems(7) [rule_format]) auto
      with j t card Suc.prems(5) [rule_format, of j]
      show "unat (log_block L j) < length (disk t) \<and> log_block L j \<notin> ?Q
        \<and> unat (home L j) < length (disk t) \<and> (home L j \<in> ?Q \<or> card ?Q + 2 \<le> NBUF)" by auto
    qed (use Suc.prems(6,7) in auto)
    then show ?thesis unfolding W Q Let_def by (rule runs_mono) (use t in \<open>auto intro: bframe_trans\<close>)
  qed
  have eq: "install_trans_loop (Suc k) i s = andthen (andthen (bread (ldev (the_log s)) (lstart (the_log s) + of_nat i + 1) s) (\<lambda>(lbuf, s).
       andthen (bread (ldev (the_log s)) (lh_block (lh (the_log s)) ! i) s) (\<lambda>(dbuf, s).
       let s = set_data dbuf (data (bufs s ! lbuf)) s in
       andthen (bwrite dbuf s) (\<lambda>s.
       andthen (brelse lbuf s) (\<lambda>s. brelse dbuf s))))) (install_trans_loop k (Suc i))"
    by (simp add: andthen_assoc Let_def split_def)
  show ?case unfolding eq by (rule runs_seq [OF one rest])
qed

section \<open>Committing a transaction\<close>

text \<open>
  The log of a transaction that fits the disk: the header block and the blocks after it are the log's
  own, and the homes of the logged blocks are distinct blocks outside it.
\<close>

definition in_log :: "log \<Rightarrow> nat \<Rightarrow> uint \<Rightarrow> bool" where
  "in_log L n b \<longleftrightarrow> unat (lstart L) \<le> unat b \<and> unat b \<le> unat (lstart L) + n"

definition log_fits :: "log \<Rightarrow> nat \<Rightarrow> bool" where
  "log_fits L m \<longleftrightarrow> ldev L = 1 \<and> logged L < NBUF \<and> unat (lstart L) + logged L < m \<and> m \<le> 2 ^ 32
     \<and> (\<forall>j<logged L. unat (home L j) < m \<and> \<not> in_log L (logged L) (home L j))
     \<and> inj_on (home L) {..<logged L}"

lemma unat_log_block:
  assumes "log_fits L m" and "j < logged L"
  shows "unat (log_block L j) = unat (lstart L) + j + 1"
proof -
  have "unat (lstart L) + j + 1 < 2 ^ 32" using assms by (simp add: log_fits_def)
  then show ?thesis
    by (simp add: log_block_def unat_word_ariths unat_of_nat)
qed

lemma log_fitsD:
  assumes "log_fits L m"
  shows "ldev L = 1" "logged L < NBUF" "unat (lstart L) < m"
    and "j < logged L \<Longrightarrow> unat (home L j) < m"
    and "j < logged L \<Longrightarrow> \<not> in_log L (logged L) (home L j)"
    and "j < logged L \<Longrightarrow> k < logged L \<Longrightarrow> home L j = home L k \<Longrightarrow> j = k"
  using assms unfolding log_fits_def by (simp_all add: inj_on_def)

lemma log_blockD:
  assumes f: "log_fits L m" and j: "j < logged L"
  shows "unat (log_block L j) < m" and "in_log L (logged L) (log_block L j)" and "log_block L j \<noteq> lstart L"
    and "k < logged L \<Longrightarrow> log_block L j = log_block L k \<Longrightarrow> j = k"
proof -
  show "unat (log_block L j) < m" "in_log L (logged L) (log_block L j)"
    using unat_log_block [OF f j] f j by (simp_all add: log_fits_def in_log_def)
  show "log_block L j \<noteq> lstart L"
    using unat_log_block [OF f j] by auto
  assume "k < logged L" "log_block L j = log_block L k"
  then have "unat (lstart L) + j + 1 = unat (lstart L) + k + 1"
    by (simp only: unat_log_block [OF f j, symmetric] unat_log_block [OF f \<open>k < logged L\<close>, symmetric])
  then show "j = k" by simp
qed

lemma in_log_start: "in_log L n (lstart L)"
  by (simp add: in_log_def)

lemma home_apart:
  assumes f: "log_fits L m" and j: "j < logged L"
  shows "home L j \<noteq> lstart L" and "k < logged L \<Longrightarrow> log_block L k \<noteq> home L j"
proof -
  show "home L j \<noteq> lstart L" using log_fitsD(5) [OF f j] in_log_start [of L] by auto
  show "log_block L k \<noteq> home L j" if "k < logged L"
    using log_fitsD(5) [OF f j] log_blockD(2) [OF f that] by auto
qed

lemma write_log_spec:
  assumes c: "cache s B Map.empty (home L ` {..<logged L})" and L: "the_log s = L" and f: "log_fits L (length (disk s))"
  shows "runs (write_log s) (\<lambda>t. let W = log_writes L B [0..<logged L] in
    cache t (upd_blocks W B) Map.empty (home L ` {..<logged L}) \<and> bframe s t
    \<and> disk t = apply_writes W (disk s) \<and> dwrites t = dwrites s @ W)"
proof -
  let ?Q = "home L ` {..<logged L}"
  have "card ?Q < NBUF"
    using log_fitsD(2) [OF f] card_image_le [of "{..<logged L}" "home L"] by simp
  moreover have "log_block L j \<notin> ?Q" if "j < logged L" for j
    using home_apart(2) [OF f] that by auto
  ultimately have "runs (write_log_loop (logged L) 0 s) (\<lambda>t. let W = log_writes L B [0..<0 + logged L] in
    cache t (upd_blocks W B) Map.empty ?Q \<and> bframe s t \<and> disk t = apply_writes W (disk s) \<and> dwrites t = dwrites s @ W)"
    using log_fitsD(4) [OF f] log_blockD(1) [OF f] by (intro write_log_loop_spec [OF c L log_fitsD(1) [OF f]]) auto
  then show ?thesis using L by (simp add: write_log_def logged_def)
qed

lemma install_trans_spec:
  assumes c: "cache s B Map.empty Q" and L: "the_log s = L" and f: "log_fits L (length (disk s))"
    and Q: "Q = {} \<or> Q = home L ` {..<logged L}"
  shows "runs (install_trans s) (\<lambda>t. let W = home_writes L B [0..<logged L] in
    cache t (upd_blocks W B) Map.empty {} \<and> bframe s t
    \<and> disk t = apply_writes W (disk s) \<and> dwrites t = dwrites s @ W)"
proof -
  have card: "card Q < NBUF"
    using Q log_fitsD(2) [OF f] card_image_le [of "{..<logged L}" "home L"] by auto
  have one: "unat (log_block L j) < length (disk s) \<and> log_block L j \<notin> Q
      \<and> unat (home L j) < length (disk s) \<and> (home L j \<in> Q \<or> card Q + 2 \<le> NBUF)" if "j < logged L" for j
    using log_fitsD(4) [OF f that] log_blockD(1) [OF f that] home_apart(2) [OF f] Q that by auto
  have "runs (install_trans_loop (logged L) 0 s) (\<lambda>t. let W = home_writes L B [0..<0 + logged L] in
    cache t (upd_blocks W B) Map.empty (Q - home L ` {0..<0 + logged L}) \<and> bframe s t
    \<and> disk t = apply_writes W (disk s) \<and> dwrites t = dwrites s @ W)"
  proof (rule install_trans_loop_spec [OF c L log_fitsD(1) [OF f] card]; intro allI impI)
    fix j j' assume "0 \<le> j \<and> j < j' \<and> j' < 0 + logged L"
    then show "home L j \<noteq> home L j'" using log_fitsD(6) [OF f, of j j'] by auto
  qed (use one home_apart(2) [OF f] in auto)
  moreover have e: "Q - home L ` {0..<0 + logged L} = {}" using Q by (auto simp: lessThan_atLeast0)
  ultimately show ?thesis using L unfolding e by (simp add: install_trans_def logged_def)
qed

definition clear :: "log \<Rightarrow> log" where
  "clear L = L\<lparr>lh := (lh L)\<lparr>lh_n := 0\<rparr>\<rparr>"

lemma clear_simps [simp]: "ldev (clear L) = ldev L" "lstart (clear L) = lstart L" "lh_n (lh (clear L)) = 0"
    "lh_block (lh (clear L)) = lh_block (lh L)"
  by (simp_all add: clear_def)

definition install_writes :: "log \<Rightarrow> (uint \<Rightarrow> uchar list) \<Rightarrow> (uint \<times> uchar list) list" where
  "install_writes L B = map (\<lambda>j. (home L j, B (home L j))) [0..<logged L]"

text \<open>The writes of \<open>commit\<close>, in the order they reach the disk.\<close>

definition commit_writes :: "log \<Rightarrow> (uint \<Rightarrow> uchar list) \<Rightarrow> (uint \<times> uchar list) list" where
  "commit_writes L B = log_writes L B [0..<logged L] @ [(lstart L, head_block L (B (lstart L)))]
     @ install_writes L B @ [(lstart L, head_block (clear L) (head_block L (B (lstart L))))]"

lemma log_writes_at:
  assumes f: "log_fits L m" and j: "j < logged L"
  shows "upd_blocks (log_writes L B [0..<logged L]) F (log_block L j) = B (home L j)"
proof (rule upd_blocks_at)
  show "distinct (map fst (log_writes L B [0..<logged L]))"
    using log_blockD(4) [OF f] by (auto simp: log_writes_def distinct_map inj_on_def)
  show "(log_block L j, B (home L j)) \<in> set (log_writes L B [0..<logged L])"
    using j by (auto simp: log_writes_def)
qed

lemma start_untouched:
  assumes f: "log_fits L m"
  shows "lstart L \<notin> fst ` set (log_writes L B [0..<logged L])" and "lstart L \<notin> fst ` set (install_writes L B)"
  using log_blockD(3) [OF f] home_apart(1) [OF f] by (force simp: log_writes_def install_writes_def)+

lemma commit_spec:
  assumes c: "cache s B Map.empty (home L ` {..<logged L})" and L: "the_log s = L" and f: "log_fits L (length (disk s))"
    and n: "0 < logged L"
  shows "runs (commit s) (\<lambda>t. cache t (upd_blocks (commit_writes L B) B) Map.empty {} \<and> the_log t = clear L
    \<and> disk t = apply_writes (commit_writes L B) (disk s) \<and> dwrites t = dwrites s @ commit_writes L B)"
proof -
  let ?Q = "home L ` {..<logged L}" and ?st = "lstart L"
  let ?W1 = "log_writes L B [0..<logged L]" and ?h = "head_block L (B ?st)"
  let ?B1 = "upd_blocks ?W1 B"
  let ?B2 = "?B1(?st := ?h)"
  let ?W3 = "install_writes L B"
  let ?B3 = "upd_blocks ?W3 ?B2"
  have st1: "?B1 ?st = B ?st" using start_untouched(1) [OF f] by (rule upd_blocks_other)
  have st3: "?B3 ?st = ?h" using upd_blocks_other [OF start_untouched(2) [OF f], of B ?B2] by simp
  have W3: "home_writes L ?B2 [0..<logged L] = ?W3"
    using log_writes_at [OF f, of _ B] log_blockD(3) [OF f] by (simp add: home_writes_def install_writes_def)
  have stQ: "?st \<notin> ?Q" using home_apart(1) [OF f] by force
  have card: "card ?Q < NBUF"
    using log_fitsD(2) [OF f] card_image_le [of "{..<logged L}" "home L"] by simp
  obtain s1 where 1: "write_log s = Ret s1" "cache s1 ?B1 Map.empty ?Q" "bframe s s1"
      "disk s1 = apply_writes ?W1 (disk s)" "dwrites s1 = dwrites s @ ?W1"
    using write_log_spec [OF c L f] by (auto simp: runs_iff Let_def)
  have L1: "the_log s1 = L" using bframe_log [OF 1(3)] L by simp
  have f1: "unat ?st < length (disk s1)" using log_fitsD(3) [OF f] 1(4) by simp
  obtain s2 where 2: "write_head s1 = Ret s2" "cache s2 ?B2 Map.empty ?Q" "bframe s1 s2"
      "disk s2 = (disk s1)[unat ?st := ?h]" "dwrites s2 = dwrites s1 @ [(?st, ?h)]"
    using write_head_spec [OF 1(2) L1 log_fitsD(1) [OF f] refl f1 stQ card] unfolding st1 runs_iff by blast
  have L2: "the_log s2 = L" using bframe_log [OF 2(3)] L1 by simp
  have f2: "log_fits L (length (disk s2))" using f 2(4) 1(4) by simp
  obtain s3 where 3: "install_trans s2 = Ret s3" "cache s3 ?B3 Map.empty {}" "bframe s2 s3"
      "disk s3 = apply_writes ?W3 (disk s2)" "dwrites s3 = dwrites s2 @ ?W3"
    using install_trans_spec [OF 2(2) L2 f2] unfolding W3 runs_iff Let_def by blast
  have L3: "the_log s3 = L" using bframe_log [OF 3(3)] L2 by simp
  let ?s3 = "upd_log clear s3"
  have c3: "cache ?s3 ?B3 Map.empty {}" using 3(2) by simp
  have f3: "unat ?st < length (disk ?s3)" using f1 3(4) 2(4) by simp
  obtain s4 where 4: "write_head ?s3 = Ret s4" "cache s4 (?B3(?st := head_block (clear L) ?h)) Map.empty {}" "bframe ?s3 s4"
      "disk s4 = (disk s3)[unat ?st := head_block (clear L) ?h]" "dwrites s4 = dwrites s3 @ [(?st, head_block (clear L) ?h)]"
    using write_head_spec [OF c3 _ _ _ f3, of "clear L"] L3 log_fitsD(1) [OF f] unfolding st3 runs_iff by auto
  have "the_log s4 = clear L" using bframe_log [OF 4(3)] L3 by simp
  moreover have "commit s = Ret s4"
    using n L 1(1) 2(1) 3(1) 4(1) by (simp add: commit_def Let_def logged_def clear_def [abs_def])
  ultimately show ?thesis
    using 4(2,4,5) 3(4,5) 2(4,5) 1(4,5) by (simp add: commit_writes_def)
qed

section \<open>Recovery\<close>

lemma copy_blocks_spec:
  "n \<le> length dst \<Longrightarrow> copy_blocks n src dst = Ret (map src [0..<n] @ drop n dst)"
  by (induction n) (auto simp: list_update_append upd_conv_take_nth_drop Cons_nth_drop_Suc [symmetric])

text \<open>The log a header block describes.\<close>

definition decoded :: "log \<Rightarrow> uchar list \<Rightarrow> log" where
  "decoded L d = L\<lparr>lh := (lh L)\<lparr>lh_n := sint (get32 d 0),
     lh_block := map (\<lambda>i. get32 d (4 + 4 * i)) [0..<nat (sint (get32 d 0))] @ drop (nat (sint (get32 d 0))) (lh_block (lh L))\<rparr>\<rparr>"

lemma decoded_simps [simp]: "ldev (decoded L d) = ldev L" "lstart (decoded L d) = lstart L"
    "logged (decoded L d) = nat (sint (get32 d 0))"
  by (simp_all add: decoded_def logged_def)

lemma read_head_spec:
  assumes c: "cache s B Map.empty {}" and L: "the_log s = L" "ldev L = 1" "lstart L = st"
    and st: "unat st < length (disk s)" and n: "nat (sint (get32 (B st) 0)) \<le> length (lh_block (lh L))"
  shows "runs (read_head s) (\<lambda>t. cache t B Map.empty {} \<and> the_log t = decoded L (B st) \<and> disk t = disk s \<and> dwrites t = dwrites s)"
proof -
  obtain b s1 where 1: "bread 1 st s = Ret (b, s1)" "cache s1 B (Map.empty(st := Some b)) {}" "bframe s s1"
      "disk s1 = disk s" "dwrites s1 = dwrites s"
    by (rule breadE [OF c st]) simp_all
  have d: "data (bufs s1 ! b) = B st" by (rule cache_data [OF 1(2)]) simp
  have L1: "the_log s1 = L" using bframe_log [OF 1(3)] L(1) by simp
  let ?s1 = "upd_log (\<lambda>l. decoded l (B st)) s1"
  have c1: "cache ?s1 B (Map.empty(st := Some b)) {}" using 1(2) by simp
  have cl: "st \<in> {} \<or> B st = disk ?s1 ! unat st" using cache_clean [OF c st] 1(4) by auto
  obtain s2 where 2: "brelse b ?s1 = Ret s2" "cache s2 B Map.empty {}" "bframe ?s1 s2"
      "disk s2 = disk ?s1" "dwrites s2 = dwrites ?s1"
    by (rule brelseE [OF c1 _ cl, of b Map.empty]) simp_all
  have "read_head s = brelse b ?s1"
    using L L1 1(1) d copy_blocks_spec [OF n] by (simp add: read_head_def Let_def upd_log_def decoded_def)
  then show ?thesis using 2 1(4,5) L1 bframe_log [OF 2(3)] by simp
qed

text \<open>The writes of recovery: every logged block to its home, then an empty header.\<close>

definition recovery_writes :: "log \<Rightarrow> (uint \<Rightarrow> uchar list) \<Rightarrow> (uint \<times> uchar list) list" where
  "recovery_writes L B = home_writes L B [0..<logged L] @ [(lstart L, head_block (clear L) (B (lstart L)))]"

lemma recover_spec:
  assumes c: "cache s B Map.empty {}" and L: "the_log s = L" and D: "decoded L (B (lstart L)) = M"
    and n: "logged M \<le> length (lh_block (lh L))" and f: "log_fits M (length (disk s))"
  shows "runs (recover_from_log s) (\<lambda>t. cache t (upd_blocks (recovery_writes M B) B) Map.empty {} \<and> the_log t = clear M
    \<and> disk t = apply_writes (recovery_writes M B) (disk s) \<and> dwrites t = dwrites s @ recovery_writes M B)"
proof -
  let ?st = "lstart L"
  have M: "lstart M = ?st" "ldev L = 1" "unat ?st < length (disk s)" "nat (sint (get32 (B ?st) 0)) \<le> length (lh_block (lh L))"
    using log_fitsD(1,3) [OF f] n unfolding D [symmetric] by simp_all
  obtain s1 where 1: "read_head s = Ret s1" "cache s1 B Map.empty {}" "the_log s1 = M" "disk s1 = disk s" "dwrites s1 = dwrites s"
    using read_head_spec [OF c L M(2) refl M(3,4)] D by (auto simp: runs_iff)
  let ?W = "home_writes M B [0..<logged M]"
  have f1: "log_fits M (length (disk s1))" using f 1(4) by simp
  obtain s2 where 2: "install_trans s1 = Ret s2" "cache s2 (upd_blocks ?W B) Map.empty {}" "bframe s1 s2"
      "disk s2 = apply_writes ?W (disk s1)" "dwrites s2 = dwrites s1 @ ?W"
    using install_trans_spec [OF 1(2,3) f1] by (auto simp: runs_iff Let_def)
  have L2: "the_log s2 = M" using bframe_log [OF 2(3)] 1(3) by simp
  let ?s2 = "upd_log clear s2"
  have c2: "cache ?s2 (upd_blocks ?W B) Map.empty {}" using 2(2) by simp
  have st: "upd_blocks ?W B (lstart M) = B (lstart M)"
    by (rule upd_blocks_other) (use home_apart(1) [OF f] in \<open>force simp: home_writes_def\<close>)
  have f2: "unat (lstart M) < length (disk ?s2)" using log_fitsD(3) [OF f] 2(4) 1(4) by simp
  let ?h = "head_block (clear M) (B (lstart M))"
  obtain s3 where 3: "write_head ?s2 = Ret s3" "cache s3 ((upd_blocks ?W B)(lstart M := ?h)) Map.empty {}" "bframe ?s2 s3"
      "disk s3 = (disk s2)[unat (lstart M) := ?h]" "dwrites s3 = dwrites s2 @ [(lstart M, ?h)]"
    using write_head_spec [OF c2 _ _ _ f2, of "clear M"] L2 log_fitsD(1) [OF f] unfolding st runs_iff by auto
  have "the_log s3 = clear M" using bframe_log [OF 3(3)] L2 by simp
  moreover have "recover_from_log s = Ret s3"
    using 1(1) 2(1) 3(1) by (simp add: recover_from_log_def Let_def clear_def [abs_def])
  ultimately show ?thesis using 3(2,4,5) 2(4,5) 1(4,5) by (simp add: recovery_writes_def)
qed

lemma cache_initlock:
  "cache s B H Q \<Longrightarrow> cache (s\<lparr>locks := (locks s)(l := initlock nm)\<rparr>) B H Q"
proof -
  let ?t = "s\<lparr>locks := (locks s)(l := initlock nm)\<rparr>"
  have "holds ?t H \<longleftrightarrow> holds s H" by (simp add: holds_def mypid_def me_def)
  moreover have "ready s \<Longrightarrow> ready ?t" by (simp add: ready_def initlock_def lock_free_def split: option.splits)
  ultimately show "cache s B H Q \<Longrightarrow> cache ?t B H Q" by (simp add: cache_def)
qed

lemma initlog_spec:
  assumes c: "cache s B Map.empty {}" and one: "1 < length (disk s)"
    and L: "(the_log s)\<lparr>lstart := get32 (B 1) 16, lsize := sint (get32 (B 1) 12), ldev := 1\<rparr> = L"
    and D: "decoded L (B (lstart L)) = M"
    and n: "logged M \<le> length (lh_block (lh L))" and f: "log_fits M (length (disk s))"
  shows "runs (initlog 1 s) (\<lambda>t. cache t (upd_blocks (recovery_writes M B) B) Map.empty {} \<and> the_log t = clear M
    \<and> disk t = apply_writes (recovery_writes M B) (disk s) \<and> dwrites t = dwrites s @ recovery_writes M B)"
proof -
  let ?s = "s\<lparr>locks := (locks s)(LogLock := initlock ''log'')\<rparr>"
  obtain b s1 s2 where 1: "bread 1 1 ?s = Ret (b, s1)" "data (bufs s1 ! b) = B 1" "bframe ?s s1"
    "brelse b s1 = Ret s2" "cache s2 B Map.empty {}" "bframe ?s s2" "disk s2 = disk ?s" "dwrites s2 = dwrites ?s"
    by (rule read_one [OF cache_initlock [OF c], of 1]) (use one in simp_all)
  let ?f = "\<lambda>l. l\<lparr>lstart := get32 (B 1) 16, lsize := sint (get32 (B 1) 12), ldev := 1\<rparr>"
  have c2: "cache (upd_log ?f s2) B Map.empty {}" and L2: "the_log (upd_log ?f s2) = L"
    using 1(5) bframe_log [OF 1(6)] L by simp_all
  have "initlog 1 s = recover_from_log (upd_log ?f s2)"
    using 1(1,2,4) by (simp add: initlog_def readsb_def Let_def upd_log_def)
  then show ?thesis
    using recover_spec [OF c2 L2 D n] f 1(7,8) by simp
qed

section \<open>Crashes\<close>

lemma apply_writes_nth:
  "unat b < length D \<Longrightarrow> apply_writes ws D ! unat b = upd_blocks ws (\<lambda>b. D ! unat b) b"
proof (induction ws rule: rev_induct)
  case (snoc w ws)
  obtain n d where "w = (n, d)" by (cases w)
  then show ?case using snoc by (auto simp: nth_list_update uint_eq_iff_unat)
qed simp

lemma head_block_fields:
  assumes "length d = BSIZE" and "0 \<le> lh_n (lh L)" and "logged L \<le> LOGSIZE"
  shows "sint (get32 (head_block L d) 0) = int (logged L)"
    and "j < logged L \<Longrightarrow> get32 (head_block L d) (4 + 4 * j) = home L j"
proof -
  have "lh_n (lh L) = int (logged L)" using assms(2) by (simp add: logged_def)
  then have "sint (of_int (lh_n (lh L)) :: uint) = int (logged L)"
    using assms(3) by (simp only: int_word_sint) simp
  then show "sint (get32 (head_block L d) 0) = int (logged L)"
    using assms(1) by (simp add: head_block_def get32_put_blocks_0)
  show "j < logged L \<Longrightarrow> get32 (head_block L d) (4 + 4 * j) = home L j"
    using assms by (simp add: head_block_def home_def logged_def get32_put_blocks)
qed

text \<open>
  A state just before \<open>commit\<close>: the logged blocks are the dirty ones, the header on the disk is empty,
  and the superblock says where the log starts.
\<close>

definition transaction :: "'a lst_scheme \<Rightarrow> (uint \<Rightarrow> uchar list) \<Rightarrow> bool" where
  "transaction s B \<longleftrightarrow> cache s B Map.empty (home (the_log s) ` {..<logged (the_log s)})
     \<and> log_fits (the_log s) (length (disk s)) \<and> 0 < logged (the_log s)
     \<and> get32 (disk s ! unat (lstart (the_log s))) 0 = 0
     \<and> get32 (disk s ! 1) 16 = lstart (the_log s) \<and> 1 < length (disk s)
     \<and> \<not> in_log (the_log s) (logged (the_log s)) 1 \<and> 1 \<notin> home (the_log s) ` {..<logged (the_log s)}"

text \<open>A machine that starts on the disk \<open>D\<close>, with nothing in its cache.\<close>

definition booted :: "'a lst_scheme \<Rightarrow> uchar list list \<Rightarrow> bool" where
  "booted r D \<longleftrightarrow> cache r (\<lambda>b. D ! unat b) Map.empty {} \<and> disk r = D \<and> length (lh_block (lh (the_log r))) = LOGSIZE"

text \<open>Outside the log, the disk holds \<open>F\<close>.\<close>

definition outside_log :: "log \<Rightarrow> uchar list list \<Rightarrow> (uint \<Rightarrow> uchar list) \<Rightarrow> bool" where
  "outside_log L D F \<longleftrightarrow> (\<forall>b. unat b < length D \<and> \<not> in_log L (logged L) b \<longrightarrow> D ! unat b = F b)"

lemma outside_log_writes:
  assumes f: "log_fits L m" and b: "\<not> in_log L (logged L) b"
  shows "upd_blocks (take k (log_writes L B [0..<logged L])) F b = F b"
proof (rule upd_blocks_other)
  show "b \<notin> fst ` set (take k (log_writes L B [0..<logged L]))"
    using log_blockD(2) [OF f] b by (auto simp: log_writes_def dest!: in_set_takeD)
qed

lemma install_writes_at:
  assumes "distinct (map fst (install_writes L B))"
  shows "upd_blocks (install_writes L B) F b = (if b \<in> home L ` {..<logged L} then B b else F b)"
proof (cases "b \<in> home L ` {..<logged L}")
  case True
  then have "(b, B b) \<in> set (install_writes L B)" by (auto simp: install_writes_def)
  then show ?thesis using True upd_blocks_at [OF assms] by simp
next
  case False
  then have "b \<notin> fst ` set (install_writes L B)" by (auto simp: install_writes_def)
  then show ?thesis using False by (simp add: upd_blocks_other)
qed

lemma install_writes_some:
  "upd_blocks (take k (install_writes L B)) F b = F b \<or> b \<in> home L ` {..<logged L}"
proof (cases "b \<in> fst ` set (take k (install_writes L B))")
  case True
  then show ?thesis by (auto simp: install_writes_def dest!: in_set_takeD)
qed (simp add: upd_blocks_other)

lemma distinct_install: "log_fits L m \<Longrightarrow> distinct (map fst (install_writes L B))"
  using log_fitsD(6) by (auto simp: install_writes_def distinct_map inj_on_def)

text \<open>The three phases of a commit a crash can interrupt.\<close>

lemma commit_phases:
  obtains "take k (commit_writes L B) = take k (log_writes L B [0..<logged L])"
  | "take k (commit_writes L B) = log_writes L B [0..<logged L] @ [(lstart L, head_block L (B (lstart L)))]
      @ take (k - Suc (logged L)) (install_writes L B)"
  | "take k (commit_writes L B) = commit_writes L B"
proof -
  have l: "length (log_writes L B [0..<logged L]) = logged L" "length (install_writes L B) = logged L"
    by (simp_all add: log_writes_def install_writes_def)
  consider "k \<le> logged L" | "logged L < k" "k \<le> 2 * logged L + 1" | "2 * logged L + 1 < k" by linarith
  then show thesis
  proof cases
    case 1
    then show ?thesis using that(1) l by (simp add: commit_writes_def)
  next
    case 2
    then show ?thesis using that(2) l by (simp add: commit_writes_def take_Cons')
  next
    case 3
    then have "length (commit_writes L B) \<le> k" using l by (simp add: commit_writes_def)
    then show ?thesis using that(3) by simp
  qed
qed

lemma log_fits_cong:
  assumes "log_fits L m" and "ldev M = 1" "lstart M = lstart L" "logged M = logged L" "\<And>j. j < logged L \<Longrightarrow> home M j = home L j"
  shows "log_fits M m"
  using assms unfolding log_fits_def in_log_def by (auto simp: inj_on_def)

text \<open>Recovery on an empty header changes nothing but the header.\<close>

lemma recover_empty:
  assumes r: "booted r D" and one: "1 < length D" "get32 (D ! 1) 16 = st"
    and st: "unat st < length D" "length D \<le> 2 ^ 32" "get32 (D ! unat st) 0 = 0"
  shows "runs (initlog 1 r) (\<lambda>u. length (disk u) = length D \<and> (\<forall>b. b \<noteq> st \<longrightarrow> disk u ! unat b = D ! unat b))"
proof -
  let ?B = "\<lambda>b :: uint. D ! unat b"
  define L where "L = (the_log r)\<lparr>lstart := get32 (?B 1) 16, lsize := sint (get32 (?B 1) 12), ldev := 1\<rparr>"
  define M where "M = decoded L (?B (lstart L))"
  have L: "lstart L = st" "ldev L = 1" using one by (simp_all add: L_def)
  have M: "logged M = 0" "lstart M = st" "ldev M = 1" using L st(3) by (simp_all add: M_def)
  have f: "log_fits M (length (disk r))" using M st(1,2) r by (simp add: log_fits_def booted_def)
  have "runs (initlog 1 r) (\<lambda>t. cache t (upd_blocks (recovery_writes M ?B) ?B) Map.empty {} \<and> the_log t = clear M
    \<and> disk t = apply_writes (recovery_writes M ?B) (disk r) \<and> dwrites t = dwrites r @ recovery_writes M ?B)"
    by (rule initlog_spec [OF _ _ L_def [symmetric] M_def [symmetric] _ f]) (use r one M in \<open>simp_all add: booted_def\<close>)
  then show ?thesis
  proof (rule runs_mono)
    fix t assume "cache t (upd_blocks (recovery_writes M ?B) ?B) Map.empty {} \<and> the_log t = clear M
      \<and> disk t = apply_writes (recovery_writes M ?B) (disk r) \<and> dwrites t = dwrites r @ recovery_writes M ?B"
    then have "disk t = D[unat st := head_block (clear M) (?B st)]"
      using M r by (simp add: recovery_writes_def home_writes_def booted_def)
    then show "length (disk t) = length D \<and> (\<forall>b. b \<noteq> st \<longrightarrow> disk t ! unat b = D ! unat b)"
      by (auto simp: uint_eq_iff_unat)
  qed
qed

text \<open>Recovery on the header of a log copies every logged block to its home.\<close>

lemma recover_full:
  assumes r: "booted r D" and one: "1 < length D" "get32 (D ! 1) 16 = lstart L"
    and f: "log_fits L (length D)" and n: "0 < logged L"
    and h: "D ! unat (lstart L) = head_block L d" "length d = BSIZE"
  shows "runs (initlog 1 r) (\<lambda>u. length (disk u) = length D \<and> (\<forall>b. unat b < length D \<and> b \<noteq> lstart L \<longrightarrow>
    disk u ! unat b = upd_blocks (home_writes L (\<lambda>b. D ! unat b) [0..<logged L]) (\<lambda>b. D ! unat b) b))"
proof -
  let ?B = "\<lambda>b :: uint. D ! unat b"
  define K where "K = (the_log r)\<lparr>lstart := get32 (?B 1) 16, lsize := sint (get32 (?B 1) 12), ldev := 1\<rparr>"
  define M where "M = decoded K (?B (lstart K))"
  have K: "lstart K = lstart L" "ldev K = 1" using one by (simp_all add: K_def)
  have "0 \<le> lh_n (lh L)" "logged L \<le> LOGSIZE" using n log_fitsD(2) [OF f] by (auto simp: logged_def)
  note fields = head_block_fields [OF h(2) this]
  have M: "logged M = logged L" "lstart M = lstart L" "ldev M = 1" using K h(1) fields(1) by (simp_all add: M_def)
  have home: "home M j = home L j" if "j < logged L" for j
    using that K h(1) fields by (simp add: M_def decoded_def home_def nth_append)
  have W: "home_writes M ?B [0..<logged M] = home_writes L ?B [0..<logged L]"
    using home M by (simp add: home_writes_def log_block_def)
  have fM: "log_fits M (length (disk r))" using log_fits_cong [OF f M(3,2,1) home] r by (simp add: booted_def)
  have "runs (initlog 1 r) (\<lambda>t. cache t (upd_blocks (recovery_writes M ?B) ?B) Map.empty {} \<and> the_log t = clear M
    \<and> disk t = apply_writes (recovery_writes M ?B) (disk r) \<and> dwrites t = dwrites r @ recovery_writes M ?B)"
    by (rule initlog_spec [OF _ _ K_def [symmetric] M_def [symmetric] _ fM])
      (use r one M log_fitsD(2) [OF f] in \<open>simp_all add: booted_def K_def\<close>)
  then show ?thesis
  proof (rule runs_mono)
    fix t assume "cache t (upd_blocks (recovery_writes M ?B) ?B) Map.empty {} \<and> the_log t = clear M
      \<and> disk t = apply_writes (recovery_writes M ?B) (disk r) \<and> dwrites t = dwrites r @ recovery_writes M ?B"
    then have t: "disk t = apply_writes (home_writes L ?B [0..<logged L] @ [(lstart L, head_block (clear M) (?B (lstart L)))]) D"
      using W M r by (simp add: recovery_writes_def booted_def)
    then show "length (disk t) = length D \<and> (\<forall>b. unat b < length D \<and> b \<noteq> lstart L \<longrightarrow>
      disk t ! unat b = upd_blocks (home_writes L ?B [0..<logged L]) ?B b)"
      unfolding t using apply_writes_nth by (simp add: apply_writes_nth del: apply_writes_simps)
  qed
qed

lemma transactionD:
  assumes "transaction s B" and "the_log s = L"
  shows "cache s B Map.empty (home L ` {..<logged L})" "log_fits L (length (disk s))" "0 < logged L"
    "get32 (disk s ! unat (lstart L)) 0 = 0" "get32 (disk s ! 1) 16 = lstart L" "1 < length (disk s)"
    "\<not> in_log L (logged L) 1" "1 \<notin> home L ` {..<logged L}"
  using assms by (simp_all add: transaction_def)

lemma superblock_kept:
  assumes t: "transaction s B" and L: "the_log s = L"
  shows "apply_writes (take k (commit_writes L B)) (disk s) ! 1 = disk s ! 1"
proof -
  note d = transactionD [OF t L]
  have "fst ` set (commit_writes L B) \<subseteq> insert (lstart L) (log_block L ` {..<logged L} \<union> home L ` {..<logged L})"
    by (auto simp: commit_writes_def log_writes_def install_writes_def)
  moreover have "1 \<noteq> lstart L" using d(7) in_log_start [of L] by auto
  moreover have "1 \<notin> log_block L ` {..<logged L}" using d(7) log_blockD(2) [OF d(2)] by (metis imageE lessThan_iff)
  ultimately have "1 \<notin> fst ` set (commit_writes L B)" using d(8) by blast
  then have "1 \<notin> fst ` set (take k (commit_writes L B))" by (auto dest!: in_set_takeD simp: image_iff)
  from apply_writes_other [OF this, of "disk s"] show ?thesis by simp
qed

lemma cleared_header:
  assumes "length d = BSIZE"
  shows "get32 (head_block (clear L) d) 0 = 0"
  using assms by (simp add: head_block_def)

text \<open>Until the header is written the old blocks come back.\<close>

lemma crash_before:
  assumes t: "transaction s B" and L: "the_log s = L"
    and D: "D = apply_writes (take k (log_writes L B [0..<logged L])) (disk s)"
    and r: "booted r D" and one: "D ! 1 = disk s ! 1"
  shows "runs (initlog 1 r) (\<lambda>u. outside_log L (disk u) (\<lambda>b. disk s ! unat b))"
proof -
  note d = transactionD [OF t L]
  have "lstart L \<notin> fst ` set (take k (log_writes L B [0..<logged L]))"
    using start_untouched(1) [OF d(2), of B] by (auto dest!: in_set_takeD simp: image_iff)
  then have st: "D ! unat (lstart L) = disk s ! unat (lstart L)" unfolding D by (rule apply_writes_other)
  have "runs (initlog 1 r) (\<lambda>u. length (disk u) = length D \<and> (\<forall>b. b \<noteq> lstart L \<longrightarrow> disk u ! unat b = D ! unat b))"
    using d one st by (intro recover_empty [OF r]) (auto simp: log_fits_def D)
  then show ?thesis
  proof (rule runs_mono)
    fix u assume u: "length (disk u) = length D \<and> (\<forall>b. b \<noteq> lstart L \<longrightarrow> disk u ! unat b = D ! unat b)"
    show "outside_log L (disk u) (\<lambda>b. disk s ! unat b)"
      unfolding outside_log_def
    proof (intro allI impI)
      fix b assume b: "unat b < length (disk u) \<and> \<not> in_log L (logged L) b"
      then have "b \<noteq> lstart L" using in_log_start [of L] by auto
      then have "disk u ! unat b = D ! unat b" using u by simp
      also have "\<dots> = upd_blocks (take k (log_writes L B [0..<logged L])) (\<lambda>b. disk s ! unat b) b"
        using b u by (simp add: D apply_writes_nth)
      also have "\<dots> = disk s ! unat b" using outside_log_writes [OF d(2)] b by simp
      finally show "disk u ! unat b = disk s ! unat b" .
    qed
  qed
qed

text \<open>From then on the new ones do.\<close>

lemma new_blocks:
  assumes f: "log_fits L m" and F: "b \<notin> home L ` {..<logged L} \<Longrightarrow> F b = B b"
  shows "upd_blocks (install_writes L B) (upd_blocks (take k (install_writes L B)) F) b = B b"
  using F install_writes_some [of k L B F b] install_writes_at [OF distinct_install [OF f, of B]] by auto

lemma crash_during:
  assumes t: "transaction s B" and L: "the_log s = L"
    and D: "D = apply_writes (log_writes L B [0..<logged L] @ [(lstart L, head_block L (B (lstart L)))]
      @ take k (install_writes L B)) (disk s)"
    and r: "booted r D" and one: "D ! 1 = disk s ! 1"
  shows "runs (initlog 1 r) (\<lambda>u. outside_log L (disk u) B)"
proof -
  note d = transactionD [OF t L]
  let ?O = "\<lambda>b :: uint. disk s ! unat b" and ?h = "head_block L (B (lstart L))"
  let ?F = "(upd_blocks (log_writes L B [0..<logged L]) ?O)(lstart L := ?h)"
  have nth: "D ! unat b = upd_blocks (take k (install_writes L B)) ?F b" if "unat b < length D" for b
    using that by (simp add: D apply_writes_nth del: apply_writes_simps)
  have not_home: "D ! unat b = ?F b" if "unat b < length D" "b \<notin> home L ` {..<logged L}" for b
    using nth [OF that(1)] install_writes_some [of k L B ?F b] that(2) by simp
  have fits: "log_fits L (length D)" and len: "length D = length (disk s)" using d(2) by (simp_all add: D)
  have st: "D ! unat (lstart L) = ?h"
    using not_home log_fitsD(3) [OF fits] home_apart(1) [OF fits] by force
  have lb: "D ! unat (log_block L j) = B (home L j)" if "j < logged L" for j
  proof -
    have "log_block L j \<notin> home L ` {..<logged L}" using home_apart(2) [OF fits _ that] by auto
    then show ?thesis
      using not_home [of "log_block L j"] log_blockD(1,3) [OF fits that] log_writes_at [OF fits that] by simp
  qed
  have W: "home_writes L (\<lambda>b. D ! unat b) [0..<logged L] = install_writes L B"
    using lb by (simp add: home_writes_def install_writes_def)
  have "runs (initlog 1 r) (\<lambda>u. length (disk u) = length D \<and> (\<forall>b. unat b < length D \<and> b \<noteq> lstart L \<longrightarrow>
    disk u ! unat b = upd_blocks (home_writes L (\<lambda>b. D ! unat b) [0..<logged L]) (\<lambda>b. D ! unat b) b))"
    using d one len cache_length [OF d(1) log_fitsD(3) [OF d(2)]] by (intro recover_full [OF r _ _ fits _ st]) auto
  then show ?thesis
    unfolding W
  proof (rule runs_mono)
    fix u assume u: "length (disk u) = length D \<and> (\<forall>b. unat b < length D \<and> b \<noteq> lstart L \<longrightarrow>
      disk u ! unat b = upd_blocks (install_writes L B) (\<lambda>b. D ! unat b) b)"
    show "outside_log L (disk u) B"
      unfolding outside_log_def
    proof (intro allI impI)
      fix b assume b: "unat b < length (disk u) \<and> \<not> in_log L (logged L) b"
      then have bs: "b \<noteq> lstart L" "unat b < length (disk s)" using in_log_start [of L] u len by auto
      have "upd_blocks (install_writes L B) (\<lambda>b. D ! unat b) b = B b"
      proof (cases "b \<in> home L ` {..<logged L}")
        case False
        moreover have "upd_blocks (log_writes L B [0..<logged L]) ?O b = ?O b"
          using outside_log_writes [OF d(2), of b "logged L" B ?O] b by (simp add: log_writes_def)
        ultimately show ?thesis
          using not_home [of b] bs len cache_clean [OF d(1) bs(2)] install_writes_at [OF distinct_install [OF fits, of B]] by simp
      qed (simp add: install_writes_at [OF distinct_install [OF fits, of B]])
      then show "disk u ! unat b = B b" using u bs len by simp
    qed
  qed
qed

lemma crash_after:
  assumes t: "transaction s B" and L: "the_log s = L"
    and D: "D = apply_writes (commit_writes L B) (disk s)"
    and r: "booted r D" and one: "D ! 1 = disk s ! 1"
  shows "runs (initlog 1 r) (\<lambda>u. outside_log L (disk u) B)"
proof -
  note d = transactionD [OF t L]
  let ?O = "\<lambda>b :: uint. disk s ! unat b" and ?h = "head_block L (B (lstart L))"
  let ?F = "(upd_blocks (log_writes L B [0..<logged L]) ?O)(lstart L := ?h)"
  have len: "length D = length (disk s)" by (simp add: D)
  have nth: "D ! unat b = ((upd_blocks (install_writes L B) ?F)(lstart L := head_block (clear L) ?h)) b" if "unat b < length D" for b
    using that by (simp add: D apply_writes_nth commit_writes_def del: apply_writes_simps)
  have st: "unat (lstart L) < length D" using log_fitsD(3) [OF d(2)] len by simp
  have "get32 (D ! unat (lstart L)) 0 = 0"
    using nth [OF st] cleared_header [of ?h L] cache_length [OF d(1) log_fitsD(3) [OF d(2)]] by simp
  then have "runs (initlog 1 r) (\<lambda>u. length (disk u) = length D \<and> (\<forall>b. b \<noteq> lstart L \<longrightarrow> disk u ! unat b = D ! unat b))"
    using d one st len by (intro recover_empty [OF r]) (auto simp: log_fits_def)
  then show ?thesis
  proof (rule runs_mono)
    fix u assume u: "length (disk u) = length D \<and> (\<forall>b. b \<noteq> lstart L \<longrightarrow> disk u ! unat b = D ! unat b)"
    show "outside_log L (disk u) B"
      unfolding outside_log_def
    proof (intro allI impI)
      fix b assume b: "unat b < length (disk u) \<and> \<not> in_log L (logged L) b"
      then have bs: "b \<noteq> lstart L" "unat b < length (disk s)" using in_log_start [of L] u len by auto
      have "upd_blocks (log_writes L B [0..<logged L]) ?O b = ?O b"
        using outside_log_writes [OF d(2), of b "logged L" B ?O] b by (simp add: log_writes_def)
      then have "upd_blocks (install_writes L B) ?F b = B b"
        using bs cache_clean [OF d(1) bs(2)] install_writes_at [OF distinct_install [OF d(2), of B]] by simp
      then show "disk u ! unat b = B b" using u bs len nth [of b] by simp
    qed
  qed
qed

text \<open>
  C1: a transaction is atomic.  \<open>commit\<close> writes a sequence of blocks; if the machine stops after any
  number of these writes and starts again on the disk they leave, \<open>initlog\<close> returns and every block
  outside the log is either as it was before the transaction or as the transaction made it, the same
  for all blocks.
\<close>

theorem commit_crash_atomic:
  assumes "transaction s B" and "commit s = Ret t" and "dwrites t = dwrites s @ ws"
    and "booted r (apply_writes (take k ws) (disk s))"
  shows "runs (initlog 1 r) (\<lambda>u. outside_log (the_log s) (disk u) (\<lambda>b. disk s ! unat b) \<or> outside_log (the_log s) (disk u) B)"
proof -
  note d = transactionD [OF assms(1) refl]
  have "ws = commit_writes (the_log s) B"
    using commit_spec [OF d(1) refl d(2,3)] assms(2,3) by simp
  note r = assms(4) [unfolded this] and one = superblock_kept [OF assms(1) refl, of k]
  show ?thesis
  proof (rule commit_phases [of k "the_log s" B])
    assume e: "take k (commit_writes (the_log s) B) = take k (log_writes (the_log s) B [0..<logged (the_log s)])"
    then show ?thesis using crash_before [OF assms(1) refl _ r one] by (auto intro: runs_mono)
  next
    assume e: "take k (commit_writes (the_log s) B) = log_writes (the_log s) B [0..<logged (the_log s)]
      @ [(lstart (the_log s), head_block (the_log s) (B (lstart (the_log s))))] @ take (k - Suc (logged (the_log s))) (install_writes (the_log s) B)"
    then show ?thesis using crash_during [OF assms(1) refl _ r one] by (auto intro: runs_mono)
  next
    assume e: "take k (commit_writes (the_log s) B) = commit_writes (the_log s) B"
    then show ?thesis using crash_after [OF assms(1) refl _ r one] by (auto intro: runs_mono)
  qed
qed

lemma blocks_ok_writes:
  "blocks_ok D \<Longrightarrow> \<forall>w\<in>set ws. length (snd w) = BSIZE \<Longrightarrow> blocks_ok (apply_writes ws D)"
proof (induction ws arbitrary: D)
  case (Cons w ws)
  obtain n d where w: "w = (n, d)" by (cases w)
  have "blocks_ok (D[unat n := d])"
    using Cons.prems w set_update_subset_insert [of D "unat n" d] unfolding blocks_ok_def by auto
  then show ?case using Cons w by simp
qed simp

lemma commit_writes_ok:
  assumes "transaction s B" and "w \<in> set (commit_writes (the_log s) B)"
  shows "length (snd w) = BSIZE"
proof -
  note d = transactionD [OF assms(1) refl]
  have "length (B (home (the_log s) j)) = BSIZE" if "j < logged (the_log s)" for j
    by (rule cache_length [OF d(1) log_fitsD(4) [OF d(2) that]])
  moreover have "length (B (lstart (the_log s))) = BSIZE" by (rule cache_length [OF d(1) log_fitsD(3) [OF d(2)]])
  ultimately show ?thesis using assms(2) by (auto simp: commit_writes_def log_writes_def install_writes_def)
qed

lemma machine_booted: "blocks_ok D \<Longrightarrow> booted (binit (machine D)) D"
  using machine_cache [of D] by (simp add: booted_def log0_def)

text \<open>
  A small disk whose log starts at block 2, and an operation that gives block 36 a new contents.
\<close>

definition disk0 :: "uchar list list" where
  "disk0 = (replicate 40 (replicate BSIZE 0))[1 := put32 (put32 (replicate BSIZE 0) 16 2) 12 30]"

definition blocks1 :: "uint \<Rightarrow> uchar list" where
  "blocks1 = (\<lambda>b. disk0 ! unat b)(36 := replicate BSIZE 7)"

definition operation :: "lst outcome" where
  "operation = andthen (bread 1 36 (in_op disk0)) (\<lambda>(b, s). andthen (log_write b (set_data b (replicate BSIZE 7) s)) (brelse b))"

lemma disk0_ok: "blocks_ok disk0" "length disk0 = 40" "get32 (disk0 ! 1) 16 = 2" "get32 (disk0 ! 2) 0 = 0"
proof -
  have "set disk0 \<subseteq> insert (put32 (put32 (replicate BSIZE 0) 16 2) 12 30) (set (replicate 40 (replicate BSIZE 0)))"
    unfolding disk0_def by (rule set_update_subset_insert)
  then show "blocks_ok disk0" by (auto simp: blocks_ok_def)
  show "length disk0 = 40" by (simp add: disk0_def)
  show "get32 (disk0 ! 1) 16 = 2" by (simp add: disk0_def get32_put32_other)
  show "get32 (disk0 ! 2) 0 = 0" by (simp add: disk0_def get32_def)
qed

lemma operation_transaction: "\<exists>s. operation = Ret s \<and> transaction s blocks1 \<and> disk s = disk0 \<and> dwrites s = []"
proof -
  let ?B = "\<lambda>b :: uint. disk0 ! unat b" and ?d = "replicate BSIZE 7 :: uchar list"
  have c: "cache (in_op disk0) ?B Map.empty {}" by (rule in_op_cache [OF disk0_ok(1)])
  obtain b s1 where 1: "bread 1 36 (in_op disk0) = Ret (b, s1)" "cache s1 ?B (Map.empty(36 := Some b)) {}" "bframe (in_op disk0) s1"
    "disk s1 = disk0" "dwrites s1 = []"
    by (rule breadE [OF c, of 36]) (simp_all add: in_op_fields disk0_ok)
  let ?s1 = "set_data b ?d s1"
  have c1: "cache ?s1 blocks1 (Map.empty(36 := Some b)) {}" "bframe s1 ?s1" "disk ?s1 = disk0" "dwrites ?s1 = []"
    using set_data_cache [OF 1(2), of 36 b ?d] 1(4,5) by (simp_all add: blocks1_def)
  have L: "the_log ?s1 = log0\<lparr>lstart := 2, lsize := 30, ldev := 1, outstanding := 1\<rparr>"
    using bframe_log [OF 1(3)] bframe_log [OF c1(2)] by (simp add: in_op_fields)
  have ok: "log_ok (the_log ?s1)" "logged (the_log ?s1) = 0" "homes (the_log ?s1) = []" "outstanding (the_log ?s1) = 1" "lsize (the_log ?s1) = 30"
    by (simp_all add: L log0_def log_ok_def logged_def homes_def)
  obtain s2 where 2: "log_write b ?s1 = Ret s2" "cache s2 blocks1 (Map.empty(36 := Some b)) {36}" "the_log s2 = log_add 36 (the_log ?s1)"
    "disk s2 = disk0" "dwrites s2 = []"
    using log_write_cache [OF c1(1), of 36 b] ok c1(3,4) by (auto simp: runs_iff)
  obtain s3 where 3: "brelse b s2 = Ret s3" "cache s3 blocks1 Map.empty {36}" "bframe s2 s3" "disk s3 = disk0" "dwrites s3 = []"
    by (rule brelseE [OF 2(2), of 36 b Map.empty]) (use 2(4,5) in auto)
  have "operation = Ret s3" using 1(1) 2(1) 3(1) by (simp add: operation_def)
  moreover have L3: "lstart (the_log s3) = 2" "ldev (the_log s3) = 1" "logged (the_log s3) = 1" "home (the_log s3) 0 = 36"
    using bframe_log [OF 3(3)] 2(3) ok(3) by (simp_all add: log_add_def L log0_def logged_def home_def)
  then have "log_fits (the_log s3) 40" by (simp add: log_fits_def in_log_def inj_on_def)
  then have "transaction s3 blocks1"
    using 3 L3 disk0_ok by (simp add: transaction_def in_log_def lessThan_Suc)
  ultimately show ?thesis using 3(4,5) by auto
qed

theorem commit_crash_atomic_witness:
  "\<exists>s t ws. operation = Ret s \<and> commit s = Ret t \<and> dwrites t = dwrites s @ ws
    \<and> runs (initlog 1 (binit (machine (apply_writes (take 2 ws) (disk s)))))
        (\<lambda>u. outside_log (the_log s) (disk u) (\<lambda>b. disk s ! unat b) \<or> outside_log (the_log s) (disk u) blocks1)"
proof -
  obtain s where s: "operation = Ret s" "transaction s blocks1" "disk s = disk0" using operation_transaction by auto
  note d = transactionD [OF s(2) refl]
  let ?ws = "commit_writes (the_log s) blocks1"
  obtain t where t: "commit s = Ret t" "dwrites t = dwrites s @ ?ws"
    using commit_spec [OF d(1) refl d(2,3)] by (auto simp: runs_iff)
  have "\<forall>w\<in>set (take 2 ?ws). length (snd w) = BSIZE"
    using commit_writes_ok [OF s(2)] by (auto dest: in_set_takeD)
  then have "blocks_ok (apply_writes (take 2 ?ws) (disk s))"
    using blocks_ok_writes [of "disk s"] disk0_ok(1) s(3) by simp
  from commit_crash_atomic [OF s(2) t machine_booted [OF this]] s(1) t show ?thesis by blast
qed
end
