(* ===== verification/Inode.thy ===== *)
theory Inode
  imports Log
begin

text \<open>
  Blocks and inodes: the first half of \<^verbatim>\<open>fs.c\<close>.  The state \<open>ist\<close> adds the superblock and the inode
  cache.  An on-disk inode is 64 bytes of a block: type, major, minor and number of links as
  16-bit fields at offsets 0, 2, 4 and 6, the size at 8 and the 13 block addresses from 12 on.
\<close>

unbundle bit_operations_syntax

section \<open>State\<close>

abbreviation NINODE :: nat where "NINODE \<equiv> 50"
abbreviation NDIRECT :: nat where "NDIRECT \<equiv> 12"
abbreviation NINDIRECT :: nat where "NINDIRECT \<equiv> 128"
abbreviation MAXFILE :: nat where "MAXFILE \<equiv> 140"
abbreviation IPB :: nat where "IPB \<equiv> 8"
abbreviation BPB :: nat where "BPB \<equiv> 4096"
abbreviation T_DIR :: ushort where "T_DIR \<equiv> 1"
abbreviation T_FILE :: ushort where "T_FILE \<equiv> 2"
abbreviation T_DEV :: ushort where "T_DEV \<equiv> 3"

record inode =
  idev :: uint
  inum :: uint
  iref :: int
  ivalid :: bool
  itype :: ushort
  major :: ushort
  minor :: ushort
  nlink :: ushort
  isize :: uint
  addrs :: "uint list"

record ist = lst +
  sb :: superblock
  inodes :: "inode list"

definition upd_inode :: "nat \<Rightarrow> (inode \<Rightarrow> inode) \<Rightarrow> 'a ist_scheme \<Rightarrow> 'a ist_scheme" where
  "upd_inode ip f s = s\<lparr>inodes := (inodes s)[ip := f (inodes s ! ip)]\<rparr>"

definition IBLOCK :: "uint \<Rightarrow> superblock \<Rightarrow> uint" where
  "IBLOCK i b = i div of_nat IPB + sb_inodestart b"

definition BBLOCK :: "uint \<Rightarrow> superblock \<Rightarrow> uint" where
  "BBLOCK n b = n div of_nat BPB + sb_bmapstart b"

text \<open>The position of inode \<open>i\<close> in its block.\<close>

definition ipos :: "uint \<Rightarrow> nat" where
  "ipos i = 64 * (unat i mod IPB)"

section \<open>Blocks\<close>

definition bzero :: "uint \<Rightarrow> uint \<Rightarrow> 'a lst_scheme \<Rightarrow> 'a lst_scheme outcome" where
  "bzero dev bno s =
     andthen (bread dev bno s) (\<lambda>(bp, s).
     let s = set_data bp (replicate BSIZE 0) s in
     andthen (log_write bp s) (brelse bp))"

text \<open>
  The inner loop of \<open>balloc\<close> looks for a clear bit of the bitmap block that starts at block \<open>b\<close>; the
  outer loop walks over the bitmap blocks.  The index is a signed integer.
\<close>

definition free_bit :: "uchar list \<Rightarrow> nat \<Rightarrow> bool" where
  "free_bit d bi \<longleftrightarrow> d ! (bi div 8) AND push_bit (bi mod 8) 1 = 0"

definition balloc_scan :: "uchar list \<Rightarrow> nat \<Rightarrow> nat \<Rightarrow> nat option" where
  "balloc_scan d b nblk = find (\<lambda>bi. b + bi < nblk \<and> free_bit d bi) [0..<BPB]"

function balloc_loop :: "uint \<Rightarrow> nat \<Rightarrow> 'a ist_scheme \<Rightarrow> (uint \<times> 'a ist_scheme) outcome" where
  "balloc_loop dev b s =
     (if b \<ge> 2 ^ 31 then Undef ''overflow of the block index''
      else if b < unat (sb_size (sb s)) then
        andthen (bread dev (BBLOCK (of_nat b) (sb s)) s) (\<lambda>(bp, s).
        case balloc_scan (data (bufs s ! bp)) b (unat (sb_size (sb s))) of
          Some bi \<Rightarrow>
            let d = data (bufs s ! bp);
                s = set_data bp (d[bi div 8 := d ! (bi div 8) OR push_bit (bi mod 8) 1]) s in
            andthen (log_write bp s) (\<lambda>s.
            andthen (brelse bp s) (\<lambda>s.
            andthen (bzero dev (of_nat (b + bi)) s) (\<lambda>s. Ret (of_nat (b + bi), s))))
        | None \<Rightarrow> andthen (brelse bp s) (balloc_loop dev (b + BPB)))
      else Panic ''balloc: out of blocks'')"
  by pat_completeness auto

termination balloc_loop
  by (relation "measure (\<lambda>(dev, b, s). 2 ^ 31 - b)") auto

definition balloc :: "uint \<Rightarrow> 'a ist_scheme \<Rightarrow> (uint \<times> 'a ist_scheme) outcome" where
  "balloc dev s = balloc_loop dev 0 s"

definition bfree :: "uint \<Rightarrow> uint \<Rightarrow> 'a ist_scheme \<Rightarrow> 'a ist_scheme outcome" where
  "bfree dev b s =
     andthen (bread dev (BBLOCK b (sb s)) s) (\<lambda>(bp, s).
     let bi = unat b mod BPB; d = data (bufs s ! bp) in
     if free_bit d bi then Panic ''freeing free block''
     else
       let s = set_data bp (d[bi div 8 := d ! (bi div 8) AND NOT (push_bit (bi mod 8) 1)]) s in
       andthen (log_write bp s) (brelse bp))"

section \<open>Inodes\<close>

text \<open>
  The loop of \<open>iget\<close>: an entry that holds the inode, and otherwise the first free entry.
\<close>

fun iget_search :: "inode list \<Rightarrow> uint \<Rightarrow> uint \<Rightarrow> nat \<Rightarrow> nat option \<Rightarrow> nat option \<times> nat option" where
  "iget_search [] dev i k free = (None, free)"
| "iget_search (x # xs) dev i k free =
     (if iref x > 0 \<and> idev x = dev \<and> inum x = i then (Some k, free)
      else iget_search xs dev i (Suc k) (if free = None \<and> iref x = 0 then Some k else free))"

definition iget :: "uint \<Rightarrow> uint \<Rightarrow> 'a ist_scheme \<Rightarrow> (nat \<times> 'a ist_scheme) outcome" where
  "iget dev i s =
     andthen (acquire_at IcacheLock s) (\<lambda>s.
     case iget_search (inodes s) dev i 0 None of
       (Some ip, _) \<Rightarrow>
         let s = upd_inode ip (\<lambda>x. x\<lparr>iref := iref x + 1\<rparr>) s in
         andthen (release_at IcacheLock s) (\<lambda>s. Ret (ip, s))
     | (None, None) \<Rightarrow> Panic ''iget: no inodes''
     | (None, Some ip) \<Rightarrow>
         let s = upd_inode ip (\<lambda>x. x\<lparr>idev := dev, inum := i, iref := 1, ivalid := False\<rparr>) s in
         andthen (release_at IcacheLock s) (\<lambda>s. Ret (ip, s)))"

function ialloc_loop :: "uint \<Rightarrow> ushort \<Rightarrow> nat \<Rightarrow> 'a ist_scheme \<Rightarrow> (nat \<times> 'a ist_scheme) outcome" where
  "ialloc_loop dev ty i s =
     (if i \<ge> 2 ^ 31 then Undef ''overflow of the inode number''
      else if i < unat (sb_ninodes (sb s)) then
        andthen (bread dev (IBLOCK (of_nat i) (sb s)) s) (\<lambda>(bp, s).
        let d = data (bufs s ! bp); p = ipos (of_nat i) in
        if get16 d p = 0 then
          let d = take p d @ replicate 64 0 @ drop (p + 64) d;
              s = set_data bp (put16 d p ty) s in
          andthen (log_write bp s) (\<lambda>s.
          andthen (brelse bp s) (iget dev (of_nat i)))
        else andthen (brelse bp s) (ialloc_loop dev ty (Suc i)))
      else Panic ''ialloc: no inodes'')"
  by pat_completeness auto

termination ialloc_loop
  by (relation "measure (\<lambda>(dev, ty, i, s). 2 ^ 31 - i)") auto

definition ialloc :: "uint \<Rightarrow> ushort \<Rightarrow> 'a ist_scheme \<Rightarrow> (nat \<times> 'a ist_scheme) outcome" where
  "ialloc dev ty s = ialloc_loop dev ty 1 s"

definition put_dinode :: "uchar list \<Rightarrow> nat \<Rightarrow> inode \<Rightarrow> uchar list" where
  "put_dinode d p x =
     (let d = put16 d p (itype x);
          d = put16 d (p + 2) (major x);
          d = put16 d (p + 4) (minor x);
          d = put16 d (p + 6) (nlink x);
          d = put32 d (p + 8) (isize x) in
      fold (\<lambda>k d. put32 d (p + 12 + 4 * k) (addrs x ! k)) [0..<NDIRECT + 1] d)"

definition get_dinode :: "uchar list \<Rightarrow> nat \<Rightarrow> inode \<Rightarrow> inode" where
  "get_dinode d p x = x\<lparr>itype := get16 d p, major := get16 d (p + 2), minor := get16 d (p + 4),
     nlink := get16 d (p + 6), isize := get32 d (p + 8),
     addrs := map (\<lambda>k. get32 d (p + 12 + 4 * k)) [0..<NDIRECT + 1]\<rparr>"

definition iupdate :: "nat \<Rightarrow> 'a ist_scheme \<Rightarrow> 'a ist_scheme outcome" where
  "iupdate ip s =
     (let x = inodes s ! ip in
      andthen (bread (idev x) (IBLOCK (inum x) (sb s)) s) (\<lambda>(bp, s).
      let s = set_data bp (put_dinode (data (bufs s ! bp)) (ipos (inum x)) x) s in
      andthen (log_write bp s) (brelse bp)))"

definition idup :: "nat \<Rightarrow> 'a ist_scheme \<Rightarrow> (nat \<times> 'a ist_scheme) outcome" where
  "idup ip s =
     andthen (acquire_at IcacheLock s) (\<lambda>s.
     let s = upd_inode ip (\<lambda>x. x\<lparr>iref := iref x + 1\<rparr>) s in
     andthen (release_at IcacheLock s) (\<lambda>s. Ret (ip, s)))"

definition ilock :: "nat option \<Rightarrow> 'a ist_scheme \<Rightarrow> 'a ist_scheme outcome" where
  "ilock ipp s =
     (case ipp of
        None \<Rightarrow> Panic ''ilock''
      | Some ip \<Rightarrow>
          if iref (inodes s ! ip) < 1 then Panic ''ilock''
          else
            andthen (acquiresleep (InodeSleep ip) s) (\<lambda>s.
            if \<not> ivalid (inodes s ! ip) then
              andthen (bread (idev (inodes s ! ip)) (IBLOCK (inum (inodes s ! ip)) (sb s)) s) (\<lambda>(bp, s).
              let s = upd_inode ip (\<lambda>x. get_dinode (data (bufs s ! bp)) (ipos (inum x)) x) s in
              andthen (brelse bp s) (\<lambda>s.
              let s = upd_inode ip (\<lambda>x. x\<lparr>ivalid := True\<rparr>) s in
              if itype (inodes s ! ip) = 0 then Panic ''ilock: no type'' else Ret s))
            else Ret s))"

definition iunlock :: "nat option \<Rightarrow> 'a ist_scheme \<Rightarrow> 'a ist_scheme outcome" where
  "iunlock ipp s =
     (case ipp of
        None \<Rightarrow> Panic ''iunlock''
      | Some ip \<Rightarrow>
          andthen (holdingsleep (InodeSleep ip) s) (\<lambda>(h, s).
          if \<not> h \<or> iref (inodes s ! ip) < 1 then Panic ''iunlock''
          else releasesleep (InodeSleep ip) s))"

section \<open>The blocks of an inode\<close>

definition bmap :: "nat \<Rightarrow> uint \<Rightarrow> 'a ist_scheme \<Rightarrow> (uint \<times> 'a ist_scheme) outcome" where
  "bmap ip bn s =
     (let dev = idev (inodes s ! ip);
          ensure = (\<lambda>k s. if addrs (inodes s ! ip) ! k = 0
            then andthen (balloc dev s) (\<lambda>(a, s). Ret (a, upd_inode ip (\<lambda>x. x\<lparr>addrs := (addrs x)[k := a]\<rparr>) s))
            else Ret (addrs (inodes s ! ip) ! k, s)) in
      if unat bn < NDIRECT then ensure (unat bn) s
      else
        let bn = unat bn - NDIRECT in
        if bn < NINDIRECT then
          andthen (ensure NDIRECT s) (\<lambda>(addr, s).
          andthen (bread dev addr s) (\<lambda>(bp, s).
          let addr = get32 (data (bufs s ! bp)) (4 * bn) in
          andthen (if addr = 0 then
                     andthen (balloc dev s) (\<lambda>(addr, s).
                     let s = set_data bp (put32 (data (bufs s ! bp)) (4 * bn) addr) s in
                     andthen (log_write bp s) (\<lambda>s. Ret (addr, s)))
                   else Ret (addr, s)) (\<lambda>(addr, s).
          andthen (brelse bp s) (\<lambda>s. Ret (addr, s)))))
        else Panic ''bmap: out of range'')"

fun itrunc_direct :: "nat \<Rightarrow> nat list \<Rightarrow> 'a ist_scheme \<Rightarrow> 'a ist_scheme outcome" where
  "itrunc_direct ip [] s = Ret s"
| "itrunc_direct ip (i # is) s =
     (if addrs (inodes s ! ip) ! i \<noteq> 0 then
        andthen (bfree (idev (inodes s ! ip)) (addrs (inodes s ! ip) ! i) s) (\<lambda>s.
        itrunc_direct ip is (upd_inode ip (\<lambda>x. x\<lparr>addrs := (addrs x)[i := 0]\<rparr>) s))
      else itrunc_direct ip is s)"

fun itrunc_indirect :: "uint \<Rightarrow> nat \<Rightarrow> nat list \<Rightarrow> 'a ist_scheme \<Rightarrow> 'a ist_scheme outcome" where
  "itrunc_indirect dev bp [] s = Ret s"
| "itrunc_indirect dev bp (j # js) s =
     (let a = get32 (data (bufs s ! bp)) (4 * j) in
      if a \<noteq> 0 then andthen (bfree dev a s) (itrunc_indirect dev bp js)
      else itrunc_indirect dev bp js s)"

definition itrunc :: "nat \<Rightarrow> 'a ist_scheme \<Rightarrow> 'a ist_scheme outcome" where
  "itrunc ip s =
     andthen (itrunc_direct ip [0..<NDIRECT] s) (\<lambda>s.
     let dev = idev (inodes s ! ip); a = addrs (inodes s ! ip) ! NDIRECT in
     andthen (if a \<noteq> 0 then
                andthen (bread dev a s) (\<lambda>(bp, s).
                andthen (itrunc_indirect dev bp [0..<NINDIRECT] s) (\<lambda>s.
                andthen (brelse bp s) (\<lambda>s.
                andthen (bfree dev (addrs (inodes s ! ip) ! NDIRECT) s) (\<lambda>s.
                Ret (upd_inode ip (\<lambda>x. x\<lparr>addrs := (addrs x)[NDIRECT := 0]\<rparr>) s)))))
              else Ret s) (\<lambda>s.
     let s = upd_inode ip (\<lambda>x. x\<lparr>isize := 0\<rparr>) s in
     iupdate ip s))"

definition iput :: "nat \<Rightarrow> 'a ist_scheme \<Rightarrow> 'a ist_scheme outcome" where
  "iput ip s =
     andthen (acquiresleep (InodeSleep ip) s) (\<lambda>s.
     andthen (if ivalid (inodes s ! ip) \<and> nlink (inodes s ! ip) = 0 then
                andthen (acquire_at IcacheLock s) (\<lambda>s.
                let r = iref (inodes s ! ip) in
                andthen (release_at IcacheLock s) (\<lambda>s.
                if r = 1 then
                  andthen (itrunc ip s) (\<lambda>s.
                  let s = upd_inode ip (\<lambda>x. x\<lparr>itype := 0\<rparr>) s in
                  andthen (iupdate ip s) (\<lambda>s.
                  Ret (upd_inode ip (\<lambda>x. x\<lparr>ivalid := False\<rparr>) s)))
                else Ret s))
              else Ret s) (\<lambda>s.
     andthen (releasesleep (InodeSleep ip) s) (\<lambda>s.
     andthen (acquire_at IcacheLock s) (\<lambda>s.
     let s = upd_inode ip (\<lambda>x. x\<lparr>iref := iref x - 1\<rparr>) s in
     release_at IcacheLock s))))"

definition iunlockput :: "nat \<Rightarrow> 'a ist_scheme \<Rightarrow> 'a ist_scheme outcome" where
  "iunlockput ip s = andthen (iunlock (Some ip) s) (iput ip)"

text \<open>\<open>struct stat\<close> of \<^verbatim>\<open>stat.h\<close>, filled in by \<open>stati\<close>.\<close>

record stat =
  st_type :: ushort
  st_dev :: uint
  st_ino :: uint
  st_nlink :: ushort
  st_size :: uint

definition stati :: "inode \<Rightarrow> stat" where
  "stati x = \<lparr>st_type = itype x, st_dev = idev x, st_ino = inum x, st_nlink = nlink x, st_size = isize x\<rparr>"

end
