(* ===== verification/Format.thy ===== *)
theory Format
  imports Prelude
begin

text \<open>
  Formatted output and number parsing: \<open>printint\<close> and \<open>printf\<close> of \<^verbatim>\<open>printf.c\<close>, \<open>printint\<close> and the formatting
  loop of \<open>cprintf\<close> of \<^verbatim>\<open>console.c\<close>, and \<open>atoi\<close> of \<^verbatim>\<open>ulib.c\<close>.  Output is the list of characters written.
  \<open>printint\<close> is compared with a recursive definition of positional notation, and \<open>atoi\<close> reads back what
  it prints.
\<close>

section \<open>Numbers\<close>

definition digits_printf :: string where "digits_printf = ''0123456789ABCDEF''"
definition digits_console :: string where "digits_console = ''0123456789abcdef''"

text \<open>
  The do-while loop stores the digits from the lowest on in \<open>buf[16]\<close>; the last argument is the room
  that is left, and storing beyond it is undefined.
\<close>

fun printint_loop :: "string \<Rightarrow> uint \<Rightarrow> uint \<Rightarrow> nat \<Rightarrow> string outcome" where
  "printint_loop digits base x 0 = Undef ''buf overflow''"
| "printint_loop digits base x (Suc room) =
     (if unat (x mod base) \<ge> length digits then Undef ''digits overflow''
      else
        let c = digits ! unat (x mod base); x = x div base in
        if x \<noteq> 0 then andthen (printint_loop digits base x room) (\<lambda>buf. Ret (c # buf))
        else Ret [c])"

definition printint_buf :: "string \<Rightarrow> uint \<Rightarrow> uint \<Rightarrow> bool \<Rightarrow> string outcome" where
  "printint_buf digits xx base sign =
     (let neg = (sign \<and> sint xx < 0); x = (if neg then - xx else xx) in
      andthen (printint_loop digits base x 16) (\<lambda>buf.
      if neg then (if length buf < 16 then Ret (buf @ [CHR ''-'']) else Undef ''buf overflow'')
      else Ret buf))"

definition printint :: "string \<Rightarrow> uint \<Rightarrow> uint \<Rightarrow> bool \<Rightarrow> string outcome" where
  "printint digits xx base sign = andthen (printint_buf digits xx base sign) (\<lambda>buf. Ret (rev buf))"

section \<open>Format strings\<close>

text \<open>
  The arguments are the words after \<open>fmt\<close>; taking one that was not passed is undefined.  \<open>str_at p\<close>
  is the string at address \<open>p\<close>.
\<close>

fun printf_loop :: "(uint \<Rightarrow> string) \<Rightarrow> bool \<Rightarrow> string \<Rightarrow> uint list \<Rightarrow> string outcome" where
  "printf_loop str_at percent [] ap = Ret []"
| "printf_loop str_at False (c # fmt) ap =
     (if c = CHR ''%'' then printf_loop str_at True fmt ap
      else andthen (printf_loop str_at False fmt ap) (\<lambda>out. Ret (c # out)))"
| "printf_loop str_at True (c # fmt) ap =
     (if c = CHR ''d'' \<or> c = CHR ''x'' \<or> c = CHR ''p'' \<or> c = CHR ''s'' \<or> c = CHR ''c'' then
        case ap of
          [] \<Rightarrow> Undef ''missing argument''
        | a # ap \<Rightarrow>
            andthen (if c = CHR ''d'' then printint digits_printf a 10 True
                     else if c = CHR ''x'' \<or> c = CHR ''p'' then printint digits_printf a 16 False
                     else if c = CHR ''s'' then Ret (if a = 0 then ''(null)'' else str_at a)
                     else Ret [char_of (unat a mod 256)]) (\<lambda>o1.
            andthen (printf_loop str_at False fmt ap) (\<lambda>out. Ret (o1 @ out)))
      else andthen (printf_loop str_at False fmt ap) (\<lambda>out.
        Ret ((if c = CHR ''%'' then [c] else [CHR ''%'', c]) @ out)))"

definition printf :: "(uint \<Rightarrow> string) \<Rightarrow> string \<Rightarrow> uint list \<Rightarrow> string outcome" where
  "printf str_at fmt ap = printf_loop str_at False fmt ap"

fun cprintf_loop :: "(uint \<Rightarrow> string) \<Rightarrow> string \<Rightarrow> uint list \<Rightarrow> string outcome" where
  "cprintf_loop str_at [] argp = Ret []"
| "cprintf_loop str_at [c] argp = (if c \<noteq> CHR ''%'' then Ret [c] else Ret [])"
| "cprintf_loop str_at (c # d # fmt) argp =
     (if c \<noteq> CHR ''%'' then andthen (cprintf_loop str_at (d # fmt) argp) (\<lambda>out. Ret (c # out))
      else if d = CHR ''d'' \<or> d = CHR ''x'' \<or> d = CHR ''p'' \<or> d = CHR ''s'' then
        case argp of
          [] \<Rightarrow> Undef ''missing argument''
        | a # argp \<Rightarrow>
            andthen (if d = CHR ''d'' then printint digits_console a 10 True
                     else if d = CHR ''x'' \<or> d = CHR ''p'' then printint digits_console a 16 False
                     else Ret (if a = 0 then ''(null)'' else str_at a)) (\<lambda>o1.
            andthen (cprintf_loop str_at fmt argp) (\<lambda>out. Ret (o1 @ out)))
      else andthen (cprintf_loop str_at fmt argp) (\<lambda>out.
        Ret ((if d = CHR ''%'' then [CHR ''%''] else [CHR ''%'', d]) @ out)))"

section \<open>atoi\<close>

text \<open>A signed overflow is undefined; the product and the character are added before \<open>'0'\<close> is subtracted.\<close>

fun atoi_loop :: "int \<Rightarrow> string \<Rightarrow> int outcome" where
  "atoi_loop n [] = Ret n"
| "atoi_loop n (c # s) =
     (if 48 \<le> (of_char c :: int) \<and> (of_char c :: int) \<le> 57 then
        let m = n * 10 + of_char c in
        if m < 2 ^ 31 then atoi_loop (m - 48) s else Undef ''signed overflow''
      else Ret n)"

definition atoi :: "string \<Rightarrow> int outcome" where
  "atoi s = atoi_loop 0 s"

section \<open>Positional notation\<close>

function show_base :: "string \<Rightarrow> nat \<Rightarrow> nat \<Rightarrow> string" where
  "show_base digits base n =
     (if n < base \<or> base < 2 then [digits ! n] else show_base digits base (n div base) @ [digits ! (n mod base)])"
  by pat_completeness auto

termination
  by (relation "measure (\<lambda>(digits, base, n). n)") auto

declare show_base.simps [simp del]

lemma printint_loop_show:
  assumes "unat x < b ^ Suc room" and "2 \<le> b" and "b \<le> length digits" and "b \<le> 16" and "base = of_nat b"
  shows "printint_loop digits base x (Suc room) = Ret (rev (show_base digits b (unat x)))"
  using assms(1)
proof (induction room arbitrary: x)
  case 0
  have b: "unat base = b" using assms by (simp add: unat_of_nat)
  have "unat (x mod base) = unat x mod b" "unat (x div base) = unat x div b" by (simp_all add: unat_mod unat_div b)
  then have "unat (x mod base) = unat x" "x div base = 0" using 0 by (simp_all add: uint_eq_iff_unat)
  then show ?case using 0 assms by (simp add: show_base.simps [of digits b])
next
  case (Suc room)
  have b: "unat base = b" using assms by (simp add: unat_of_nat)
  have d: "unat (x mod base) = unat x mod b" "unat (x div base) = unat x div b" by (simp_all add: unat_mod unat_div b)
  have lt: "unat x mod b < length digits" using assms(2,3) mod_less_divisor [of b "unat x"] by linarith
  show ?case
  proof (cases "unat x < b")
    case True
    then have "x div base = 0" using d(2) by (simp add: uint_eq_iff_unat)
    then show ?thesis using True lt d(1) assms(2) by (simp add: show_base.simps [of digits b])
  next
    case False
    then have "0 < unat x div b" using assms(2) by (simp add: div_greater_zero_iff)
    then have nz: "x div base \<noteq> 0" using d(2) by (auto simp: uint_eq_iff_unat)
    have "unat x div b < b ^ Suc room" using Suc.prems by (simp add: less_mult_imp_div_less mult.commute)
    then have "printint_loop digits base (x div base) (Suc room) = Ret (rev (show_base digits b (unat x div b)))"
      using Suc.IH [of "x div base"] d(2) by simp
    moreover have "show_base digits b (unat x) = show_base digits b (unat x div b) @ [digits ! (unat x mod b)]"
      using False assms(2) by (subst show_base.simps) simp
    ultimately show ?thesis using nz lt d(1) by (simp add: Let_def)
  qed
qed

lemma show_base_length:
  "n < b ^ Suc k \<Longrightarrow> 2 \<le> b \<Longrightarrow> length (show_base digits b n) \<le> Suc k"
proof (induction k arbitrary: n)
  case 0
  then show ?case by (simp add: show_base.simps [of digits b])
next
  case (Suc k)
  then have "n div b < b ^ Suc k" by (simp add: less_mult_imp_div_less mult.commute)
  from Suc.IH [OF this Suc.prems(2)] show ?case by (subst show_base.simps) simp
qed

lemma sint_unat: "sint (xx :: uint) = int (unat xx) - (if sint xx < 0 then 4294967296 else 0)"
proof -
  have u: "uint xx < 2 ^ 32" using unsigned_less [of xx] by simp
  then have "take_bit 32 (uint xx) = uint xx" by (intro take_bit_int_eq_self) simp_all
  then have "sint xx = int (unat xx) - 4294967296 * of_bool (bit xx 31)"
    by (simp add: sint_uint signed_take_bit_eq_take_bit_minus bit_uint_iff)
  moreover have "int (unat xx) < 4294967296" using u by simp
  ultimately show ?thesis by (cases "bit xx 31") auto
qed

lemma unat_magnitude:
  "unat (if sign \<and> sint xx < 0 then - xx else xx) = (if sign then nat \<bar>sint xx\<bar> else unat (xx :: uint))"
proof (cases "sint xx < 0")
  case True
  then have "xx \<noteq> 0" by auto
  then have "unat (- xx) = 4294967296 - unat xx" using unat_sub_wrap [of 0 xx] by (simp add: uint_eq_iff_unat)
  moreover have "sint xx = int (unat xx) - 4294967296" using True sint_unat [of xx] by (simp only: if_True)
  then have "nat \<bar>sint xx\<bar> = 4294967296 - unat xx" using True by linarith
  ultimately show ?thesis using True by simp
next
  case False
  then show ?thesis using sint_unat [of xx] by simp
qed

lemma printint_buf_spec:
  assumes "b = 10 \<or> b = 16" and "length digits = 16"
  shows "printint_buf digits xx (of_nat b) sign =
    Ret (rev ((if sign \<and> sint xx < 0 then ''-'' else []) @ show_base digits b (unat (if sign \<and> sint xx < 0 then - xx else xx))))"
proof -
  let ?x = "if sign \<and> sint xx < 0 then - xx else xx"
  have "unat ?x < 4294967296" by simp
  also have "4294967296 \<le> (10::nat) ^ Suc 9" by simp
  also have "(10::nat) ^ Suc 9 \<le> b ^ Suc 9" using assms(1) by (intro power_mono) auto
  finally have x10: "unat ?x < b ^ Suc 9" .
  also have "b ^ Suc 9 \<le> b ^ Suc 15" using assms(1) by (intro power_increasing) auto
  finally have l: "printint_loop digits (of_nat b) ?x 16 = Ret (rev (show_base digits b (unat ?x)))"
    using printint_loop_show [of ?x b 15 digits "of_nat b"] assms by auto
  have len: "length (show_base digits b (unat ?x)) < 16"
    using show_base_length [OF x10, of digits] assms(1) by linarith
  show ?thesis using l len by (auto simp: printint_buf_def Let_def)
qed

lemma digits_length: "length digits_printf = 16" "length digits_console = 16"
  by (simp_all add: digits_printf_def digits_console_def)

lemma printint_spec:
  assumes "b = 10 \<or> b = 16" and "length digits = 16"
  shows "printint digits xx (of_nat b) sign =
      Ret ((if sign \<and> sint xx < 0 then ''-'' else []) @ show_base digits b (if sign then nat \<bar>sint xx\<bar> else unat xx))"
  using printint_buf_spec [OF assms, of xx sign] unat_magnitude [of sign xx] by (simp add: printint_def)

lemma digit_char:
  assumes "k < 10"
  shows "(of_char (digits_printf ! k) :: int) = 48 + int k"
proof -
  have "k \<in> {0, 1, 2, 3, 4, 5, 6, 7, 8, 9}" using assms by auto
  then show ?thesis by (auto simp: digits_printf_def)
qed

lemma atoi_digit:
  assumes "k < 10" and "0 \<le> n" and "n * 10 + int k + 48 < 2 ^ 31"
  shows "atoi_loop n (digits_printf ! k # s) = atoi_loop (n * 10 + int k) s"
  using assms by (simp add: digit_char [OF assms(1)] Let_def)

lemma atoi_show:
  "int n + 48 < 2 ^ 31 \<Longrightarrow> atoi_loop 0 (show_base digits_printf 10 n @ s) = atoi_loop (int n) s"
proof (induction n arbitrary: s rule: less_induct)
  case (less n)
  show ?case
  proof (cases "n < 10")
    case True
    then show ?thesis using less.prems by (subst show_base.simps) (simp add: atoi_digit del: atoi_loop.simps)
  next
    case False
    then have "n div 10 < n" by simp
    moreover have "n div 10 \<le> n" by simp
    moreover have "int (n div 10) + 48 < 2 ^ 31" using less.prems \<open>n div 10 \<le> n\<close> by linarith
    ultimately have ih: "atoi_loop 0 (show_base digits_printf 10 (n div 10) @ t) = atoi_loop (int (n div 10)) t" for t
      using less.IH by blast
    have e: "int (n div 10) * 10 + int (n mod 10) = int n"
      by (metis div_mult_mod_eq of_nat_add of_nat_mult of_nat_numeral)
    have "show_base digits_printf 10 n = show_base digits_printf 10 (n div 10) @ [digits_printf ! (n mod 10)]"
      using False by (subst show_base.simps) simp
    then have "atoi_loop 0 (show_base digits_printf 10 n @ s) = atoi_loop (int (n div 10)) (digits_printf ! (n mod 10) # s)"
      using ih [of "digits_printf ! (n mod 10) # s"] by simp
    also have "\<dots> = atoi_loop (int n) s" using less.prems by (subst atoi_digit) (simp_all add: e)
    finally show ?thesis .
  qed
qed

section \<open>Properties\<close>

text \<open>
  C35: \<open>printint\<close> with base 10 or 16 never runs past its 16-byte buffer or its table of digits; it prints
  the number in positional notation, with a minus sign exactly for a negative number printed as
  signed (the magnitude of the smallest number, which has no positive counterpart, included).
\<close>

theorem printint_correct:
  assumes "base = 10 \<or> base = 16" and "digits = digits_printf \<or> digits = digits_console"
  shows "printint digits xx (of_nat base) sign =
      Ret ((if sign \<and> sint xx < 0 then ''-'' else []) @
        show_base digits base (if sign then nat \<bar>sint xx\<bar> else unat xx))"
  using printint_spec [OF assms(1), of digits xx sign] assms(2) digits_length by auto

theorem printint_correct_witness:
  "printint digits_printf (- 42) (of_nat 10) True = Ret (''-'' @ show_base digits_printf 10 42)"
proof -
  have "sint (- 42 :: uint) = - 42" by simp
  then show ?thesis using printint_correct [of 10 digits_printf "- 42" True] by simp
qed

text \<open>
  C36: \<open>atoi\<close> reads back what \<^verbatim>\<open>%d\<close> prints, for every number from 0 up to the largest for which the
  intermediate sum of \<open>atoi\<close> does not overflow.
\<close>

theorem atoi_printf_roundtrip:
  assumes "0 \<le> sint x" and "sint x + 48 < 2 ^ 31"
  shows "\<exists>out. printf str_at ''%d'' [x] = Ret out \<and> atoi out = Ret (sint x)"
proof -
  have "printint digits_printf x (of_nat 10) True = Ret (show_base digits_printf 10 (nat (sint x)))"
    using assms(1) printint_spec [of 10 digits_printf x True] digits_length(1) by simp
  then have "printf str_at ''%d'' [x] = Ret (show_base digits_printf 10 (nat (sint x)))"
    by (simp add: printf_def)
  moreover have "atoi (show_base digits_printf 10 (nat (sint x))) = Ret (sint x)"
    using atoi_show [of "nat (sint x)" "[]"] assms by (simp add: atoi_def)
  ultimately show ?thesis by blast
qed

theorem atoi_printf_roundtrip_witness:
  "\<exists>out. printf (\<lambda>_. []) ''%d'' [1911] = Ret out \<and> atoi out = Ret 1911"
proof -
  have "sint (1911 :: uint) = 1911" by simp
  then show ?thesis using atoi_printf_roundtrip [of 1911 "\<lambda>_. []"] by simp
qed

end
