(* ===== verification/Console.thy ===== *)
theory Console
  imports Inode Format
begin

text \<open>
  The console: \<^verbatim>\<open>console.c\<close>, the keyboard \<^verbatim>\<open>kbd.c\<close> and the serial line \<^verbatim>\<open>uart.c\<close> as far as they compute.  The
  state \<open>cst\<close> adds the line buffer, the screen with its cursor, the characters sent to the serial
  line and the device switch.  The video memory is larger than the screen, so that it is a
  function; the cursor lives in the registers of the video controller.
\<close>

unbundle bit_operations_syntax

section \<open>State\<close>

text \<open>The functions a device switch can point to.\<close>

datatype devread = ConsoleRead
datatype devwrite = ConsoleWrite

abbreviation NDEV :: nat where "NDEV \<equiv> 10"
abbreviation CONSOLE :: nat where "CONSOLE \<equiv> 1"
abbreviation INPUT_BUF :: uint where "INPUT_BUF \<equiv> 128"
abbreviation BACKSPACE :: int where "BACKSPACE \<equiv> 0x100"

record inputbuf =
  ibuf :: "uchar list"
  in_r :: uint
  in_w :: uint
  in_e :: uint

record cst = ist +
  input :: inputbuf
  cons_locking :: bool
  panicked :: bool
  uart :: bool
  serial :: "uchar list"
  crt :: "nat \<Rightarrow> ushort"
  cursor :: int
  devsw :: "(devread option \<times> devwrite option) list"

section \<open>Output\<close>

definition uartputc :: "int \<Rightarrow> 'a cst_scheme \<Rightarrow> 'a cst_scheme" where
  "uartputc c s = (if \<not> uart s then s else s\<lparr>serial := serial s @ [of_int c]\<rparr>)"

definition cgaputc :: "int \<Rightarrow> 'a cst_scheme \<Rightarrow> 'a cst_scheme outcome" where
  "cgaputc c s =
     (let pos = cursor s;
          (pos, s) =
            (if c = 10 then (pos + (80 - pos mod 80), s)
             else if c = BACKSPACE then (if pos > 0 then pos - 1 else pos, s)
             else (pos + 1, s\<lparr>crt := (crt s)(nat pos := (of_int c AND 0xff) OR 0x0700)\<rparr>)) in
      if pos < 0 \<or> pos > 25 * 80 then Panic ''pos under/overflow''
      else
        let (pos, s) =
              (if pos div 80 \<ge> 24 then
                 let s = s\<lparr>crt := (\<lambda>i. if i < 23 * 80 then crt s (i + 80) else crt s i)\<rparr>;
                     pos = pos - 80 in
                 (pos, s\<lparr>crt := (\<lambda>i. if nat pos \<le> i \<and> i < 24 * 80 then 0 else crt s i)\<rparr>)
               else (pos, s));
            s = s\<lparr>cursor := pos\<rparr> in
        Ret (s\<lparr>crt := (crt s)(nat pos := 0x20 OR 0x0700)\<rparr>))"

definition consputc :: "int \<Rightarrow> 'a cst_scheme \<Rightarrow> 'a cst_scheme outcome" where
  "consputc c s =
     (if panicked s then Diverge
      else
        let s = (if c = BACKSPACE then uartputc 8 (uartputc 0x20 (uartputc 8 s)) else uartputc c s) in
        cgaputc c s)"

fun consputs :: "int list \<Rightarrow> 'a cst_scheme \<Rightarrow> 'a cst_scheme outcome" where
  "consputs [] s = Ret s"
| "consputs (c # cs) s = andthen (consputc c s) (consputs cs)"

text \<open>
  \<open>cprintf\<close> formats with the function of the theory \<open>Format\<close> and prints under the console's lock when
  locking is on.  \<open>strs\<close> reads the strings that the arguments point to.
\<close>

definition cprintf :: "(uint \<Rightarrow> string) \<Rightarrow> string \<Rightarrow> uint list \<Rightarrow> 'a cst_scheme \<Rightarrow> 'a cst_scheme outcome" where
  "cprintf strs fmt args s =
     (let locking = cons_locking s in
      andthen (if locking then acquire_at ConsLock s else Ret s) (\<lambda>s.
      andthen (cprintf_loop strs fmt args) (\<lambda>out.
      andthen (consputs (map (\<lambda>c. int (of_char c)) out) s) (\<lambda>s.
      if locking then release_at ConsLock s else Ret s))))"

definition consoleinit :: "'a cst_scheme \<Rightarrow> 'a cst_scheme" where
  "consoleinit s =
     (let s = s\<lparr>locks := (locks s)(ConsLock := initlock ''console'')\<rparr>;
          s = s\<lparr>devsw := (devsw s)[CONSOLE := (fst (devsw s ! CONSOLE), Some ConsoleWrite)]\<rparr>;
          s = s\<lparr>devsw := (devsw s)[CONSOLE := (Some ConsoleRead, snd (devsw s ! CONSOLE))]\<rparr> in
      s\<lparr>cons_locking := True\<rparr>)"

section \<open>Input\<close>

definition upd_input :: "(inputbuf \<Rightarrow> inputbuf) \<Rightarrow> 'a cst_scheme \<Rightarrow> 'a cst_scheme" where
  "upd_input f s = s\<lparr>input := f (input s)\<rparr>"

text \<open>
  Control-U erases back to the last newline or to what is already committed; the first argument is
  the number of uncommitted characters, \<open>input.e - input.w\<close>.
\<close>

fun kill_line :: "nat \<Rightarrow> 'a cst_scheme \<Rightarrow> 'a cst_scheme outcome" where
  "kill_line 0 s = Ret s"
| "kill_line (Suc k) s =
     (if ibuf (input s) ! unat ((in_e (input s) - 1) mod INPUT_BUF) \<noteq> 10 then
        let s = upd_input (\<lambda>i. i\<lparr>in_e := in_e i - 1\<rparr>) s in
        andthen (consputc BACKSPACE s) (kill_line k)
      else Ret s)"

definition console_char :: "int \<Rightarrow> 'a cst_scheme \<Rightarrow> 'a cst_scheme outcome" where
  "console_char c s =
     (if c = 21 then kill_line (unat (in_e (input s) - in_w (input s))) s
      else if c = 8 \<or> c = 0x7f then
        if in_e (input s) \<noteq> in_w (input s) then
          let s = upd_input (\<lambda>i. i\<lparr>in_e := in_e i - 1\<rparr>) s in consputc BACKSPACE s
        else Ret s
      else if c \<noteq> 0 \<and> in_e (input s) - in_r (input s) < INPUT_BUF then
        let c = (if c = 13 then 10 else c);
            s = upd_input (\<lambda>i. i\<lparr>ibuf := (ibuf i)[unat (in_e i mod INPUT_BUF) := of_int c], in_e := in_e i + 1\<rparr>) s in
        andthen (consputc c s) (\<lambda>s.
        if c = 10 \<or> c = 4 \<or> in_e (input s) = in_r (input s) + INPUT_BUF then
          let s = upd_input (\<lambda>i. i\<lparr>in_w := in_e i\<rparr>) s in
          wakeup ChInput s
        else Ret s)
      else Ret s)"

text \<open>
  The interrupt handler takes the characters \<open>cs\<close> that \<open>getc\<close> delivers before it returns a negative
  number; control-P asks for a process listing, which is printed after the lock is given back.
\<close>

fun consoleintr_loop :: "int list \<Rightarrow> bool \<Rightarrow> 'a cst_scheme \<Rightarrow> (bool \<times> 'a cst_scheme) outcome" where
  "consoleintr_loop [] dump s = Ret (dump, s)"
| "consoleintr_loop (c # cs) dump s =
     (if c = 16 then consoleintr_loop cs True s
      else andthen (console_char c s) (consoleintr_loop cs dump))"

definition proc_state_name :: "procstate \<Rightarrow> string" where
  "proc_state_name st = (case st of UNUSED \<Rightarrow> ''unused'' | EMBRYO \<Rightarrow> ''embryo'' | SLEEPING \<Rightarrow> ''sleep ''
     | RUNNABLE \<Rightarrow> ''runble'' | RUNNING \<Rightarrow> ''run   '' | ZOMBIE \<Rightarrow> ''zombie'')"

definition bytes_string :: "uchar list \<Rightarrow> string" where
  "bytes_string bs = map (\<lambda>b. char_of (unat b)) (takeWhile (\<lambda>b. b \<noteq> 0) bs)"

fun procdump_pcs :: "uint list \<Rightarrow> 'a cst_scheme \<Rightarrow> 'a cst_scheme outcome" where
  "procdump_pcs [] s = Ret s"
| "procdump_pcs (pc # pcs) s =
     (if pc \<noteq> 0 then andthen (cprintf (\<lambda>_. '''') '' %p'' [pc] s) (procdump_pcs pcs) else Ret s)"

fun procdump_loop :: "proc list \<Rightarrow> 'a cst_scheme \<Rightarrow> 'a cst_scheme outcome" where
  "procdump_loop [] s = Ret s"
| "procdump_loop (p # ps) s =
     (if pstate p = UNUSED then procdump_loop ps s
      else
        andthen (cprintf (\<lambda>a. if a = 1 then proc_state_name (pstate p) else bytes_string (pname p))
                   ''%d %s %s'' [of_int (pid p), 1, 2] s) (\<lambda>s.
        andthen (if pstate p = SLEEPING
                 then procdump_pcs (getcallerpcs (mem s) (ld32 (mem s) (pcontext p + 12) + 8)) s
                 else Ret s) (\<lambda>s.
        andthen (cprintf (\<lambda>_. '''') [CHR 0x0A] [] s) (procdump_loop ps))))"

definition procdump :: "'a cst_scheme \<Rightarrow> 'a cst_scheme outcome" where
  "procdump s = procdump_loop (procs s) s"

definition consoleintr :: "int list \<Rightarrow> 'a cst_scheme \<Rightarrow> 'a cst_scheme outcome" where
  "consoleintr cs s =
     andthen (acquire_at ConsLock s) (\<lambda>s.
     andthen (consoleintr_loop cs False s) (\<lambda>(dump, s).
     andthen (release_at ConsLock s) (\<lambda>s.
     if dump then procdump s else Ret s)))"

text \<open>
  \<open>consoleread\<close> returns the characters it stores at its destination.  The loop has \<open>n\<close> characters
  to go; \<open>None\<close> says that the reader was killed while it waited.
\<close>

fun consoleread_loop :: "nat \<Rightarrow> bool \<Rightarrow> uchar list \<Rightarrow> 'a cst_scheme \<Rightarrow> (uchar list option \<times> 'a cst_scheme) outcome" where
  "consoleread_loop 0 some acc s = Ret (Some acc, s)"
| "consoleread_loop (Suc n) some acc s =
     (if in_r (input s) = in_w (input s) then
        andthen (curproc s) (\<lambda>(p, s).
        if killed (procs s ! p) then Ret (None, s)
        else andthen (sleep ChInput (Some ConsLock) s) (\<lambda>_. Diverge))
      else
        let c = ibuf (input s) ! unat (in_r (input s) mod INPUT_BUF);
            s = upd_input (\<lambda>i. i\<lparr>in_r := in_r i + 1\<rparr>) s in
        if c = 4 then Ret (Some acc, if some then upd_input (\<lambda>i. i\<lparr>in_r := in_r i - 1\<rparr>) s else s)
        else if c = 10 then Ret (Some (acc @ [c]), s)
        else consoleread_loop n True (acc @ [c]) s)"

definition consoleread :: "nat \<Rightarrow> int \<Rightarrow> 'a cst_scheme \<Rightarrow> ((int \<times> uchar list) \<times> 'a cst_scheme) outcome" where
  "consoleread ip n s =
     andthen (iunlock (Some ip) s) (\<lambda>s.
     andthen (acquire_at ConsLock s) (\<lambda>s.
     andthen (consoleread_loop (nat n) False [] s) (\<lambda>(r, s).
     andthen (release_at ConsLock s) (\<lambda>s.
     andthen (ilock (Some ip) s) (\<lambda>s.
     case r of None \<Rightarrow> Ret ((-1, []), s) | Some bs \<Rightarrow> Ret ((int (length bs), bs), s))))))"

definition consolewrite :: "nat \<Rightarrow> uchar list \<Rightarrow> 'a cst_scheme \<Rightarrow> (int \<times> 'a cst_scheme) outcome" where
  "consolewrite ip bs s =
     andthen (iunlock (Some ip) s) (\<lambda>s.
     andthen (acquire_at ConsLock s) (\<lambda>s.
     andthen (consputs (map uint bs) s) (\<lambda>s.
     andthen (release_at ConsLock s) (\<lambda>s.
     andthen (ilock (Some ip) s) (\<lambda>s. Ret (int (length bs), s))))))"

end
