(* ===== verification/Fs.thy ===== *)
theory Fs
  imports Console
begin

text \<open>
  Files, directories and path names: the second half of \<^verbatim>\<open>fs.c\<close>.  \<open>readi\<close> returns the bytes it stores at
  its destination and \<open>writei\<close> receives the bytes of its source, so that the same definitions serve
  kernel structures and user memory.  A path is the list of its bytes, of which the string is the
  part before the first null byte; reading past the list is undefined.
\<close>

unbundle bit_operations_syntax

abbreviation DIRSIZ :: nat where "DIRSIZ \<equiv> 14"
abbreviation ROOTDEV :: uint where "ROOTDEV \<equiv> 1"
abbreviation ROOTINO :: uint where "ROOTINO \<equiv> 1"

section \<open>Initialisation\<close>

definition iinit :: "uint \<Rightarrow> 'a cst_scheme \<Rightarrow> 'a cst_scheme outcome" where
  "iinit dev s =
     (let s = s\<lparr>locks := (locks s)(IcacheLock := initlock ''icache'')\<rparr>;
          s = fold (\<lambda>i. initsleeplock (InodeSleep i) ''inode'') [0..<NINODE] s in
      andthen (readsb dev s) (\<lambda>(b, s).
      let s = s\<lparr>sb := b\<rparr> in
      cprintf (\<lambda>_. '''')
        (''sb: size %d nblocks %d ninodes %d nlog %d logstart %d inodestart %d bmap start %d'' @ [CHR 0x0A])
        [sb_size b, sb_nblocks b, sb_ninodes b, sb_nlog b, sb_logstart b, sb_inodestart b, sb_bmapstart b] s))"

section \<open>Contents\<close>

text \<open>The loops run until \<open>r\<close> more bytes are moved; each pass moves the bytes up to the end of a block.\<close>

function readi_loop :: "nat \<Rightarrow> uint \<Rightarrow> nat \<Rightarrow> 'a ist_scheme \<Rightarrow> (uchar list \<times> 'a ist_scheme) outcome" where
  "readi_loop ip off r s =
     (if r = 0 then Ret ([], s)
      else
        andthen (bmap ip (off div of_nat BSIZE) s) (\<lambda>(a, s).
        andthen (bread (idev (inodes s ! ip)) a s) (\<lambda>(bp, s).
        let q = unat off mod BSIZE; m = min r (BSIZE - q);
            bs = take m (drop q (data (bufs s ! bp))) in
        andthen (brelse bp s) (\<lambda>s.
        andthen (readi_loop ip (off + of_nat m) (r - m) s) (\<lambda>(rest, s).
        Ret (bs @ rest, s))))))"
  by pat_completeness auto

termination readi_loop
  by (relation "measure (\<lambda>(ip, off, r, s). r)") (auto simp: min_def)

definition readi :: "nat \<Rightarrow> uint \<Rightarrow> uint \<Rightarrow> 'a cst_scheme \<Rightarrow> ((int \<times> uchar list) \<times> 'a cst_scheme) outcome" where
  "readi ip off n s =
     (let x = inodes s ! ip in
      if itype x = T_DEV then
        if sint (major x) < 0 \<or> sint (major x) \<ge> int NDEV then Ret ((-1, []), s)
        else case fst (devsw s ! unat (major x)) of
               None \<Rightarrow> Ret ((-1, []), s)
             | Some ConsoleRead \<Rightarrow> consoleread ip (sint n) s
      else if off > isize x \<or> off + n < off then Ret ((-1, []), s)
      else
        let n = (if off + n > isize x then isize x - off else n) in
        andthen (readi_loop ip off (unat n) s) (\<lambda>(bs, s). Ret ((sint n, bs), s)))"

definition overwrite :: "'a list \<Rightarrow> nat \<Rightarrow> 'a list \<Rightarrow> 'a list" where
  "overwrite d p bs = take p d @ bs @ drop (p + length bs) d"

function writei_loop :: "nat \<Rightarrow> uint \<Rightarrow> uchar list \<Rightarrow> 'a ist_scheme \<Rightarrow> (uint \<times> 'a ist_scheme) outcome" where
  "writei_loop ip off src s =
     (if src = [] then Ret (off, s)
      else
        andthen (bmap ip (off div of_nat BSIZE) s) (\<lambda>(a, s).
        andthen (bread (idev (inodes s ! ip)) a s) (\<lambda>(bp, s).
        let q = unat off mod BSIZE; m = min (length src) (BSIZE - q);
            s = set_data bp (overwrite (data (bufs s ! bp)) q (take m src)) s in
        andthen (log_write bp s) (\<lambda>s.
        andthen (brelse bp s) (\<lambda>s.
        writei_loop ip (off + of_nat m) (drop m src) s)))))"
  by pat_completeness auto

termination writei_loop
  by (relation "measure (\<lambda>(ip, off, src, s). length src)") (auto simp: min_def)

definition writei :: "nat \<Rightarrow> uchar list \<Rightarrow> uint \<Rightarrow> uint \<Rightarrow> 'a cst_scheme \<Rightarrow> (int \<times> 'a cst_scheme) outcome" where
  "writei ip src off n s =
     (let x = inodes s ! ip in
      if itype x = T_DEV then
        if sint (major x) < 0 \<or> sint (major x) \<ge> int NDEV then Ret (-1, s)
        else case snd (devsw s ! unat (major x)) of
               None \<Rightarrow> Ret (-1, s)
             | Some ConsoleWrite \<Rightarrow> consolewrite ip (take (nat (sint n)) src) s
      else if off > isize x \<or> off + n < off then Ret (-1, s)
      else if off + n > of_nat (MAXFILE * BSIZE) then Ret (-1, s)
      else
        andthen (writei_loop ip off (take (unat n) src) s) (\<lambda>(off, s).
        if n > 0 \<and> off > isize (inodes s ! ip) then
          let s = upd_inode ip (\<lambda>x. x\<lparr>isize := off\<rparr>) s in
          andthen (iupdate ip s) (\<lambda>s. Ret (sint n, s))
        else Ret (sint n, s)))"

section \<open>Directories\<close>

definition namecmp :: "uchar list \<Rightarrow> uchar list \<Rightarrow> int outcome" where
  "namecmp s t = strncmp s t DIRSIZ"

text \<open>
  \<open>struct dirent\<close>: the inode number in the first two bytes and the name in the other 14.  The loops
  visit the entries at offsets that are multiples of 16 below the size of the directory.
\<close>

definition de_inum :: "uchar list \<Rightarrow> ushort" where
  "de_inum de = get16 de 0"

definition de_name :: "uchar list \<Rightarrow> uchar list" where
  "de_name de = drop 2 de"

function dirlookup_loop :: "nat \<Rightarrow> uchar list \<Rightarrow> nat \<Rightarrow> 'a cst_scheme \<Rightarrow> ((nat \<times> uint) option \<times> 'a cst_scheme) outcome" where
  "dirlookup_loop dp name off s =
     (if off < 2 ^ 32 \<and> off < unat (isize (inodes s ! dp)) then
        andthen (readi dp (of_nat off) 16 s) (\<lambda>((r, de), s).
        if r \<noteq> 16 then Panic ''dirlookup read''
        else if de_inum de = 0 then dirlookup_loop dp name (off + 16) s
        else andthen (namecmp name (de_name de)) (\<lambda>c.
          if c = 0 then
            andthen (iget (idev (inodes s ! dp)) (ucast (de_inum de)) s) (\<lambda>(ip, s). Ret (Some (ip, of_nat off), s))
          else dirlookup_loop dp name (off + 16) s))
      else Ret (None, s))"
  by pat_completeness auto

termination dirlookup_loop
  by (relation "measure (\<lambda>(dp, name, off, s). 2 ^ 32 - off)") auto

definition dirlookup :: "nat \<Rightarrow> uchar list \<Rightarrow> 'a cst_scheme \<Rightarrow> ((nat \<times> uint) option \<times> 'a cst_scheme) outcome" where
  "dirlookup dp name s =
     (if itype (inodes s ! dp) \<noteq> T_DIR then Panic ''dirlookup not DIR'' else dirlookup_loop dp name 0 s)"

function dirlink_slot :: "nat \<Rightarrow> nat \<Rightarrow> 'a cst_scheme \<Rightarrow> (nat \<times> 'a cst_scheme) outcome" where
  "dirlink_slot dp off s =
     (if off < 2 ^ 31 \<and> off < unat (isize (inodes s ! dp)) then
        andthen (readi dp (of_nat off) 16 s) (\<lambda>((r, de), s).
        if r \<noteq> 16 then Panic ''dirlink read''
        else if de_inum de = 0 then Ret (off, s)
        else dirlink_slot dp (off + 16) s)
      else Ret (off, s))"
  by pat_completeness auto

termination dirlink_slot
  by (relation "measure (\<lambda>(dp, off, s). 2 ^ 31 - off)") auto

definition dirlink :: "nat \<Rightarrow> uchar list \<Rightarrow> uint \<Rightarrow> 'a cst_scheme \<Rightarrow> (int \<times> 'a cst_scheme) outcome" where
  "dirlink dp name i s =
     andthen (dirlookup dp name s) (\<lambda>(r, s).
     case r of
       Some (ip, _) \<Rightarrow> andthen (iput ip s) (\<lambda>s. Ret (-1, s))
     | None \<Rightarrow>
         andthen (dirlink_slot dp 0 s) (\<lambda>(off, s).
         andthen (strncpy (replicate DIRSIZ 0) name DIRSIZ) (\<lambda>nm.
         let de = put16 (0 # 0 # nm) 0 (ucast i) in
         andthen (writei dp de (of_nat off) 16 s) (\<lambda>(r, s).
         if r \<noteq> 16 then Panic ''dirlink'' else Ret (0, s)))))"

section \<open>Paths\<close>

abbreviation SLASH :: uchar where "SLASH \<equiv> 0x2f"

fun skip_slashes :: "uchar list \<Rightarrow> uchar list outcome" where
  "skip_slashes [] = Undef ''path not terminated''"
| "skip_slashes (c # cs) = (if c = SLASH then skip_slashes cs else Ret (c # cs))"

fun path_elem :: "uchar list \<Rightarrow> (uchar list \<times> uchar list) outcome" where
  "path_elem [] = Undef ''path not terminated''"
| "path_elem (c # cs) =
     (if c \<noteq> SLASH \<and> c \<noteq> 0 then andthen (path_elem cs) (\<lambda>(e, rest). Ret (c # e, rest)) else Ret ([], c # cs))"

text \<open>
  \<open>skipelem\<close> returns the rest of the path and the new contents of the \<open>DIRSIZ\<close> bytes at \<open>name\<close>, or
  \<open>None\<close> when there is no element.
\<close>

definition skipelem :: "uchar list \<Rightarrow> uchar list \<Rightarrow> (uchar list \<times> uchar list) option outcome" where
  "skipelem path name =
     andthen (skip_slashes path) (\<lambda>path.
     if hd path = 0 then Ret None
     else
       andthen (path_elem path) (\<lambda>(s, path).
       let len = length s;
           name = (if len \<ge> DIRSIZ then overwrite name 0 (take DIRSIZ s)
                   else (overwrite name 0 s)[len := 0]) in
       andthen (skip_slashes path) (\<lambda>path. Ret (Some (path, name)))))"

text \<open>Each round of \<open>namex\<close> consumes at least one byte of the path; the first argument counts them.\<close>

fun namex_loop :: "nat \<Rightarrow> nat \<Rightarrow> uchar list \<Rightarrow> bool \<Rightarrow> uchar list \<Rightarrow> 'a cst_scheme \<Rightarrow>
    ((nat option \<times> uchar list) \<times> 'a cst_scheme) outcome" where
  "namex_loop 0 ip path par name s = Diverge"
| "namex_loop (Suc fuel) ip path par name s =
     andthen (skipelem path name) (\<lambda>r.
     case r of
       Some (path, name) \<Rightarrow>
         andthen (ilock (Some ip) s) (\<lambda>s.
         if itype (inodes s ! ip) \<noteq> T_DIR then andthen (iunlockput ip s) (\<lambda>s. Ret ((None, name), s))
         else if par \<and> hd path = 0 then andthen (iunlock (Some ip) s) (\<lambda>s. Ret ((Some ip, name), s))
         else
           andthen (dirlookup ip name s) (\<lambda>(nxt, s).
           case nxt of
             None \<Rightarrow> andthen (iunlockput ip s) (\<lambda>s. Ret ((None, name), s))
           | Some (ip', _) \<Rightarrow> andthen (iunlockput ip s) (namex_loop fuel ip' path par name)))
     | None \<Rightarrow>
         if par then andthen (iput ip s) (\<lambda>s. Ret ((None, name), s))
         else Ret ((Some ip, name), s))"

definition namex :: "uchar list \<Rightarrow> bool \<Rightarrow> uchar list \<Rightarrow> 'a cst_scheme \<Rightarrow> ((nat option \<times> uchar list) \<times> 'a cst_scheme) outcome" where
  "namex path par name s =
     (case path of
        [] \<Rightarrow> Undef ''path not terminated''
      | c # _ \<Rightarrow>
          andthen (if c = SLASH then iget ROOTDEV ROOTINO s
                   else andthen (curproc s) (\<lambda>(p, s).
                     case cwd (procs s ! p) of None \<Rightarrow> Undef ''no current directory'' | Some ip \<Rightarrow> idup ip s)) (\<lambda>(ip, s).
          namex_loop (Suc (length path)) ip path par name s))"

definition namei :: "uchar list \<Rightarrow> 'a cst_scheme \<Rightarrow> (nat option \<times> 'a cst_scheme) outcome" where
  "namei path s = andthen (namex path False (replicate DIRSIZ 0) s) (\<lambda>((ip, _), s). Ret (ip, s))"

definition nameiparent :: "uchar list \<Rightarrow> uchar list \<Rightarrow> 'a cst_scheme \<Rightarrow> ((nat option \<times> uchar list) \<times> 'a cst_scheme) outcome" where
  "nameiparent path name s = namex path True name s"

end
