(* ===== verification/File.thy ===== *)
theory File
  imports Fs
begin

text \<open>
  Pipes and open files: \<^verbatim>\<open>pipe.c\<close> and \<^verbatim>\<open>file.c\<close>.  The state \<open>fss\<close> adds the table of open files and the
  pipes, by the address of their page.  Buffers of system calls lie in user memory, which the
  kernel reads and writes through the page table of the process, as the hardware translates: a
  missing page, or a write to a read-only page, is a fault in the kernel, and \<open>trap\<close> panics.
\<close>

unbundle bit_operations_syntax

section \<open>User memory\<close>

definition translate :: "'a kst_scheme \<Rightarrow> bool \<Rightarrow> uint \<Rightarrow> uint option" where
  "translate s wr va =
     (let pde = ld32 (mem s) (P2V (cr3 s) + 4 * PDX va) in
      if pde AND PTE_P = 0 \<or> wr \<and> pde AND PTE_W = 0 then None
      else
        let pte = ld32 (mem s) (P2V (PTE_ADDR pde) + 4 * PTX va) in
        if pte AND PTE_P = 0 \<or> wr \<and> pte AND PTE_W = 0 then None
        else Some (P2V (PTE_ADDR pte) + va AND 0xFFF))"

fun load_user :: "'a kst_scheme \<Rightarrow> uint \<Rightarrow> nat \<Rightarrow> uchar list outcome" where
  "load_user s va 0 = Ret []"
| "load_user s va (Suc n) =
     (case translate s False va of
        None \<Rightarrow> Panic ''trap''
      | Some ka \<Rightarrow> andthen (load_user s (va + 1) n) (\<lambda>bs. Ret (mem s ka # bs)))"

fun store_user :: "uint \<Rightarrow> uchar list \<Rightarrow> 'a kst_scheme \<Rightarrow> 'a kst_scheme outcome" where
  "store_user va [] s = Ret s"
| "store_user va (b # bs) s =
     (case translate s True va of
        None \<Rightarrow> Panic ''trap''
      | Some ka \<Rightarrow> store_user (va + 1) bs (s\<lparr>mem := (mem s)(ka := b)\<rparr>))"

definition bytes32 :: "uint \<Rightarrow> uchar list" where
  "bytes32 w = put32 [0, 0, 0, 0] 0 w"

section \<open>State\<close>

abbreviation PIPESIZE :: nat where "PIPESIZE \<equiv> 512"
abbreviation NFILE :: nat where "NFILE \<equiv> 100"

datatype filetype = FD_NONE | FD_PIPE | FD_INODE

record pipe =
  pdata :: "uchar list"
  nread :: uint
  nwrite :: uint
  readopen :: bool
  writeopen :: bool

record filerec =
  ftype :: filetype
  fref :: int
  readable :: bool
  writable :: bool
  fpipe :: uint
  fip :: "nat option"
  foff :: uint

record fss = cst +
  files :: "filerec list"
  pipes :: "uint \<Rightarrow> pipe"

definition upd_file :: "nat \<Rightarrow> (filerec \<Rightarrow> filerec) \<Rightarrow> 'a fss_scheme \<Rightarrow> 'a fss_scheme" where
  "upd_file f g s = s\<lparr>files := (files s)[f := g (files s ! f)]\<rparr>"

definition upd_pipe :: "uint \<Rightarrow> (pipe \<Rightarrow> pipe) \<Rightarrow> 'a fss_scheme \<Rightarrow> 'a fss_scheme" where
  "upd_pipe p g s = s\<lparr>pipes := (pipes s)(p := g (pipes s p))\<rparr>"

section \<open>Pipes\<close>

text \<open>The two accesses to the ring.\<close>

definition pipe_full :: "pipe \<Rightarrow> bool" where
  "pipe_full p \<longleftrightarrow> nwrite p = nread p + of_nat PIPESIZE"

definition pipe_put :: "uchar \<Rightarrow> pipe \<Rightarrow> pipe" where
  "pipe_put c p = p\<lparr>pdata := (pdata p)[unat (nwrite p) mod PIPESIZE := c], nwrite := nwrite p + 1\<rparr>"

definition pipe_get :: "pipe \<Rightarrow> uchar \<times> pipe" where
  "pipe_get p = (pdata p ! (unat (nread p) mod PIPESIZE), p\<lparr>nread := nread p + 1\<rparr>)"

definition pipeclose :: "uint \<Rightarrow> bool \<Rightarrow> 'a fss_scheme \<Rightarrow> 'a fss_scheme outcome" where
  "pipeclose p wr s =
     andthen (acquire_at (PipeLock p) s) (\<lambda>s.
     andthen (if wr then wakeup (ChRead p) (upd_pipe p (\<lambda>q. q\<lparr>writeopen := False\<rparr>) s)
              else wakeup (ChWrite p) (upd_pipe p (\<lambda>q. q\<lparr>readopen := False\<rparr>) s)) (\<lambda>s.
     if \<not> readopen (pipes s p) \<and> \<not> writeopen (pipes s p) then
       andthen (release_at (PipeLock p) s) (kfree p)
     else release_at (PipeLock p) s))"

text \<open>
  The writer's loop; \<open>False\<close> says that the reading end is closed or the writer was killed while the
  pipe was full.
\<close>

fun pipewrite_loop :: "uint \<Rightarrow> uchar list \<Rightarrow> 'a fss_scheme \<Rightarrow> (bool \<times> 'a fss_scheme) outcome" where
  "pipewrite_loop p [] s = Ret (True, s)"
| "pipewrite_loop p (c # cs) s =
     (if pipe_full (pipes s p) then
        andthen (curproc s) (\<lambda>(me, s).
        if \<not> readopen (pipes s p) \<or> killed (procs s ! me) then Ret (False, s)
        else
          andthen (wakeup (ChRead p) s) (\<lambda>s.
          andthen (sleep (ChWrite p) (Some (PipeLock p)) s) (\<lambda>_. Diverge)))
      else pipewrite_loop p cs (upd_pipe p (pipe_put c) s))"

definition pipewrite :: "uint \<Rightarrow> uchar list \<Rightarrow> 'a fss_scheme \<Rightarrow> (int \<times> 'a fss_scheme) outcome" where
  "pipewrite p bs s =
     andthen (acquire_at (PipeLock p) s) (\<lambda>s.
     andthen (pipewrite_loop p bs s) (\<lambda>(ok, s).
     if ok then
       andthen (wakeup (ChRead p) s) (\<lambda>s.
       andthen (release_at (PipeLock p) s) (\<lambda>s. Ret (int (length bs), s)))
     else andthen (release_at (PipeLock p) s) (\<lambda>s. Ret (-1, s))))"

fun piperead_loop :: "nat \<Rightarrow> pipe \<Rightarrow> uchar list \<times> pipe" where
  "piperead_loop 0 q = ([], q)"
| "piperead_loop (Suc n) q =
     (if nread q = nwrite q then ([], q)
      else
        let (c, q) = pipe_get q; (cs, q) = piperead_loop n q in (c # cs, q))"

definition piperead :: "uint \<Rightarrow> int \<Rightarrow> 'a fss_scheme \<Rightarrow> ((int \<times> uchar list) \<times> 'a fss_scheme) outcome" where
  "piperead p n s =
     andthen (acquire_at (PipeLock p) s) (\<lambda>s.
     if nread (pipes s p) = nwrite (pipes s p) \<and> writeopen (pipes s p) then
       andthen (curproc s) (\<lambda>(me, s).
       if killed (procs s ! me) then andthen (release_at (PipeLock p) s) (\<lambda>s. Ret ((-1, []), s))
       else andthen (sleep (ChRead p) (Some (PipeLock p)) s) (\<lambda>_. Diverge))
     else
       let (bs, q) = piperead_loop (nat n) (pipes s p);
           s = upd_pipe p (\<lambda>_. q) s in
       andthen (wakeup (ChWrite p) s) (\<lambda>s.
       andthen (release_at (PipeLock p) s) (\<lambda>s. Ret ((int (length bs), bs), s))))"

section \<open>Open files\<close>

definition fileinit :: "'a fss_scheme \<Rightarrow> 'a fss_scheme" where
  "fileinit s = s\<lparr>locks := (locks s)(FtableLock := initlock ''ftable'')\<rparr>"

fun find_file :: "filerec list \<Rightarrow> nat \<Rightarrow> nat option" where
  "find_file [] k = None"
| "find_file (f # fs) k = (if fref f = 0 then Some k else find_file fs (Suc k))"

definition filealloc :: "'a fss_scheme \<Rightarrow> (nat option \<times> 'a fss_scheme) outcome" where
  "filealloc s =
     andthen (acquire_at FtableLock s) (\<lambda>s.
     case find_file (files s) 0 of
       Some f \<Rightarrow>
         let s = upd_file f (\<lambda>x. x\<lparr>fref := 1\<rparr>) s in
         andthen (release_at FtableLock s) (\<lambda>s. Ret (Some f, s))
     | None \<Rightarrow> andthen (release_at FtableLock s) (\<lambda>s. Ret (None, s)))"

definition filedup :: "nat \<Rightarrow> 'a fss_scheme \<Rightarrow> (nat \<times> 'a fss_scheme) outcome" where
  "filedup f s =
     andthen (acquire_at FtableLock s) (\<lambda>s.
     if fref (files s ! f) < 1 then Panic ''filedup''
     else
       let s = upd_file f (\<lambda>x. x\<lparr>fref := fref x + 1\<rparr>) s in
       andthen (release_at FtableLock s) (\<lambda>s. Ret (f, s)))"

definition fileclose :: "nat \<Rightarrow> 'a fss_scheme \<Rightarrow> 'a fss_scheme outcome" where
  "fileclose f s =
     andthen (acquire_at FtableLock s) (\<lambda>s.
     if fref (files s ! f) < 1 then Panic ''fileclose''
     else
       let s = upd_file f (\<lambda>x. x\<lparr>fref := fref x - 1\<rparr>) s in
       if fref (files s ! f) > 0 then release_at FtableLock s
       else
         let ff = files s ! f;
             s = upd_file f (\<lambda>x. x\<lparr>fref := 0\<rparr>) s;
             s = upd_file f (\<lambda>x. x\<lparr>ftype := FD_NONE\<rparr>) s in
         andthen (release_at FtableLock s) (\<lambda>s.
         case ftype ff of
           FD_PIPE \<Rightarrow> pipeclose (fpipe ff) (writable ff) s
         | FD_INODE \<Rightarrow>
             andthen (begin_op s) (\<lambda>s.
             case fip ff of
               None \<Rightarrow> Undef ''no inode''
             | Some ip \<Rightarrow> andthen (iput ip s) end_op)
         | FD_NONE \<Rightarrow> Ret s))"

text \<open>\<open>pipealloc\<close> returns the two files, the reading and the writing end, or \<open>None\<close> for -1.\<close>

definition pipealloc :: "'a fss_scheme \<Rightarrow> ((nat \<times> nat) option \<times> 'a fss_scheme) outcome" where
  "pipealloc s =
     andthen (filealloc s) (\<lambda>(f0, s).
     case f0 of
       None \<Rightarrow> Ret (None, s)
     | Some f0 \<Rightarrow>
         andthen (filealloc s) (\<lambda>(f1, s).
         case f1 of
           None \<Rightarrow> andthen (fileclose f0 s) (\<lambda>s. Ret (None, s))
         | Some f1 \<Rightarrow>
             andthen (kalloc s) (\<lambda>(p, s).
             if p = 0 then
               andthen (fileclose f0 s) (\<lambda>s. andthen (fileclose f1 s) (\<lambda>s. Ret (None, s)))
             else
               let s = upd_pipe p (\<lambda>q. q\<lparr>readopen := True, writeopen := True, nwrite := 0, nread := 0\<rparr>) s;
                   s = s\<lparr>locks := (locks s)(PipeLock p := initlock ''pipe'')\<rparr>;
                   s = upd_file f0 (\<lambda>x. x\<lparr>ftype := FD_PIPE, readable := True, writable := False, fpipe := p\<rparr>) s;
                   s = upd_file f1 (\<lambda>x. x\<lparr>ftype := FD_PIPE, readable := False, writable := True, fpipe := p\<rparr>) s in
               Ret (Some (f0, f1), s))))"

definition filestat :: "nat \<Rightarrow> 'a fss_scheme \<Rightarrow> ((int \<times> stat option) \<times> 'a fss_scheme) outcome" where
  "filestat f s =
     (if ftype (files s ! f) = FD_INODE then
        let ip = fip (files s ! f) in
        andthen (ilock ip s) (\<lambda>s.
        let st = stati (inodes s ! the ip) in
        andthen (iunlock ip s) (\<lambda>s. Ret ((0, Some st), s)))
      else Ret ((-1, None), s))"

definition fileread :: "nat \<Rightarrow> uint \<Rightarrow> int \<Rightarrow> 'a fss_scheme \<Rightarrow> (int \<times> 'a fss_scheme) outcome" where
  "fileread f addr n s =
     (let x = files s ! f in
      if \<not> readable x then Ret (-1, s)
      else case ftype x of
        FD_PIPE \<Rightarrow>
          andthen (piperead (fpipe x) n s) (\<lambda>((r, bs), s).
          andthen (store_user addr bs s) (\<lambda>s. Ret (r, s)))
      | FD_INODE \<Rightarrow>
          andthen (ilock (fip x) s) (\<lambda>s.
          andthen (readi (the (fip x)) (foff (files s ! f)) (of_int n) s) (\<lambda>((r, bs), s).
          andthen (store_user addr bs s) (\<lambda>s.
          let s = (if r > 0 then upd_file f (\<lambda>x. x\<lparr>foff := foff x + of_int r\<rparr>) s else s) in
          andthen (iunlock (fip x) s) (\<lambda>s. Ret (r, s)))))
      | FD_NONE \<Rightarrow> Panic ''fileread'')"

text \<open>
  Writing an inode goes in pieces of at most three blocks, one transaction each; \<open>r\<close> bytes are left
  of the \<open>n\<close> bytes.
\<close>

definition write_max :: nat where
  "write_max = ((MAXOPBLOCKS - 1 - 1 - 2) div 2) * 512"

function filewrite_loop :: "nat \<Rightarrow> uint \<Rightarrow> nat \<Rightarrow> 'a fss_scheme \<Rightarrow> (nat \<times> 'a fss_scheme) outcome" where
  "filewrite_loop f addr r s =
     (if r = 0 then Ret (0, s)
      else
        let n1 = min r write_max; x = files s ! f in
        andthen (begin_op s) (\<lambda>s.
        andthen (ilock (fip x) s) (\<lambda>s.
        andthen (load_user s addr n1) (\<lambda>bs.
        andthen (writei (the (fip x)) bs (foff (files s ! f)) (of_nat n1) s) (\<lambda>(w, s).
        let s = (if w > 0 then upd_file f (\<lambda>x. x\<lparr>foff := foff x + of_int w\<rparr>) s else s) in
        andthen (iunlock (fip x) s) (\<lambda>s.
        andthen (end_op s) (\<lambda>s.
        if w < 0 then Ret (r, s)
        else if w \<noteq> int n1 then Panic ''short filewrite''
        else filewrite_loop f (addr + of_nat n1) (r - n1) s)))))))"
  by pat_completeness auto

termination filewrite_loop
  by (relation "measure (\<lambda>(f, addr, r, s). r)") (auto simp: write_max_def)

definition filewrite :: "nat \<Rightarrow> uint \<Rightarrow> int \<Rightarrow> 'a fss_scheme \<Rightarrow> (int \<times> 'a fss_scheme) outcome" where
  "filewrite f addr n s =
     (let x = files s ! f in
      if \<not> writable x then Ret (-1, s)
      else case ftype x of
        FD_PIPE \<Rightarrow> andthen (load_user s addr (nat n)) (\<lambda>bs.
          andthen (pipewrite (fpipe x) bs s) (\<lambda>(r, s). Ret (if n < 0 \<and> r \<ge> 0 then n else r, s)))
      | FD_INODE \<Rightarrow>
          andthen (filewrite_loop f addr (nat n) s) (\<lambda>(r, s). Ret (if n < 0 then -1 else if r = 0 then n else -1, s))
      | FD_NONE \<Rightarrow> Panic ''filewrite'')"

end
