(* ===== verification/Ring.thy ===== *)
theory Ring
  imports Prelude
begin

text \<open>
  Ring buffers indexed by counters that wrap around, as pipes and the console use them: a counter
  selects the slot with its remainder by the size of the ring, which divides \<open>2 ^ 32\<close>.
\<close>

definition ring_slice :: "'b list \<Rightarrow> uint \<Rightarrow> nat \<Rightarrow> 'b list" where
  "ring_slice d a n = map (\<lambda>i. d ! ((unat a + i) mod length d)) [0..<n]"

lemma length_ring_slice [simp]: "length (ring_slice d a n) = n"
  by (simp add: ring_slice_def)

lemma slot_add:
  assumes "m dvd 2 ^ 32"
  shows "unat (a + of_nat i :: uint) mod m = (unat a + i) mod m"
  using assms by (simp add: unat_word_ariths unat_of_nat mod_mod_cancel mod_add_right_eq)

lemma slot_neq:
  assumes "i < n" and "n < m"
  shows "(a + i) mod m \<noteq> (a + n) mod (m :: nat)"
proof
  assume "(a + i) mod m = (a + n) mod m"
  moreover have "a + i \<le> a + n" using assms by simp
  ultimately have "m dvd (a + n) - (a + i)" by (metis mod_eq_dvd_iff_nat)
  then show False using assms by (auto dest: dvd_imp_le)
qed

text \<open>Writing the slot behind the slice extends it; the slot before it is its first element.\<close>

lemma ring_slice_put:
  assumes m: "length d dvd 2 ^ 32" and n: "n < length d" and e: "e = a + of_nat n"
  shows "ring_slice (d[unat e mod length d := c]) a (Suc n) = ring_slice d a n @ [c]"
proof -
  have w: "unat e mod length d = (unat a + n) mod length d" unfolding e by (rule slot_add [OF m])
  have "d[(unat a + n) mod length d := c] ! ((unat a + j) mod length d) = d ! ((unat a + j) mod length d)" if "j < n" for j
    using slot_neq [OF that n, of "unat a"] by simp
  moreover have "(unat a + n) mod length d < length d" using n by (intro mod_less_divisor) linarith
  ultimately show ?thesis unfolding ring_slice_def w by simp
qed

lemma ring_slice_get:
  assumes m: "length d dvd 2 ^ 32"
  shows "ring_slice d a (Suc n) = d ! (unat a mod length d) # ring_slice d (a + 1) n"
proof -
  have s: "(unat (a + 1) + j) mod length d = (unat a + Suc j) mod length d" for j
  proof -
    have "(unat (a + 1) + j) mod length d = (unat (a + 1) mod length d + j) mod length d" by (rule mod_add_left_eq [symmetric])
    also have "unat (a + 1) mod length d = (unat a + 1) mod length d" using slot_add [OF m, of a 1] by simp
    also have "((unat a + 1) mod length d + j) mod length d = (unat a + 1 + j) mod length d" by (rule mod_add_left_eq)
    finally show ?thesis by simp
  qed
  show ?thesis unfolding ring_slice_def s by (simp only: map_upt_Suc) simp
qed

lemma ring_slice_take: "k \<le> n \<Longrightarrow> take k (ring_slice d a n) = ring_slice d a k"
  by (simp add: ring_slice_def take_map)

lemma ring_slice_append:
  assumes m: "length d dvd 2 ^ 32"
  shows "ring_slice d a (k + n) = ring_slice d a k @ ring_slice d (a + of_nat k) n"
proof (induction k arbitrary: a)
  case (Suc k)
  have "a + 1 + of_nat k = a + of_nat (Suc k)" by simp
  then show ?case using Suc [of "a + 1"] by (simp add: ring_slice_get [OF m] add.assoc)
qed (simp add: ring_slice_def)

text \<open>Counting the elements between two counters.\<close>

lemma unat_diff_Suc:
  assumes "unat (e - a :: uint) < 2 ^ 32 - 1"
  shows "unat (e + 1 - a) = Suc (unat (e - a))"
proof -
  have e: "e + 1 - a = (e - a) + 1" by simp
  have "unat ((e - a) + 1) = (unat (e - a) + 1) mod 2 ^ 32" by (subst unat_word_ariths) simp
  then show ?thesis unfolding e using assms by simp
qed

lemma unat_diff_pred:
  assumes "e \<noteq> (a :: uint)"
  shows "unat (e - (a + 1)) = unat (e - a) - 1" and "unat (e - 1 - a) = unat (e - a) - 1" and "0 < unat (e - a)"
proof -
  show p: "0 < unat (e - a)" using assms by (simp add: unat_gt_0)
  then have "1 \<le> e - a" by (simp add: word_le_nat_alt)
  then have "unat (e - a - 1) = unat (e - a) - 1" by (simp add: unat_sub)
  then show "unat (e - (a + 1)) = unat (e - a) - 1" "unat (e - 1 - a) = unat (e - a) - 1" by (simp_all add: algebra_simps)
qed

end
