(* ===== verification/Pipe.thy ===== *)
theory Pipe
  imports File Logwrite Ring
begin

text \<open>
  Pipes as queues.  The ring of \<^verbatim>\<open>pipe.c\<close>, indexed by two counters that wrap around, is a bounded
  first-in first-out queue; \<open>pipewrite\<close> appends and \<open>piperead\<close> removes, and no interleaving of readers
  and writers loses, duplicates or reorders a byte.
\<close>

section \<open>Bounded queues\<close>

text \<open>
  What a client relies on: \<open>inv\<close> is the representation invariant, \<open>q\<close> the queue that a
  representation stands for.
\<close>

locale bounded_queue =
  fixes inv :: "'r \<Rightarrow> bool" and q :: "'r \<Rightarrow> 'b list" and cap :: nat
    and full :: "'r \<Rightarrow> bool" and none :: "'r \<Rightarrow> bool"
    and put :: "'b \<Rightarrow> 'r \<Rightarrow> 'r" and get :: "'r \<Rightarrow> 'b \<times> 'r"
  assumes bounded: "inv r \<Longrightarrow> length (q r) \<le> cap"
    and full: "inv r \<Longrightarrow> full r \<longleftrightarrow> length (q r) = cap"
    and none: "inv r \<Longrightarrow> none r \<longleftrightarrow> q r = []"
    and put: "inv r \<Longrightarrow> \<not> full r \<Longrightarrow> inv (put c r) \<and> q (put c r) = q r @ [c]"
    and get: "inv r \<Longrightarrow> \<not> none r \<Longrightarrow> inv (snd (get r)) \<and> q r = fst (get r) # q (snd (get r))"
begin

text \<open>Several bytes at once, and the client's view of any schedule of single accesses.\<close>

lemma put_all:
  "inv r \<Longrightarrow> length (q r) + length cs \<le> cap \<Longrightarrow> inv (fold put cs r) \<and> q (fold put cs r) = q r @ cs"
proof (induction cs arbitrary: r)
  case (Cons c cs)
  then have "\<not> full r" by (simp add: full)
  with Cons put [of r c] show ?case by auto
qed simp

lemma get_all:
  assumes "\<And>r. take_all 0 r = ([], r)"
    and "\<And>n r. take_all (Suc n) r = (if none r then ([], r) else let (c, r) = get r; (cs, r) = take_all n r in (c # cs, r))"
  shows "inv r \<Longrightarrow> inv (snd (take_all n r)) \<and> fst (take_all n r) = take n (q r) \<and> q (snd (take_all n r)) = drop n (q r)"
proof (induction n arbitrary: r)
  case (Suc n)
  show ?case
  proof (cases "none r")
    case False
    with get [OF Suc.prems] Suc.IH [of "snd (get r)"] show ?thesis
      by (cases "get r"; cases "take_all n (snd (get r))") (auto simp: assms)
  qed (use Suc.prems in \<open>simp add: assms none\<close>)
qed (simp add: assms)

end

section \<open>The ring of a pipe\<close>

definition pipe_len :: "pipe \<Rightarrow> nat" where
  "pipe_len p = unat (nwrite p - nread p)"

definition pipe_inv :: "pipe \<Rightarrow> bool" where
  "pipe_inv p \<longleftrightarrow> length (pdata p) = PIPESIZE \<and> pipe_len p \<le> PIPESIZE"

definition pipe_queue :: "pipe \<Rightarrow> uchar list" where
  "pipe_queue p = ring_slice (pdata p) (nread p) (pipe_len p)"

lemma length_pipe_queue [simp]: "length (pipe_queue p) = pipe_len p"
  by (simp add: pipe_queue_def ring_slice_def)

lemma pipe_full_len: "pipe_full p \<longleftrightarrow> pipe_len p = PIPESIZE"
proof -
  have "pipe_full p \<longleftrightarrow> nwrite p - nread p = of_nat PIPESIZE" by (auto simp: pipe_full_def algebra_simps)
  also have "\<dots> \<longleftrightarrow> pipe_len p = PIPESIZE" by (simp add: pipe_len_def uint_eq_iff_unat)
  finally show ?thesis .
qed

lemma pipe_none_len: "nread p = nwrite p \<longleftrightarrow> pipe_len p = 0"
  by (auto simp: pipe_len_def unat_eq_0)

lemma pipe_len_put: "pipe_len p < PIPESIZE \<Longrightarrow> pipe_len (pipe_put c p) = Suc (pipe_len p)"
  unfolding pipe_len_def pipe_put_def by (simp add: unat_diff_Suc)

lemma pipe_put_queue:
  assumes i: "pipe_inv p" and f: "\<not> pipe_full p"
  shows "pipe_inv (pipe_put c p) \<and> pipe_queue (pipe_put c p) = pipe_queue p @ [c]"
proof -
  have l: "pipe_len p < PIPESIZE" "length (pdata p) = PIPESIZE" using i f by (auto simp: pipe_inv_def pipe_full_len)
  have "pipe_queue (pipe_put c p) = ring_slice ((pdata p)[unat (nwrite p) mod length (pdata p) := c]) (nread p) (Suc (pipe_len p))"
    unfolding pipe_queue_def pipe_len_put [OF l(1)] by (simp add: pipe_put_def l(2))
  also have "\<dots> = pipe_queue p @ [c]"
    unfolding pipe_queue_def by (rule ring_slice_put) (use l in \<open>simp_all add: pipe_len_def\<close>)
  finally show ?thesis using l pipe_len_put [OF l(1), of c] by (simp add: pipe_inv_def pipe_put_def)
qed

lemma pipe_get_queue:
  assumes i: "pipe_inv p" and n: "nread p \<noteq> nwrite p"
  shows "pipe_inv (snd (pipe_get p)) \<and> pipe_queue p = fst (pipe_get p) # pipe_queue (snd (pipe_get p))"
proof -
  obtain k where k: "pipe_len p = Suc k" using n by (cases "pipe_len p") (auto simp: pipe_none_len)
  have l: "pipe_len (snd (pipe_get p)) = k" "length (pdata p) = PIPESIZE"
    using k i unat_diff_pred(1) [of "nwrite p" "nread p"] n by (auto simp: pipe_len_def pipe_get_def pipe_inv_def)
  have "pipe_queue p = pdata p ! (unat (nread p) mod length (pdata p)) # ring_slice (pdata p) (nread p + 1) k"
    unfolding pipe_queue_def k by (rule ring_slice_get) (simp add: l)
  then have "pipe_queue p = fst (pipe_get p) # pipe_queue (snd (pipe_get p))"
    unfolding pipe_queue_def [of "snd (pipe_get p)"] l(1) by (simp add: pipe_get_def l(2))
  then show ?thesis using i l k by (simp add: pipe_inv_def pipe_get_def)
qed

interpretation pipe_ring: bounded_queue pipe_inv pipe_queue PIPESIZE pipe_full "\<lambda>p. nread p = nwrite p" pipe_put pipe_get
proof
  fix p assume "pipe_inv p"
  then show "length (pipe_queue p) \<le> PIPESIZE" by (simp add: pipe_inv_def)
  show "pipe_full p \<longleftrightarrow> length (pipe_queue p) = PIPESIZE" by (simp add: pipe_full_len)
  show "nread p = nwrite p \<longleftrightarrow> pipe_queue p = []" by (simp add: pipe_none_len flip: length_0_conv)
qed (use pipe_put_queue pipe_get_queue in blast)+

section \<open>System calls on a pipe\<close>

lemma pipewrite_loop_room:
  "pipe_inv (pipes s p) \<Longrightarrow> pipe_len (pipes s p) + length bs \<le> PIPESIZE \<Longrightarrow>
     pipewrite_loop p bs s = Ret (True, upd_pipe p (fold pipe_put bs) s)"
proof (induction bs arbitrary: s)
  case Nil
  then show ?case by (simp add: upd_pipe_def)
next
  case (Cons c cs)
  have nf: "\<not> pipe_full (pipes s p)" using Cons.prems by (simp add: pipe_full_len)
  let ?s = "upd_pipe p (pipe_put c) s"
  have "pipe_inv (pipes ?s p)" "pipe_len (pipes ?s p) + length cs \<le> PIPESIZE"
    using pipe_put_queue [OF Cons.prems(1) nf, of c] Cons.prems(2) pipe_len_put [of "pipes s p" c] by (simp_all add: upd_pipe_def)
  from Cons.IH [OF this] show ?case using nf by (simp add: upd_pipe_def)
qed

lemma pipewrite_eq:
  assumes "ready s" and "pipe_inv (pipes s p)" and "pipe_len (pipes s p) + length bs \<le> PIPESIZE"
  shows "pipewrite p bs s = Ret (int (length bs), s\<lparr>cpus := rested (cpus s) (ncpu s) (lapicid s) (ifl s),
    procs := woken (ChRead p) (procs s), pipes := (pipes s)(p := fold pipe_put bs (pipes s p))\<rparr>)"
proof -
  note [simp] = readyD [OF assms(1)]
  show ?thesis
    using assms(2-) by (simp add: pipewrite_def acquire_at_free pipewrite_loop_room upd_pipe_def wakeup_at
      release_at_taken [where cs = "cpus s" and b = "ifl s" and k = "locks s (PipeLock p)"])
qed

lemma piperead_loop_spec:
  "pipe_inv q \<Longrightarrow> pipe_inv (snd (piperead_loop n q)) \<and> fst (piperead_loop n q) = take n (pipe_queue q)
     \<and> pipe_queue (snd (piperead_loop n q)) = drop n (pipe_queue q)"
  by (rule pipe_ring.get_all) auto

lemma piperead_eq:
  assumes "ready s" and "pipe_inv (pipes s p)" and "pipe_queue (pipes s p) \<noteq> [] \<or> \<not> writeopen (pipes s p)"
  shows "piperead p n s = Ret ((int (length (take (nat n) (pipe_queue (pipes s p)))), take (nat n) (pipe_queue (pipes s p))),
    s\<lparr>cpus := rested (cpus s) (ncpu s) (lapicid s) (ifl s),
    procs := woken (ChWrite p) (procs s), pipes := (pipes s)(p := snd (piperead_loop (nat n) (pipes s p)))\<rparr>)"
proof -
  note [simp] = readyD [OF assms(1)]
  have "\<not> (nread (pipes s p) = nwrite (pipes s p) \<and> writeopen (pipes s p))"
    using assms(3) pipe_ring.none [OF assms(2)] by auto
  moreover obtain bs q where "piperead_loop (nat n) (pipes s p) = (bs, q)" by (cases "piperead_loop (nat n) (pipes s p)")
  moreover have "bs = take (nat n) (pipe_queue (pipes s p))"
    using piperead_loop_spec [OF assms(2), of "nat n"] calculation(2) by simp
  ultimately show ?thesis
    by (simp add: piperead_def acquire_at_free upd_pipe_def wakeup_at
      release_at_taken [where cs = "cpus s" and b = "ifl s" and k = "locks s (PipeLock p)"]) blast
qed

section \<open>Schedules\<close>

text \<open>
  Any number of writers and readers of one pipe.  The pipe's lock makes the two loops atomic except
  that a writer gives the lock up when the ring is full; the step of a writer is one byte.  \<open>sent\<close>
  and \<open>received\<close> are the bytes written and read so far.
\<close>

record pipe_sys =
  the_pipe :: pipe
  sent :: "uchar list"
  received :: "uchar list"

inductive pipe_step :: "pipe_sys \<Rightarrow> pipe_sys \<Rightarrow> bool" where
  writes: "\<not> pipe_full (the_pipe x) \<Longrightarrow>
    pipe_step x (x\<lparr>the_pipe := pipe_put c (the_pipe x), sent := sent x @ [c]\<rparr>)"
| reads: "piperead_loop n (the_pipe x) = (bs, q) \<Longrightarrow>
    pipe_step x (x\<lparr>the_pipe := q, received := received x @ bs\<rparr>)"

inductive_cases pipe_stepE: "pipe_step x y"

definition fifo :: "pipe_sys \<Rightarrow> bool" where
  "fifo x \<longleftrightarrow> pipe_inv (the_pipe x) \<and> sent x = received x @ pipe_queue (the_pipe x)"

lemma fifo_step: "pipe_step x y \<Longrightarrow> fifo x \<Longrightarrow> fifo y"
proof (erule pipe_stepE)
  fix c assume "fifo x" "\<not> pipe_full (the_pipe x)" "y = x\<lparr>the_pipe := pipe_put c (the_pipe x), sent := sent x @ [c]\<rparr>"
  then show ?thesis using pipe_ring.put [of "the_pipe x" c] by (simp add: fifo_def)
next
  fix n bs q assume "fifo x" "piperead_loop n (the_pipe x) = (bs, q)" "y = x\<lparr>the_pipe := q, received := received x @ bs\<rparr>"
  then show ?thesis using piperead_loop_spec [of "the_pipe x" n] by (simp add: fifo_def)
qed

lemma fifo_reach: "pipe_step\<^sup>*\<^sup>* x y \<Longrightarrow> fifo x \<Longrightarrow> fifo y"
  by (induction rule: rtranclp_induct) (auto intro: fifo_step)

section \<open>Properties\<close>

text \<open>
  C19: in every schedule of writers and readers of a pipe that starts empty, the bytes read so far
  followed by the bytes in the ring are exactly the bytes written, in order, and the ring never holds
  more than its size; the counters may wrap around.
\<close>

theorem pipe_is_fifo:
  assumes "pipe_step\<^sup>*\<^sup>* \<lparr>the_pipe = p, sent = [], received = []\<rparr> x" and "length (pdata p) = PIPESIZE" and "nread p = nwrite p"
  shows "sent x = received x @ pipe_queue (the_pipe x) \<and> length (pipe_queue (the_pipe x)) \<le> PIPESIZE"
proof -
  have "pipe_len p = 0" using assms(3) pipe_none_len by blast
  then have "fifo \<lparr>the_pipe = p, sent = [], received = []\<rparr>"
    using assms(2) by (simp add: fifo_def pipe_inv_def pipe_queue_def ring_slice_def)
  from fifo_reach [OF assms(1) this] show ?thesis using pipe_ring.bounded [of "the_pipe x"] by (auto simp: fifo_def)
qed

definition wrap_pipe :: pipe where
  "wrap_pipe = \<lparr>pdata = replicate PIPESIZE 0, nread = - 1, nwrite = - 1, readopen = True, writeopen = True\<rparr>"

theorem pipe_is_fifo_witness:
  "\<exists>x. pipe_step\<^sup>*\<^sup>* \<lparr>the_pipe = wrap_pipe, sent = [], received = []\<rparr> x \<and> sent x = [65, 66]
     \<and> sent x = received x @ pipe_queue (the_pipe x)"
proof -
  let ?x = "\<lparr>the_pipe = wrap_pipe, sent = [], received = []\<rparr>"
  let ?y = "?x\<lparr>the_pipe := pipe_put 65 (the_pipe ?x), sent := sent ?x @ [65]\<rparr>"
  let ?z = "?y\<lparr>the_pipe := pipe_put 66 (the_pipe ?y), sent := sent ?y @ [66]\<rparr>"
  have "pipe_step ?x ?y" by (rule pipe_step.writes) (simp add: wrap_pipe_def pipe_full_def)
  moreover have "pipe_step ?y ?z" by (rule pipe_step.writes) (simp add: wrap_pipe_def pipe_full_def pipe_put_def)
  ultimately have r: "pipe_step\<^sup>*\<^sup>* ?x ?z" by (meson converse_rtranclp_into_rtranclp rtranclp.rtrancl_refl)
  have "sent ?z = received ?z @ pipe_queue (the_pipe ?z)"
    using pipe_is_fifo [OF r] by (simp add: wrap_pipe_def)
  then show ?thesis using r by (intro exI [of _ ?z]) simp
qed

text \<open>
  C20: bytes written to a pipe come out again.  When the ring has room for all of them, \<open>pipewrite\<close>
  returns their number without waiting, and the next \<open>piperead\<close> of \<open>n\<close> bytes returns the first \<open>n\<close>
  of the bytes that were there before followed by those.
\<close>

theorem pipe_write_read:
  assumes "ready s" and "pipe_inv (pipes s p)" and "pipe_len (pipes s p) + length bs \<le> PIPESIZE"
    and "bs \<noteq> [] \<or> \<not> writeopen (pipes s p)"
  shows "runs (andthen (pipewrite p bs s) (\<lambda>(r, s). andthen (piperead p n s) (\<lambda>((m, cs), s). Ret (r, m, cs))))
    (\<lambda>(r, m, cs). r = int (length bs) \<and> m = int (length cs) \<and> cs = take (nat n) (pipe_queue (pipes s p) @ bs))"
proof -
  let ?q = "fold pipe_put bs (pipes s p)"
  let ?s = "s\<lparr>cpus := rested (cpus s) (ncpu s) (lapicid s) (ifl s), procs := woken (ChRead p) (procs s), pipes := (pipes s)(p := ?q)\<rparr>"
  have q: "pipe_inv ?q" "pipe_queue ?q = pipe_queue (pipes s p) @ bs"
    using pipe_ring.put_all [OF assms(2), of bs] assms(3) by simp_all
  have w: "writeopen ?q = writeopen (pipes s p)" by (induction bs rule: rev_induct) (simp_all add: pipe_put_def)
  have r: "ready ?s" by (rule ready_frame(1) [OF assms(1)]) simp_all
  have "piperead p n ?s = Ret ((int (length (take (nat n) (pipe_queue ?q))), take (nat n) (pipe_queue ?q)),
    ?s\<lparr>cpus := rested (cpus ?s) (ncpu ?s) (lapicid ?s) (ifl ?s), procs := woken (ChWrite p) (procs ?s),
      pipes := (pipes ?s)(p := snd (piperead_loop (nat n) ?q))\<rparr>)"
    using piperead_eq [OF r, of p n] q w assms(4) by simp
  then show ?thesis using pipewrite_eq [OF assms(1-3)] q(2) by simp
qed

definition pipe_machine :: "pipe \<Rightarrow> fss" where
  "pipe_machine q = machine_with [] \<lparr>sb = \<lparr>sb_size = 0, sb_nblocks = 0, sb_ninodes = 0, sb_nlog = 0, sb_logstart = 0,
     sb_inodestart = 0, sb_bmapstart = 0\<rparr>, inodes = [], input = \<lparr>ibuf = replicate 128 0, in_r = 0, in_w = 0, in_e = 0\<rparr>,
     cons_locking = True, panicked = False, uart = False, serial = [], crt = (\<lambda>_. 0), cursor = 0, devsw = [],
     files = [], pipes = (\<lambda>_. q)\<rparr>"

theorem pipe_write_read_witness:
  "runs (andthen (pipewrite 0 [65, 66, 67] (pipe_machine wrap_pipe)) (\<lambda>(r, s). andthen (piperead 0 2 s) (\<lambda>((m, cs), s). Ret (r, m, cs))))
    (\<lambda>(r, m, cs). r = 3 \<and> m = 2 \<and> cs = [65, 66])"
proof -
  have "pipes (pipe_machine wrap_pipe) 0 = wrap_pipe" by (simp add: pipe_machine_def machine_with_def)
  moreover have "pipe_len wrap_pipe = 0" "length (pdata wrap_pipe) = PIPESIZE" by (simp_all add: wrap_pipe_def pipe_len_def)
  moreover have "ready (pipe_machine wrap_pipe)" unfolding pipe_machine_def by (rule machine_ready)
  ultimately show ?thesis
    by (intro runs_mono [OF pipe_write_read]) (auto simp: pipe_inv_def pipe_queue_def ring_slice_def)
qed

end
