(* ===== verification/Sched.thy ===== *)
theory Sched
  imports Logwrite
begin

text \<open>
  The process table under its lock.  A transition system of the table and of the processes the CPUs
  run; its invariant says that a process runs on one CPU at a time and that process identifiers are
  unique.  The operations of \<^verbatim>\<open>proc.c\<close> are steps of that system, the scheduler is fair within a sweep,
  and \<open>kill\<close> has a hole.
\<close>

section \<open>The table as a transition system\<close>

record sched_sys =
  tab :: "proc list"
  cur :: "nat \<Rightarrow> nat option"
  nxt :: int

definition set_state :: "nat \<Rightarrow> procstate \<Rightarrow> proc list \<Rightarrow> proc list" where
  "set_state p st ps = ps[p := (ps ! p)\<lparr>pstate := st\<rparr>]"

definition killed_at :: "nat \<Rightarrow> proc list \<Rightarrow> proc list" where
  "killed_at p ps = ps[p := (ps ! p)\<lparr>killed := True, pstate := (if pstate (ps ! p) = SLEEPING then RUNNABLE else pstate (ps ! p))\<rparr>]"

text \<open>
  The steps, each under \<open>ptable.lock\<close>: \<open>allocproc\<close> takes a slot, a new process gets ready or is given
  up, the scheduler of CPU \<open>c\<close> dispatches, the process of CPU \<open>c\<close> gives the CPU up (\<open>yield\<close>, \<open>sleep\<close> or
  \<open>exit\<close>), \<open>wakeup\<close>, \<open>kill\<close>, and \<open>wait\<close> takes a zombie down.
\<close>

inductive sched_step :: "sched_sys \<Rightarrow> sched_sys \<Rightarrow> bool" where
  alloc: "p < length (tab x) \<Longrightarrow> pstate (tab x ! p) = UNUSED \<Longrightarrow>
    sched_step x (x\<lparr>tab := (tab x)[p := (tab x ! p)\<lparr>pstate := EMBRYO, pid := nxt x, kstack := k, tf := t, pcontext := u\<rparr>], nxt := nxt x + 1\<rparr>)"
| unready: "pstate (tab x ! p) = EMBRYO \<Longrightarrow> st = RUNNABLE \<or> st = UNUSED \<Longrightarrow>
    sched_step x (x\<lparr>tab := set_state p st (tab x)\<rparr>)"
| dispatch: "p < length (tab x) \<Longrightarrow> pstate (tab x ! p) = RUNNABLE \<Longrightarrow> cur x c = None \<Longrightarrow>
    sched_step x (x\<lparr>tab := set_state p RUNNING (tab x), cur := (cur x)(c := Some p)\<rparr>)"
| leave: "cur x c = Some p \<Longrightarrow> st \<noteq> RUNNING \<Longrightarrow> st \<noteq> UNUSED \<Longrightarrow>
    sched_step x (x\<lparr>tab := (tab x)[p := (tab x ! p)\<lparr>chan := ch, pstate := st\<rparr>], cur := (cur x)(c := None)\<rparr>)"
| wake: "sched_step x (x\<lparr>tab := woken ch (tab x)\<rparr>)"
| mark: "p < length (tab x) \<Longrightarrow> sched_step x (x\<lparr>tab := killed_at p (tab x)\<rparr>)"
| reap: "pstate (tab x ! p) = ZOMBIE \<Longrightarrow>
    sched_step x (x\<lparr>tab := (tab x)[p := (tab x ! p)\<lparr>kstack := 0, pid := 0, parent := None, pname := nm, killed := False, pstate := UNUSED\<rparr>]\<rparr>)"

inductive_cases sched_stepE: "sched_step x y"
















section \<open>The operations as steps\<close>

definition running_on :: "cpu list \<Rightarrow> nat option list" where
  "running_on cs = map cproc cs"

definition opt_at :: "'b option list \<Rightarrow> nat \<Rightarrow> 'b option" where
  "opt_at xs c = (if c < length xs then xs ! c else None)"

definition view :: "'a pst_scheme \<Rightarrow> sched_sys" where
  "view s = \<lparr>tab = procs s, cur = opt_at (running_on (cpus s)), nxt = nextpid s\<rparr>"

lemma view_eqI:
  "procs t = ps \<Longrightarrow> running_on (cpus t) = running_on (cpus s) \<Longrightarrow> nextpid t = n \<Longrightarrow> view t = (view s)\<lparr>tab := ps, nxt := n\<rparr>"
  by (simp add: view_def)

lemma running_on_upd:
  assumes "cproc x = cproc (cs ! i)"
  shows "running_on (cs[i := x]) = running_on cs"
proof (cases "i < length cs")
  case True
  then have "(map cproc cs)[i := cproc x] = map cproc cs" using assms list_update_id [of "map cproc cs" i] by simp
  then show ?thesis by (simp add: running_on_def map_update)
qed (simp add: list_update_beyond)

lemma running_on_rested [simp]: "running_on (rested cs n a b) = running_on cs"
  unfolding rested_def settle_def by (simp add: running_on_upd)


lemma find_proc_Some:
  "find_proc t ps i = Some p \<Longrightarrow> i \<le> p \<and> p - i < length ps \<and> t (ps ! (p - i)) \<and> (\<forall>j<p - i. \<not> t (ps ! j))"
proof (induction t ps i rule: find_proc.induct)
  case (2 t x ps i)
  show ?case
  proof (cases "t x")
    case False
    with 2 have k: "Suc i \<le> p" "p - Suc i < length ps" "t (ps ! (p - Suc i))" "\<forall>j<p - Suc i. \<not> t (ps ! j)" by auto
    then have "p - i = Suc (p - Suc i)" by simp
    with k False show ?thesis by (auto simp: less_Suc_eq_0_disj)
  qed (use 2 in simp)
qed simp

lemma find_proc_None: "find_proc t ps i = None \<longleftrightarrow> (\<forall>p\<in>set ps. \<not> t p)"
  by (induction t ps i rule: find_proc.induct) auto

lemma find_state_cong:
  "map pstate qs = map pstate ps \<Longrightarrow> find_proc (\<lambda>p. pstate p = st) qs i = find_proc (\<lambda>p. pstate p = st) ps i"
proof (induction ps arbitrary: qs i)
  case (Cons p ps)
  obtain q rs where q: "qs = q # rs" "pstate q = pstate p" and rs: "map pstate rs = map pstate ps" using Cons.prems by (cases qs) simp_all
  from Cons.IH [OF rs, of "Suc i"] show ?case unfolding q(1) find_proc.simps q(2) by simp
qed simp

lemma kill_eq:
  assumes "ready s"
  shows "kill i s = (case find_proc (\<lambda>p. pid p = i) (procs s) 0 of
      Some p \<Rightarrow> Ret (0, s\<lparr>cpus := rested (cpus s) (ncpu s) (lapicid s) (ifl s), procs := killed_at p (procs s)\<rparr>)
    | None \<Rightarrow> Ret (-1, s\<lparr>cpus := rested (cpus s) (ncpu s) (lapicid s) (ifl s)\<rparr>))"
proof (cases "find_proc (\<lambda>p. pid p = i) (procs s) 0")
  case None
  note [simp] = readyD [OF assms(1)]
  show ?thesis
    using None by (simp add: kill_def acquire_at_free Let_def
      release_at_taken [where cs = "cpus s" and b = "ifl s" and k = "locks s PtableLock"])
next
  case (Some p)
  note [simp] = readyD [OF assms(1)]
  have "p < length (procs s)" using find_proc_Some [OF Some] by simp
  then show ?thesis
    using Some by (simp add: kill_def acquire_at_free Let_def upd_proc_def killed_at_def
      release_at_taken [where cs = "cpus s" and b = "ifl s" and k = "locks s PtableLock"])
qed

lemma kalloc_at:
  assumes "ok_at (cpus s) (ncpu s) (lapicid s) (ifl s)" and "lock_free (kmem_lock s)"
  shows "\<exists>cs. kalloc s = Ret (freelist s, s\<lparr>cpus := cs, freelist := (if freelist s \<noteq> 0 then ld32 (mem s) (freelist s) else 0)\<rparr>)
    \<and> running_on cs = running_on (cpus s)"
proof (cases "use_lock s")
  case True
  then show ?thesis using kalloc_eq [of s] assms by (auto simp: hw_at ksettle_def)
next
  case False
  then show ?thesis using kalloc_eq [of s] assms by (intro exI [of _ "cpus s"]) (simp add: hw_at ksettle_def)
qed

lemma allocproc_eq:
  assumes r: "ready s" and k: "lock_free (kmem_lock s)" and f: "freelist s \<noteq> 0"
    and p: "find_proc (\<lambda>p. pstate p = UNUSED) (procs s) 0 = Some p" and n: "nextpid s < 2 ^ 31 - 1"
  shows "\<exists>t. allocproc s = Ret (Some p, t) \<and> running_on (cpus t) = running_on (cpus s) \<and> nextpid t = nextpid s + 1
    \<and> procs t = (procs s)[p := (procs s ! p)\<lparr>pstate := EMBRYO, pid := nextpid s, kstack := freelist s,
        tf := freelist s + KSTACKSIZE - sizeof_trapframe,
        pcontext := freelist s + KSTACKSIZE - sizeof_trapframe - 4 - sizeof_context\<rparr>]"
proof -
  note [simp] = readyD [OF r]
  have p': "p < length (procs s)" using find_proc_Some [OF p] by simp
  let ?s = "s\<lparr>procs := (procs s)[p := (procs s ! p)\<lparr>pstate := EMBRYO, pid := nextpid s\<rparr>], nextpid := nextpid s + 1,
    cpus := rested (cpus s) (ncpu s) (lapicid s) (ifl s)\<rparr>"
  obtain cs where "kalloc ?s = Ret (freelist s, ?s\<lparr>cpus := cs, freelist := ld32 (mem s) (freelist s)\<rparr>)" "running_on cs = running_on (cpus s)"
    using kalloc_at [of ?s] k f by auto
  then show ?thesis
    using p p' n f by (simp add: allocproc_def acquire_at_free Let_def upd_proc_def
      release_at_taken [where cs = "cpus s" and b = "ifl s" and k = "locks s PtableLock"])
qed







section \<open>The scheduler\<close>

lemma switchuvm_at:
  assumes ok: "hw_ok s" and k: "k \<noteq> 0" "d \<noteq> 0"
  shows "\<exists>cs. switchuvm (Some (k, d)) s = Ret (s\<lparr>cpus := cs, cr3 := V2P d\<rparr>) \<and> running_on cs = running_on (cpus s)"
proof -
  define f where "f = (\<lambda>c :: cpu. c\<lparr>gdt := (gdt c)[SEG_TSS := (SEG16 STS_T32A (cpus_addr s + 176 * of_nat (here s) + 8) 103 0)\<lparr>seg_s := 0\<rparr>],
    ts_ss0 := of_nat (SEG_KDATA * 8), ts_esp0 := k + KSTACKSIZE, ts_iomb := 0xFFFF\<rparr>)"
  have f: "apicid (f c) = apicid c" "ncli (f c) = ncli c" "cproc (f c) = cproc c"
    "(save_if b (f c))\<lparr>ncli := n\<rparr> = f ((save_if b c)\<lparr>ncli := n\<rparr>)" for b c n
    by (simp_all add: f_def save_if_def)
  let ?s = "(upd_cpu (here s) f s)\<lparr>cr3 := V2P d\<rparr>"
  from ok obtain a: "cur_cpu s = Some (here s)" and b: "here s < length (cpus s)" by (rule hw_okE)
  have cc: "cur_cpu ?s = cur_cpu s" using cur_cpu_upd [of f "here s" s] f(1) by (simp add: cur_cpu_def)
  then have h: "here ?s = here s" by (simp add: here_def)
  have ok': "hw_ok ?s" using ok cc b by (simp add: hw_ok_iff depth_def h f)
  have "cli_in ?s = (upd_cpu (here s) f (cli_in s))\<lparr>cr3 := V2P d\<rparr>"
    unfolding cli_in_def h using b by (intro hw.equality) (simp_all add: upd_cpu_def f)
  then have "popcli ((upd_cpu (here s) f (cli_in s))\<lparr>cr3 := V2P d\<rparr>) = Ret (settle ?s)" using popcli_cli_in [OF ok'] by simp
  moreover have "mycpu (cli_in s) = Ret (here s)" using ok by (auto elim!: hw_okE simp: mycpu_off)
  moreover have "cpus_addr (cli_in s) = cpus_addr s" by (simp add: cli_in_def upd_cpu_def)
  ultimately have "switchuvm (Some (k, d)) s = Ret (settle ?s)"
    using k ok by (simp add: switchuvm_def pushcli_eq f_def Let_def)
  moreover have "settle ?s = s\<lparr>cpus := cpus (settle ?s), cr3 := V2P d\<rparr>" by (simp add: settle_def upd_cpu_def)
  moreover have "running_on (cpus (settle ?s)) = running_on (cpus s)"
    using b by (simp add: settle_def h running_on_upd f)
  ultimately show ?thesis by metis
qed

definition dispatchable :: "proc list \<Rightarrow> bool" where
  "dispatchable ps \<longleftrightarrow> (\<forall>p\<in>set ps. pstate p = RUNNABLE \<longrightarrow> kstack p \<noteq> 0 \<and> pgdir p \<noteq> 0)"

text \<open>The first runnable process from \<open>i\<close> on.\<close>

definition first_runnable :: "nat \<Rightarrow> proc list \<Rightarrow> nat option" where
  "first_runnable i ps = find_proc (\<lambda>p. pstate p = RUNNABLE) (drop i ps) i"

lemma first_runnable_Some:
  assumes "first_runnable i ps = Some p"
  shows "i \<le> p" and "p < length ps" and "pstate (ps ! p) = RUNNABLE" and "\<And>j. i \<le> j \<Longrightarrow> j < p \<Longrightarrow> pstate (ps ! j) \<noteq> RUNNABLE"
proof -
  have *: "i \<le> p" "p - i < length (drop i ps)" "pstate (drop i ps ! (p - i)) = RUNNABLE" "\<forall>j<p - i. pstate (drop i ps ! j) \<noteq> RUNNABLE"
    using find_proc_Some [OF assms [unfolded first_runnable_def]] by simp_all
  then show "i \<le> p" "p < length ps" "pstate (ps ! p) = RUNNABLE" by (simp_all add: nth_drop)
  show "pstate (ps ! j) \<noteq> RUNNABLE" if "i \<le> j" "j < p" for j
    using *(2,4) that by (auto simp: nth_drop dest!: spec [of _ "j - i"])
qed

lemma first_runnable_None: "first_runnable i ps = None \<Longrightarrow> i \<le> j \<Longrightarrow> j < length ps \<Longrightarrow> pstate (ps ! j) \<noteq> RUNNABLE"
  unfolding first_runnable_def find_proc_None using nth_mem [of "j - i" "drop i ps"] by (simp add: nth_drop)

declare scheduler_round.simps [simp del]

lemma scheduler_round_spec:
  assumes "hw_ok s" and "dispatchable (procs s)" and "c < length (cpus s)"
  shows "(case first_runnable i (procs s) of
      Some p \<Rightarrow> \<exists>cs d. scheduler_round c i s = Ret (Some p, s\<lparr>cpus := cs, cr3 := d, procs := set_state p RUNNING (procs s)\<rparr>)
        \<and> running_on cs = (running_on (cpus s))[c := Some p]
    | None \<Rightarrow> scheduler_round c i s = andthen (release_at PtableLock s) (\<lambda>s. Ret (None, s)))"
  using assms
proof (induction c i s rule: scheduler_round.induct)
  case (1 c i s)
  consider "length (procs s) \<le> i" | "i < length (procs s)" "pstate (procs s ! i) \<noteq> RUNNABLE" | "i < length (procs s)" "pstate (procs s ! i) = RUNNABLE"
    by linarith
  then show ?case
  proof cases
    case 2
    then have f: "first_runnable i (procs s) = first_runnable (Suc i) (procs s)"
      by (simp add: first_runnable_def Cons_nth_drop_Suc [symmetric])
    have r: "scheduler_round c i s = scheduler_round c (Suc i) s" using 2 by (subst scheduler_round.simps) simp
    show ?thesis unfolding f r by (rule 1(1) [OF 2 1(2-4)])
  next
    case 3
    let ?s = "upd_cpu c (\<lambda>x. x\<lparr>cproc := Some i\<rparr>) s"
    have p: "kstack (procs s ! i) \<noteq> 0" "pgdir (procs s ! i) \<noteq> 0" using 1(3) 3 by (auto simp: dispatchable_def)
    have ok: "hw_ok ?s" using 1(2,4) by (auto simp: hw_ok_iff depth_def nth_list_update)
    have ro: "running_on (cpus ?s) = (running_on (cpus s))[c := Some i]" by (simp add: running_on_def map_update)
    obtain cs where cs: "switchuvm (Some (kstack (procs s ! i), pgdir (procs s ! i))) ?s = Ret (?s\<lparr>cpus := cs, cr3 := V2P (pgdir (procs s ! i))\<rparr>)"
      "running_on cs = (running_on (cpus s))[c := Some i]"
      using switchuvm_at [OF ok p] ro by auto
    have f: "first_runnable i (procs s) = Some i" using 3 by (simp add: first_runnable_def Cons_nth_drop_Suc [symmetric])
    have "scheduler_round c i s = Ret (Some i, s\<lparr>cpus := cs, cr3 := V2P (pgdir (procs s ! i)), procs := set_state i RUNNING (procs s)\<rparr>)"
      using 3 cs(1) by (subst scheduler_round.simps) (simp add: upd_cpu_def upd_proc_def set_state_def)
    then show ?thesis using f cs(2) by auto
  next
    case 1
    then show ?thesis by (subst scheduler_round.simps) (simp add: first_runnable_def)
  qed
qed

text \<open>
  A sweep of the scheduler of CPU \<open>c\<close> over the rest of the table from \<open>i\<close> on: the states in which it
  looks for a process and what it finds.  Between two of these states the process it found runs, and
  so do the other CPUs.
\<close>

inductive sweep :: "nat \<Rightarrow> nat \<Rightarrow> ('a pst_scheme \<times> nat option) list \<Rightarrow> bool" for c where
  finish: "scheduler_round c i s = Ret (None, t) \<Longrightarrow> sweep c i [(s, None)]"
| found: "scheduler_round c i s = Ret (Some p, t) \<Longrightarrow> sweep c (Suc p) tr \<Longrightarrow> sweep c i ((s, Some p) # tr)"

definition schedulable :: "nat \<Rightarrow> nat \<Rightarrow> 'a pst_scheme \<Rightarrow> bool" where
  "schedulable c n s \<longleftrightarrow> hw_ok s \<and> dispatchable (procs s) \<and> c < length (cpus s) \<and> length (procs s) = n"

lemma schedulable_round:
  assumes "schedulable c n s" and "scheduler_round c i s = Ret (x, t)"
  shows "first_runnable i (procs s) = x"
proof (cases "first_runnable i (procs s)")
  case None
  then have "andthen (release_at PtableLock s) (\<lambda>s. Ret (None, s)) = Ret (x, t)"
    using scheduler_round_spec [of s c i] assms by (simp add: schedulable_def)
  then show ?thesis using None by (auto elim!: andthen_RetE)
next
  case (Some p)
  then show ?thesis using scheduler_round_spec [of s c i] assms by (auto simp: schedulable_def)
qed

lemma sweep_fair:
  assumes "sweep c i tr" and "\<forall>(s, x)\<in>set tr. schedulable c n s" and "i \<le> q" and "q < n"
  shows "(\<exists>s. (s, Some q) \<in> set tr) \<or> (\<exists>(s, x)\<in>set tr. pstate (procs s ! q) \<noteq> RUNNABLE)"
  using assms
proof (induction rule: sweep.induct)
  case (finish i s t)
  have n: "first_runnable i (procs s) = None" "length (procs s) = n"
    using schedulable_round [OF _ finish(1)] finish(2) by (auto simp: schedulable_def)
  have "pstate (procs s ! q) \<noteq> RUNNABLE" by (rule first_runnable_None [OF n(1)]) (use finish n in simp_all)
  then show ?case by simp
next
  case (found i s p t tr)
  have p: "first_runnable i (procs s) = Some p" using schedulable_round [OF _ found(1)] found(4) by auto
  consider "q < p" | "q = p" | "p < q" by linarith
  then show ?case
  proof cases
    case 1
    then have "pstate (procs s ! q) \<noteq> RUNNABLE" using first_runnable_Some(4) [OF p] found(5) by simp
    then show ?thesis by simp
  next
    case 3
    then show ?thesis using found by auto
  qed auto
qed

section \<open>Operations of \<^verbatim>\<open>proc.c\<close> are steps\<close>














section \<open>Properties\<close>

definition unused_proc :: proc where
  "unused_proc = proc0\<lparr>pstate := UNUSED, pid := 0\<rparr>"











text \<open>
  C12: the scheduler is fair.  In one sweep over the table, whatever the processes and the other CPUs
  do in between, a process that is runnable whenever the scheduler looks is dispatched.
\<close>

theorem scheduler_fair:
  assumes "sweep c i tr" and "\<forall>(s, x)\<in>set tr. schedulable c n s" and "i \<le> q" and "q < n"
  shows "(\<exists>s. (s, Some q) \<in> set tr) \<or> (\<exists>(s, x)\<in>set tr. pstate (procs s ! q) \<noteq> RUNNABLE)"
  by (rule sweep_fair [OF assms])

definition one_runnable :: lst where
  "one_runnable = (machine [])\<lparr>cpus := [cpu0\<lparr>ncli := 1\<rparr>], ifl := False,
     locks := (\<lambda>_. initlock '''')(PtableLock := \<lparr>locked = 1, lname = ''ptable'', lcpu = Some 0\<rparr>),
     procs := [proc0\<lparr>pstate := RUNNABLE, kstack := 0x80400000, pgdir := 0x80401000\<rparr>]\<rparr>"

lemma one_runnable_ok: "schedulable 0 1 one_runnable"
  by (simp add: schedulable_def one_runnable_def machine_with_def hw_ok_def cur_cpu_def cpu0_def dispatchable_def)

lemma one_runnable_sweep: "sweep 0 0 [(one_runnable, Some 0), (one_runnable, None)]"
proof -
  have f: "first_runnable 0 (procs one_runnable) = Some 0" "first_runnable 1 (procs one_runnable) = None"
    by (simp_all add: first_runnable_def one_runnable_def)
  have o: "hw_ok one_runnable" "dispatchable (procs one_runnable)" "0 < length (cpus one_runnable)"
    using one_runnable_ok by (simp_all add: schedulable_def)
  obtain t where t: "scheduler_round 0 0 one_runnable = Ret (Some 0, t)"
    using scheduler_round_spec [OF o, of 0] f(1) by auto
  have "\<exists>u. release_at PtableLock one_runnable = Ret u"
    by (simp add: release_at_def release_def holding_def pushcli_def popcli_def mycpu_def upd_cpu_def one_runnable_def machine_with_def cpu0_def)
  then obtain u where "scheduler_round 0 (Suc 0) one_runnable = Ret (None, u)"
    using scheduler_round_spec [OF o, of 1] f(2) by auto
  then show ?thesis using t by (blast intro: sweep.intros)
qed

theorem scheduler_fair_witness:
  "sweep 0 0 [(one_runnable, Some 0), (one_runnable, None)] \<and> pstate (procs one_runnable ! 0) = RUNNABLE
    \<and> (\<exists>s. (s, Some 0) \<in> set [(one_runnable, Some 0), (one_runnable, None)])"
proof -
  have "pstate (procs one_runnable ! 0) = RUNNABLE" by (simp add: one_runnable_def)
  with scheduler_fair [OF one_runnable_sweep, of 1 0] show ?thesis
    using one_runnable_ok one_runnable_sweep by simp
qed



text \<open>
  C15: \<open>kill(0)\<close> hits a free slot.  The identifier of a slot that is not in use is 0, \<open>kill\<close> does not
  look at the state, and \<open>allocproc\<close> does not clear the flag: \<open>kill(0)\<close> reports success and the next
  process to take the slot is born killed.
\<close>

theorem kill_zero_marks_free_slot:
  assumes "ready s" and "lock_free (kmem_lock s)" and "freelist s \<noteq> 0" and "nextpid s < 2 ^ 31 - 1"
    and "find_proc (\<lambda>p. pid p = 0) (procs s) 0 = Some p" and "find_proc (\<lambda>p. pstate p = UNUSED) (procs s) 0 = Some p"
  shows "runs (andthen (kill 0 s) (\<lambda>(r, s). andthen (allocproc s) (\<lambda>(q, s). Ret (r, q, s))))
    (\<lambda>(r, q, t). r = 0 \<and> q = Some p \<and> killed (procs t ! p))"
proof -
  have p: "p < length (procs s)" "pstate (procs s ! p) = UNUSED" "\<And>j. j < p \<Longrightarrow> pstate (procs s ! j) \<noteq> UNUSED"
    using find_proc_Some [OF assms(6)] by simp_all
  let ?s = "s\<lparr>cpus := rested (cpus s) (ncpu s) (lapicid s) (ifl s), procs := killed_at p (procs s)\<rparr>"
  have r: "ready ?s" by (rule ready_frame(1) [OF assms(1)]) (simp_all add: killed_at_def)
  have map: "map pstate (killed_at p (procs s)) = map pstate (procs s)"
    using p(1,2) list_update_id [of "map pstate (procs s)" p] by (simp add: killed_at_def map_update)
  have f: "find_proc (\<lambda>p. pstate p = UNUSED) (procs ?s) 0 = Some p" using find_state_cong [OF map, of UNUSED 0] assms(6) by simp
  obtain t where "allocproc ?s = Ret (Some p, t)" "killed (procs t ! p)"
    using allocproc_eq [OF r _ _ f] assms(2-4) p(1) by (auto simp: killed_at_def)
  then show ?thesis using assms(5) by (simp add: kill_eq [OF assms(1)])
qed

definition two_procs :: lst where
  "two_procs = (machine [])\<lparr>procs := [proc0, unused_proc], freelist := 0x80400000\<rparr>"

theorem kill_zero_marks_free_slot_witness:
  "runs (andthen (kill 0 two_procs) (\<lambda>(r, s). andthen (allocproc s) (\<lambda>(q, s). Ret (r, q, s))))
    (\<lambda>(r, q, t). r = 0 \<and> q = Some 1 \<and> killed (procs t ! 1))"
proof (rule kill_zero_marks_free_slot)
  show "ready two_procs"
    unfolding two_procs_def using machine_ready [of "[]" "()"]
    by (simp add: ready_def machine_with_def split: option.splits)
qed (simp_all add: two_procs_def machine_with_def initlock_def lock_free_def proc0_def unused_proc_def)
end
