(* ===== verification/Procfile.thy ===== *)
theory Procfile
  imports File
begin

text \<open>
  The operations of \<^verbatim>\<open>proc.c\<close> that use files: the first process, \<open>fork\<close>, \<open>exit\<close> and the first return of a
  new process.  The state \<open>kern\<close> is the whole kernel: it adds the clock, the flag of \<open>forkret\<close> and the
  interrupt descriptor table.
\<close>

unbundle bit_operations_syntax

record kern = fss +
  ticks :: uint
  forkret_first :: bool
  idt :: "gatedesc list"

definition st16 :: "memory \<Rightarrow> uint \<Rightarrow> ushort \<Rightarrow> memory" where
  "st16 m a w = m(a := ucast w, a + 1 := ucast (drop_bit 8 w))"

definition ld16 :: "memory \<Rightarrow> uint \<Rightarrow> ushort" where
  "ld16 m a = ucast (m a) OR push_bit 8 (ucast (m (a + 1)))"

section \<open>The first process\<close>

text \<open>The arguments are the address and size of the binary of \<^verbatim>\<open>initcode.S\<close>, which the linker provides.\<close>

definition userinit :: "uint \<Rightarrow> uint \<Rightarrow> 'a fss_scheme \<Rightarrow> 'a fss_scheme outcome" where
  "userinit start sz0 s =
     andthen (allocproc s) (\<lambda>(p, s).
     let s = s\<lparr>initproc := p\<rparr> in
     case p of
       None \<Rightarrow> Undef ''no process''
     | Some p \<Rightarrow>
         andthen (setupkvm s) (\<lambda>(d, s).
         let s = upd_proc p (\<lambda>q. q\<lparr>pgdir := d\<rparr>) s in
         if d = 0 then Panic ''userinit: out of memory?''
         else
           andthen (inituvm d start sz0 s) (\<lambda>s.
           let s = upd_proc p (\<lambda>q. q\<lparr>sz := PGSIZE\<rparr>) s;
               t = tf (procs s ! p);
               s = s\<lparr>mem := memset (mem s) t 0 sizeof_trapframe\<rparr>;
               s = s\<lparr>mem := st16 (mem s) (t + tf_cs) (of_nat (SEG_UCODE * 8) OR ucast DPL_USER)\<rparr>;
               s = s\<lparr>mem := st16 (mem s) (t + tf_ds) (of_nat (SEG_UDATA * 8) OR ucast DPL_USER)\<rparr>;
               s = s\<lparr>mem := st16 (mem s) (t + tf_es) (ld16 (mem s) (t + tf_ds))\<rparr>;
               s = s\<lparr>mem := st16 (mem s) (t + tf_ss) (ld16 (mem s) (t + tf_ds))\<rparr>;
               s = s\<lparr>mem := st32 (mem s) (t + tf_eflags) 0x200\<rparr>;
               s = s\<lparr>mem := st32 (mem s) (t + tf_esp) PGSIZE\<rparr>;
               s = s\<lparr>mem := st32 (mem s) (t + tf_eip) 0\<rparr> in
           andthen (safestrcpy (pname (procs s ! p)) (map (\<lambda>c. of_nat (of_char c)) ''initcode'' @ [0]) 16) (\<lambda>nm.
           let s = upd_proc p (\<lambda>q. q\<lparr>pname := nm\<rparr>) s in
           andthen (namei [SLASH, 0] s) (\<lambda>(ip, s).
           let s = upd_proc p (\<lambda>q. q\<lparr>cwd := ip\<rparr>) s in
           andthen (acquire_at PtableLock s) (\<lambda>s.
           let s = upd_proc p (\<lambda>q. q\<lparr>pstate := RUNNABLE\<rparr>) s in
           release_at PtableLock s))))))"

section \<open>Fork\<close>

fun fork_files :: "nat \<Rightarrow> nat \<Rightarrow> nat list \<Rightarrow> 'a fss_scheme \<Rightarrow> 'a fss_scheme outcome" where
  "fork_files cur np [] s = Ret s"
| "fork_files cur np (i # is) s =
     (case ofile (procs s ! cur) ! i of
        None \<Rightarrow> fork_files cur np is s
      | Some f \<Rightarrow>
          andthen (filedup f s) (\<lambda>(f, s).
          fork_files cur np is (upd_proc np (\<lambda>q. q\<lparr>ofile := (ofile q)[i := Some f]\<rparr>) s)))"

definition fork :: "'a fss_scheme \<Rightarrow> (int \<times> 'a fss_scheme) outcome" where
  "fork s =
     andthen (curproc s) (\<lambda>(cur, s).
     andthen (allocproc s) (\<lambda>(np, s).
     case np of
       None \<Rightarrow> Ret (-1, s)
     | Some np \<Rightarrow>
         andthen (copyuvm (pgdir (procs s ! cur)) (sz (procs s ! cur)) s) (\<lambda>(d, s).
         let s = upd_proc np (\<lambda>q. q\<lparr>pgdir := d\<rparr>) s in
         if d = 0 then
           andthen (kfree (kstack (procs s ! np)) s) (\<lambda>s.
           let s = upd_proc np (\<lambda>q. q\<lparr>kstack := 0\<rparr>) s;
               s = upd_proc np (\<lambda>q. q\<lparr>pstate := UNUSED\<rparr>) s in
           Ret (-1, s))
         else
           let s = upd_proc np (\<lambda>q. q\<lparr>sz := sz (procs s ! cur)\<rparr>) s;
               s = upd_proc np (\<lambda>q. q\<lparr>parent := Some cur\<rparr>) s;
               s = s\<lparr>mem := memmove (mem s) (tf (procs s ! np)) (tf (procs s ! cur)) sizeof_trapframe\<rparr>;
               s = s\<lparr>mem := st32 (mem s) (tf (procs s ! np) + tf_eax) 0\<rparr> in
           andthen (fork_files cur np [0..<NOFILE] s) (\<lambda>s.
           case cwd (procs s ! cur) of
             None \<Rightarrow> Undef ''no current directory''
           | Some ip \<Rightarrow>
               andthen (idup ip s) (\<lambda>(ip, s).
               let s = upd_proc np (\<lambda>q. q\<lparr>cwd := Some ip\<rparr>) s in
               andthen (safestrcpy (pname (procs s ! np)) (pname (procs s ! cur)) 16) (\<lambda>nm.
               let s = upd_proc np (\<lambda>q. q\<lparr>pname := nm\<rparr>) s;
                   i = pid (procs s ! np) in
               andthen (acquire_at PtableLock s) (\<lambda>s.
               let s = upd_proc np (\<lambda>q. q\<lparr>pstate := RUNNABLE\<rparr>) s in
               andthen (release_at PtableLock s) (\<lambda>s. Ret (i, s)))))))))"

section \<open>Exit\<close>

fun exit_files :: "nat \<Rightarrow> nat list \<Rightarrow> 'a fss_scheme \<Rightarrow> 'a fss_scheme outcome" where
  "exit_files cur [] s = Ret s"
| "exit_files cur (fd # fds) s =
     (case ofile (procs s ! cur) ! fd of
        None \<Rightarrow> exit_files cur fds s
      | Some f \<Rightarrow>
          andthen (fileclose f s) (\<lambda>s.
          exit_files cur fds (upd_proc cur (\<lambda>q. q\<lparr>ofile := (ofile q)[fd := None]\<rparr>) s)))"

text \<open>Passing the abandoned children to \<open>init\<close>, which is woken when one of them is a zombie.\<close>

fun exit_children :: "nat \<Rightarrow> nat list \<Rightarrow> 'a pst_scheme \<Rightarrow> 'a pst_scheme" where
  "exit_children cur [] s = s"
| "exit_children cur (p # ps) s =
     (if parent (procs s ! p) = Some cur then
        let s = upd_proc p (\<lambda>q. q\<lparr>parent := initproc s\<rparr>) s;
            s = (if pstate (procs s ! p) = ZOMBIE then
                   case initproc s of None \<Rightarrow> s | Some i \<Rightarrow> wakeup1 (ChProc i) s
                 else s) in
        exit_children cur ps s
      else exit_children cur ps s)"

text \<open>\<open>exit\<close> up to its switch to the scheduler, from which it does not come back.\<close>

definition exit_enter :: "'a fss_scheme \<Rightarrow> (bool \<times> 'a fss_scheme) outcome" where
  "exit_enter s =
     andthen (curproc s) (\<lambda>(cur, s).
     if Some cur = initproc s then Panic ''init exiting''
     else
       andthen (exit_files cur [0..<NOFILE] s) (\<lambda>s.
       andthen (begin_op s) (\<lambda>s.
       case cwd (procs s ! cur) of
         None \<Rightarrow> Undef ''no current directory''
       | Some ip \<Rightarrow>
           andthen (iput ip s) (\<lambda>s.
           andthen (end_op s) (\<lambda>s.
           let s = upd_proc cur (\<lambda>q. q\<lparr>cwd := None\<rparr>) s in
           andthen (acquire_at PtableLock s) (\<lambda>s.
           let s = (case parent (procs s ! cur) of None \<Rightarrow> s | Some pp \<Rightarrow> wakeup1 (ChProc pp) s);
               s = exit_children cur [0..<length (procs s)] s;
               s = upd_proc cur (\<lambda>q. q\<lparr>pstate := ZOMBIE\<rparr>) s in
           sched_enter s))))))"

definition exit :: "'a fss_scheme \<Rightarrow> 'a fss_scheme outcome" where
  "exit s = andthen (exit_enter s) (\<lambda>_. Diverge)"

definition forkret :: "'a kern_scheme \<Rightarrow> 'a kern_scheme outcome" where
  "forkret s =
     andthen (release_at PtableLock s) (\<lambda>s.
     if forkret_first s then
       let s = s\<lparr>forkret_first := False\<rparr> in
       andthen (iinit ROOTDEV s) (initlog ROOTDEV)
     else Ret s)"

end
