(* ===== verification/Exec.thy ===== *)
theory Exec
  imports Procfile
begin

text \<open>
  \<open>exec\<close>, \<^verbatim>\<open>exec.c\<close>, over the ELF structures of \<^verbatim>\<open>elf.h\<close>.  The path and the arguments are the strings that
  \<open>sys_exec\<close> found in user memory, without their null bytes for the arguments.
\<close>

unbundle bit_operations_syntax

section \<open>Program headers\<close>

definition ELF_MAGIC :: uint where "ELF_MAGIC = 0x464C457F"
definition ELF_PROG_LOAD :: uint where "ELF_PROG_LOAD = 1"

record elfhdr =
  e_magic :: uint
  e_entry :: uint
  e_phoff :: uint
  e_phnum :: ushort

record proghdr =
  p_type :: uint
  p_off :: uint
  p_vaddr :: uint
  p_filesz :: uint
  p_memsz :: uint

definition get_elfhdr :: "uchar list \<Rightarrow> elfhdr" where
  "get_elfhdr d = \<lparr>e_magic = get32 d 0, e_entry = get32 d 24, e_phoff = get32 d 28, e_phnum = get16 d 44\<rparr>"

definition get_proghdr :: "uchar list \<Rightarrow> proghdr" where
  "get_proghdr d = \<lparr>p_type = get32 d 0, p_off = get32 d 4, p_vaddr = get32 d 8, p_filesz = get32 d 16, p_memsz = get32 d 20\<rparr>"

section \<open>Copying to the new image\<close>

fun put_bytes :: "memory \<Rightarrow> uint \<Rightarrow> uchar list \<Rightarrow> memory" where
  "put_bytes m a [] = m"
| "put_bytes m a (b # bs) = put_bytes (m(a := b)) (a + 1) bs"

text \<open>\<open>copyout\<close> with the source given by its bytes: it may lie in user memory or on the kernel stack.\<close>

fun copyout_bytes_loop :: "nat \<Rightarrow> uint \<Rightarrow> uint \<Rightarrow> uchar list \<Rightarrow> 'a kst_scheme \<Rightarrow> (int \<times> 'a kst_scheme) outcome" where
  "copyout_bytes_loop 0 dir va bs s = Diverge"
| "copyout_bytes_loop (Suc fuel) dir va bs s =
     (if bs \<noteq> [] then
        let va0 = PGROUNDDOWN va in
        andthen (uva2ka dir va0 s) (\<lambda>(pa0, s).
        if pa0 = 0 then Ret (-1, s)
        else
          let n = min (length bs) (unat (PGSIZE - (va - va0)));
              s = s\<lparr>mem := put_bytes (mem s) (pa0 + (va - va0)) (take n bs)\<rparr> in
          copyout_bytes_loop fuel dir (va0 + PGSIZE) (drop n bs) s)
      else Ret (0, s))"

definition copyout_bytes :: "uint \<Rightarrow> uint \<Rightarrow> uchar list \<Rightarrow> 'a kst_scheme \<Rightarrow> (int \<times> 'a kst_scheme) outcome" where
  "copyout_bytes dir va bs s = copyout_bytes_loop (Suc (length bs)) dir va bs s"

section \<open>Loading and starting a program\<close>

definition exec_readi :: "nat \<Rightarrow> uint \<Rightarrow> uint \<Rightarrow> uint \<Rightarrow> 'a cst_scheme \<Rightarrow> (int \<times> 'a cst_scheme) outcome" where
  "exec_readi ip dst off n s =
     andthen (readi ip off n s) (\<lambda>((r, bs), s). Ret (r, s\<lparr>mem := put_bytes (mem s) dst bs\<rparr>))"

text \<open>The loop over the \<open>k\<close> remaining program headers; \<open>None\<close> is the jump to \<open>bad\<close>.\<close>

fun exec_load :: "nat \<Rightarrow> nat \<Rightarrow> uint \<Rightarrow> uint \<Rightarrow> uint \<Rightarrow> 'a cst_scheme \<Rightarrow> (uint option \<times> 'a cst_scheme) outcome" where
  "exec_load 0 ip dir off z s = Ret (Some z, s)"
| "exec_load (Suc k) ip dir off z s =
     andthen (readi ip off 32 s) (\<lambda>((r, bs), s).
     if r \<noteq> 32 then Ret (None, s)
     else
       let ph = get_proghdr bs in
       if p_type ph \<noteq> ELF_PROG_LOAD then exec_load k ip dir (off + 32) z s
       else if p_memsz ph < p_filesz ph then Ret (None, s)
       else if p_vaddr ph + p_memsz ph < p_vaddr ph then Ret (None, s)
       else
         andthen (allocuvm dir z (p_vaddr ph + p_memsz ph) s) (\<lambda>(z, s).
         if z = 0 then Ret (None, s)
         else if p_vaddr ph mod PGSIZE \<noteq> 0 then Ret (None, s)
         else
           andthen (loaduvm (exec_readi ip) dir (p_vaddr ph) (p_off ph) (p_filesz ph) s) (\<lambda>(r, s).
           if r < 0 then Ret (None, s)
           else exec_load k ip dir (off + 32) z s)))"

abbreviation MAXARG :: nat where "MAXARG \<equiv> 32"

text \<open>Pushing the argument strings; the result is the stack pointer and the addresses of the strings.\<close>

fun exec_args :: "uint \<Rightarrow> uchar list list \<Rightarrow> nat \<Rightarrow> uint \<Rightarrow> uint list \<Rightarrow> 'a cst_scheme \<Rightarrow>
    ((uint \<times> uint list) option \<times> 'a cst_scheme) outcome" where
  "exec_args dir [] argc sp us s = Ret (Some (sp, us), s)"
| "exec_args dir (a # as) argc sp us s =
     (if argc \<ge> MAXARG then Ret (None, s)
      else
        let sp = (sp - (of_nat (length a) + 1)) AND NOT 3 in
        andthen (copyout_bytes dir sp (a @ [0]) s) (\<lambda>(r, s).
        if r < 0 then Ret (None, s)
        else exec_args dir as (Suc argc) sp (us @ [sp]) s))"

fun base_name :: "uchar list \<Rightarrow> uchar list \<Rightarrow> uchar list" where
  "base_name lst [] = lst"
| "base_name lst (c # cs) = (if c = 0 then lst else if c = SLASH then base_name cs cs else base_name lst cs)"

definition exec_bad :: "uint \<Rightarrow> nat option \<Rightarrow> 'a cst_scheme \<Rightarrow> (int \<times> 'a cst_scheme) outcome" where
  "exec_bad dir ipp s =
     andthen (if dir \<noteq> 0 then freevm dir s else Ret s) (\<lambda>s.
     case ipp of
       Some ip \<Rightarrow> andthen (iunlockput ip s) (\<lambda>s. andthen (end_op s) (\<lambda>s. Ret (-1, s)))
     | None \<Rightarrow> Ret (-1, s))"

text \<open>The second half: the stack with the arguments, and the commitment to the new image.\<close>

definition exec_commit :: "nat \<Rightarrow> elfhdr \<Rightarrow> uint \<Rightarrow> uint \<Rightarrow> uchar list \<Rightarrow> uchar list list \<Rightarrow> 'a cst_scheme \<Rightarrow>
    (int \<times> 'a cst_scheme) outcome" where
  "exec_commit cur elf d z path argv s =
     (let z = PGROUNDUP z in
      andthen (allocuvm d z (z + 2 * PGSIZE) s) (\<lambda>(z, s).
      if z = 0 then exec_bad d None s
      else
        andthen (clearpteu d (z - 2 * PGSIZE) s) (\<lambda>s.
        andthen (exec_args d argv 0 z [] s) (\<lambda>(r, s).
        case r of
          None \<Rightarrow> exec_bad d None s
        | Some (sp, us) \<Rightarrow>
            let argc = length us;
                ustack = [0xffffffff, of_nat argc, sp - (of_nat argc + 1) * 4] @ us @ [0];
                sp = sp - (3 + of_nat argc + 1) * 4 in
            andthen (copyout_bytes d sp (concat (map bytes32 ustack)) s) (\<lambda>(r, s).
            if r < 0 then exec_bad d None s
            else
              andthen (safestrcpy (pname (procs s ! cur)) (base_name path path) 16) (\<lambda>nm.
              let s = upd_proc cur (\<lambda>q. q\<lparr>pname := nm\<rparr>) s;
                  old = pgdir (procs s ! cur);
                  s = upd_proc cur (\<lambda>q. q\<lparr>pgdir := d\<rparr>) s;
                  s = upd_proc cur (\<lambda>q. q\<lparr>sz := z\<rparr>) s;
                  s = s\<lparr>mem := st32 (mem s) (tf (procs s ! cur) + tf_eip) (e_entry elf)\<rparr>;
                  s = s\<lparr>mem := st32 (mem s) (tf (procs s ! cur) + tf_esp) sp\<rparr> in
              andthen (switchuvm (Some (kstack (procs s ! cur), pgdir (procs s ! cur))) s) (\<lambda>s.
              andthen (freevm old s) (\<lambda>s. Ret (0, s)))))))))"

definition exec :: "uchar list \<Rightarrow> uchar list list \<Rightarrow> 'a cst_scheme \<Rightarrow> (int \<times> 'a cst_scheme) outcome" where
  "exec path argv s =
     andthen (curproc s) (\<lambda>(cur, s).
     andthen (begin_op s) (\<lambda>s.
     andthen (namei path s) (\<lambda>(ipp, s).
     case ipp of
       None \<Rightarrow>
         andthen (end_op s) (\<lambda>s.
         andthen (cprintf (\<lambda>_. '''') (''exec: fail'' @ [CHR 0x0A]) [] s) (\<lambda>s. Ret (-1, s)))
     | Some ip \<Rightarrow>
         andthen (ilock (Some ip) s) (\<lambda>s.
         andthen (readi ip 0 52 s) (\<lambda>((r, bs), s).
         let elf = get_elfhdr bs in
         if r \<noteq> 52 \<or> e_magic elf \<noteq> ELF_MAGIC then exec_bad 0 (Some ip) s
         else
           andthen (setupkvm s) (\<lambda>(d, s).
           if d = 0 then exec_bad 0 (Some ip) s
           else
             andthen (exec_load (unat (e_phnum elf)) ip d (e_phoff elf) 0 s) (\<lambda>(r, s).
             case r of
               None \<Rightarrow> exec_bad d (Some ip) s
             | Some z \<Rightarrow>
                 andthen (iunlockput ip s) (\<lambda>s.
                 andthen (end_op s) (\<lambda>s.
                 exec_commit cur elf d z path argv s)))))))))"

end
