(* ===== verification/Syscall.thy ===== *)
theory Syscall
  imports Exec
begin

text \<open>
  System calls: fetching the arguments (\<^verbatim>\<open>syscall.c\<close>) and the calls on processes (\<^verbatim>\<open>sysproc.c\<close>).  An argument
  function returns \<open>None\<close> where the code returns a negative number.  The saved user stack pointer is
  in the trap frame.
\<close>

unbundle bit_operations_syntax

section \<open>Arguments\<close>

definition fetchint :: "uint \<Rightarrow> 'a pst_scheme \<Rightarrow> (uint option \<times> 'a pst_scheme) outcome" where
  "fetchint addr s =
     andthen (curproc s) (\<lambda>(p, s).
     if addr \<ge> sz (procs s ! p) \<or> addr + 4 > sz (procs s ! p) then Ret (None, s)
     else andthen (load_user s addr 4) (\<lambda>bs. Ret (Some (get32 bs 0), s)))"

text \<open>
  \<open>fetchstr\<close> returns the address and the bytes of the string with its null byte.  The loop stops at
  the end of the process.
\<close>

fun fetchstr_loop :: "'a kst_scheme \<Rightarrow> uint \<Rightarrow> nat \<Rightarrow> uchar list option outcome" where
  "fetchstr_loop s va 0 = Ret None"
| "fetchstr_loop s va (Suc k) =
     andthen (load_user s va 1) (\<lambda>bs.
     if hd bs = 0 then Ret (Some [0])
     else andthen (fetchstr_loop s (va + 1) k) (\<lambda>r. Ret (map_option (\<lambda>cs. hd bs # cs) r)))"

definition fetchstr :: "uint \<Rightarrow> 'a pst_scheme \<Rightarrow> ((uint \<times> uchar list) option \<times> 'a pst_scheme) outcome" where
  "fetchstr addr s =
     andthen (curproc s) (\<lambda>(p, s).
     if addr \<ge> sz (procs s ! p) then Ret (None, s)
     else andthen (fetchstr_loop s addr (unat (sz (procs s ! p) - addr))) (\<lambda>r.
       Ret (map_option (\<lambda>cs. (addr, cs)) r, s)))"

definition argint :: "nat \<Rightarrow> 'a pst_scheme \<Rightarrow> (uint option \<times> 'a pst_scheme) outcome" where
  "argint n s =
     andthen (curproc s) (\<lambda>(p, s).
     fetchint (ld32 (mem s) (tf (procs s ! p) + tf_esp) + 4 + 4 * of_nat n) s)"

definition argptr :: "nat \<Rightarrow> int \<Rightarrow> 'a pst_scheme \<Rightarrow> (uint option \<times> 'a pst_scheme) outcome" where
  "argptr n len s =
     andthen (curproc s) (\<lambda>(p, s).
     andthen (argint n s) (\<lambda>(i, s).
     case i of
       None \<Rightarrow> Ret (None, s)
     | Some i \<Rightarrow>
         if len < 0 \<or> i \<ge> sz (procs s ! p) \<or> i + of_int len > sz (procs s ! p) then Ret (None, s)
         else Ret (Some i, s)))"

definition argstr :: "nat \<Rightarrow> 'a pst_scheme \<Rightarrow> ((uint \<times> uchar list) option \<times> 'a pst_scheme) outcome" where
  "argstr n s =
     andthen (argint n s) (\<lambda>(i, s).
     case i of None \<Rightarrow> Ret (None, s) | Some a \<Rightarrow> fetchstr a s)"

section \<open>Calls on processes\<close>

definition sys_fork :: "'a fss_scheme \<Rightarrow> (int \<times> 'a fss_scheme) outcome" where
  "sys_fork s = fork s"

definition sys_exit :: "'a fss_scheme \<Rightarrow> (int \<times> 'a fss_scheme) outcome" where
  "sys_exit s = andthen (exit s) (\<lambda>s. Ret (0, s))"

definition sys_wait :: "'a pst_scheme \<Rightarrow> (int \<times> 'a pst_scheme) outcome" where
  "sys_wait s = wait s"

definition sys_kill :: "'a pst_scheme \<Rightarrow> (int \<times> 'a pst_scheme) outcome" where
  "sys_kill s =
     andthen (argint 0 s) (\<lambda>(i, s).
     case i of None \<Rightarrow> Ret (-1, s) | Some i \<Rightarrow> kill (sint i) s)"

definition sys_getpid :: "'a pst_scheme \<Rightarrow> (int \<times> 'a pst_scheme) outcome" where
  "sys_getpid s = andthen (curproc s) (\<lambda>(p, s). Ret (pid (procs s ! p), s))"

definition sys_sbrk :: "'a pst_scheme \<Rightarrow> (int \<times> 'a pst_scheme) outcome" where
  "sys_sbrk s =
     andthen (argint 0 s) (\<lambda>(n, s).
     case n of
       None \<Rightarrow> Ret (-1, s)
     | Some n \<Rightarrow>
         andthen (curproc s) (\<lambda>(p, s).
         let addr = sz (procs s ! p) in
         andthen (growproc (sint n) s) (\<lambda>(r, s).
         if r < 0 then Ret (-1, s) else Ret (sint addr, s))))"

text \<open>
  The comparison of \<open>sys_sleep\<close> is unsigned.  With \<open>ticks\<close> read once, the loop either ends at once or
  the process waits for the clock.
\<close>

definition sys_sleep :: "'a kern_scheme \<Rightarrow> (int \<times> 'a kern_scheme) outcome" where
  "sys_sleep s =
     andthen (argint 0 s) (\<lambda>(n, s).
     case n of
       None \<Rightarrow> Ret (-1, s)
     | Some n \<Rightarrow>
         andthen (acquire_at TicksLock s) (\<lambda>s.
         let ticks0 = ticks s in
         if ticks s - ticks0 < n then
           andthen (curproc s) (\<lambda>(p, s).
           if killed (procs s ! p) then andthen (release_at TicksLock s) (\<lambda>s. Ret (-1, s))
           else andthen (sleep ChTicks (Some TicksLock) s) (\<lambda>_. Diverge))
         else andthen (release_at TicksLock s) (\<lambda>s. Ret (0, s))))"

definition sys_uptime :: "'a kern_scheme \<Rightarrow> (int \<times> 'a kern_scheme) outcome" where
  "sys_uptime s =
     andthen (acquire_at TicksLock s) (\<lambda>s.
     let xticks = ticks s in
     andthen (release_at TicksLock s) (\<lambda>s. Ret (sint xticks, s)))"

text \<open>\<open>struct mem_struct\<close> takes 44 bytes; \<open>walkpt\<close> fills in nothing, so the structure is not changed.\<close>

definition sys_walkpt :: "'a pst_scheme \<Rightarrow> (int \<times> 'a pst_scheme) outcome" where
  "sys_walkpt s =
     andthen (argptr 0 44 s) (\<lambda>(p, s).
     case p of
       None \<Rightarrow> Ret (-1, s)
     | Some p \<Rightarrow>
         andthen (argint 1 s) (\<lambda>(va, s).
         case va of
           None \<Rightarrow> Ret (-1, s)
         | Some va \<Rightarrow>
             andthen (load_user s p 44) (\<lambda>bs.
             let ms = \<lparr>ms_va = get32 bs 0, ms_pd_index = get32 bs 4, ms_pt_index = get32 bs 8, ms_pg_offset = get32 bs 12,
                   ms_cr3 = get32 bs 16, ms_pde = get32 bs 20, ms_ppn_pde = get32 bs 24, ms_pgtab = get32 bs 28,
                   ms_pte = get32 bs 32, ms_ppn_pte = get32 bs 36, ms_pa = get32 bs 40\<rparr> in
             Ret (Product_Type.fst (walkpt ms va), s))))"

end
