(* ===== verification/Sysfile.thy ===== *)
theory Sysfile
  imports Syscall
begin

text \<open>
  The file-system calls, \<^verbatim>\<open>sysfile.c\<close>, and the dispatch of system calls.  An inode pointer is an index of the
  inode cache.
\<close>

unbundle bit_operations_syntax

section \<open>Descriptors\<close>

definition argfd :: "nat \<Rightarrow> 'a fss_scheme \<Rightarrow> ((nat \<times> nat) option \<times> 'a fss_scheme) outcome" where
  "argfd n s =
     andthen (argint n s) (\<lambda>(fd, s).
     case fd of
       None \<Rightarrow> Ret (None, s)
     | Some fd \<Rightarrow>
         if sint fd < 0 \<or> sint fd \<ge> int NOFILE then Ret (None, s)
         else
           andthen (curproc s) (\<lambda>(p, s).
           case ofile (procs s ! p) ! nat (sint fd) of
             None \<Rightarrow> Ret (None, s)
           | Some f \<Rightarrow> Ret (Some (nat (sint fd), f), s)))"

fun first_free :: "'b option list \<Rightarrow> nat \<Rightarrow> nat option" where
  "first_free [] k = None"
| "first_free (x # xs) k = (if x = None then Some k else first_free xs (Suc k))"

definition fdalloc :: "nat \<Rightarrow> 'a pst_scheme \<Rightarrow> (nat option \<times> 'a pst_scheme) outcome" where
  "fdalloc f s =
     andthen (curproc s) (\<lambda>(p, s).
     case first_free (take NOFILE (ofile (procs s ! p))) 0 of
       Some fd \<Rightarrow> Ret (Some fd, upd_proc p (\<lambda>q. q\<lparr>ofile := (ofile q)[fd := Some f]\<rparr>) s)
     | None \<Rightarrow> Ret (None, s))"

definition sys_dup :: "'a fss_scheme \<Rightarrow> (int \<times> 'a fss_scheme) outcome" where
  "sys_dup s =
     andthen (argfd 0 s) (\<lambda>(r, s).
     case r of
       None \<Rightarrow> Ret (-1, s)
     | Some (_, f) \<Rightarrow>
         andthen (fdalloc f s) (\<lambda>(fd, s).
         case fd of
           None \<Rightarrow> Ret (-1, s)
         | Some fd \<Rightarrow> andthen (filedup f s) (\<lambda>(_, s). Ret (int fd, s))))"

text \<open>The three arguments of \<open>read\<close> and \<open>write\<close>: the file, the number of bytes and the buffer.\<close>

definition rw_args :: "'a fss_scheme \<Rightarrow> ((nat \<times> int \<times> uint) option \<times> 'a fss_scheme) outcome" where
  "rw_args s =
     andthen (argfd 0 s) (\<lambda>(r, s).
     case r of
       None \<Rightarrow> Ret (None, s)
     | Some (_, f) \<Rightarrow>
         andthen (argint 2 s) (\<lambda>(n, s).
         case n of
           None \<Rightarrow> Ret (None, s)
         | Some n \<Rightarrow>
             andthen (argptr 1 (sint n) s) (\<lambda>(p, s).
             case p of
               None \<Rightarrow> Ret (None, s)
             | Some p \<Rightarrow> Ret (Some (f, sint n, p), s))))"

definition sys_read :: "'a fss_scheme \<Rightarrow> (int \<times> 'a fss_scheme) outcome" where
  "sys_read s =
     andthen (rw_args s) (\<lambda>(r, s).
     case r of None \<Rightarrow> Ret (-1, s) | Some (f, n, p) \<Rightarrow> fileread f p n s)"

definition sys_write :: "'a fss_scheme \<Rightarrow> (int \<times> 'a fss_scheme) outcome" where
  "sys_write s =
     andthen (rw_args s) (\<lambda>(r, s).
     case r of None \<Rightarrow> Ret (-1, s) | Some (f, n, p) \<Rightarrow> filewrite f p n s)"

definition sys_close :: "'a fss_scheme \<Rightarrow> (int \<times> 'a fss_scheme) outcome" where
  "sys_close s =
     andthen (argfd 0 s) (\<lambda>(r, s).
     case r of
       None \<Rightarrow> Ret (-1, s)
     | Some (fd, f) \<Rightarrow>
         andthen (curproc s) (\<lambda>(p, s).
         let s = upd_proc p (\<lambda>q. q\<lparr>ofile := (ofile q)[fd := None]\<rparr>) s in
         andthen (fileclose f s) (\<lambda>s. Ret (0, s))))"

text \<open>\<open>struct stat\<close> takes 20 bytes: the fields lie at offsets 0, 4, 8, 12 and 16.\<close>

definition stat_bytes :: "uchar list \<Rightarrow> stat \<Rightarrow> uchar list" where
  "stat_bytes old st =
     (let d = put16 old 0 (st_type st);
          d = put32 d 4 (st_dev st);
          d = put32 d 8 (st_ino st);
          d = put16 d 12 (st_nlink st) in
      put32 d 16 (st_size st))"

definition sys_fstat :: "'a fss_scheme \<Rightarrow> (int \<times> 'a fss_scheme) outcome" where
  "sys_fstat s =
     andthen (argfd 0 s) (\<lambda>(r, s).
     case r of
       None \<Rightarrow> Ret (-1, s)
     | Some (_, f) \<Rightarrow>
         andthen (argptr 1 20 s) (\<lambda>(p, s).
         case p of
           None \<Rightarrow> Ret (-1, s)
         | Some p \<Rightarrow>
             andthen (filestat f s) (\<lambda>((r, st), s).
             case st of
               None \<Rightarrow> Ret (r, s)
             | Some st \<Rightarrow>
                 andthen (load_user s p 20) (\<lambda>old.
                 andthen (store_user p (stat_bytes old st) s) (\<lambda>s. Ret (r, s))))))"

section \<open>Links\<close>

definition fail_op :: "'a fss_scheme \<Rightarrow> (int \<times> 'a fss_scheme) outcome" where
  "fail_op s = andthen (end_op s) (\<lambda>s. Ret (-1, s))"

definition link_bad :: "nat \<Rightarrow> 'a fss_scheme \<Rightarrow> (int \<times> 'a fss_scheme) outcome" where
  "link_bad ip s =
     andthen (ilock (Some ip) s) (\<lambda>s.
     let s = upd_inode ip (\<lambda>x. x\<lparr>nlink := nlink x - 1\<rparr>) s in
     andthen (iupdate ip s) (\<lambda>s.
     andthen (iunlockput ip s) fail_op))"

definition link :: "uchar list \<Rightarrow> uchar list \<Rightarrow> 'a fss_scheme \<Rightarrow> (int \<times> 'a fss_scheme) outcome" where
  "link old new s =
     andthen (begin_op s) (\<lambda>s.
     andthen (namei old s) (\<lambda>(ipp, s).
     case ipp of
       None \<Rightarrow> fail_op s
     | Some ip \<Rightarrow>
         andthen (ilock (Some ip) s) (\<lambda>s.
         if itype (inodes s ! ip) = T_DIR then andthen (iunlockput ip s) fail_op
         else
           let s = upd_inode ip (\<lambda>x. x\<lparr>nlink := nlink x + 1\<rparr>) s in
           andthen (iupdate ip s) (\<lambda>s.
           andthen (iunlock (Some ip) s) (\<lambda>s.
           andthen (nameiparent new (replicate DIRSIZ 0) s) (\<lambda>((dpp, name), s).
           case dpp of
             None \<Rightarrow> link_bad ip s
           | Some dp \<Rightarrow>
               andthen (ilock (Some dp) s) (\<lambda>s.
               andthen (if idev (inodes s ! dp) \<noteq> idev (inodes s ! ip) then Ret (-1, s)
                        else dirlink dp name (inum (inodes s ! ip)) s) (\<lambda>(r, s).
               if r < 0 then andthen (iunlockput dp s) (link_bad ip)
               else
                 andthen (iunlockput dp s) (\<lambda>s.
                 andthen (iput ip s) (\<lambda>s.
                 andthen (end_op s) (\<lambda>s. Ret (0, s))))))))))))"

definition sys_link :: "'a fss_scheme \<Rightarrow> (int \<times> 'a fss_scheme) outcome" where
  "sys_link s =
     andthen (argstr 0 s) (\<lambda>(old, s).
     case old of
       None \<Rightarrow> Ret (-1, s)
     | Some (_, old) \<Rightarrow>
         andthen (argstr 1 s) (\<lambda>(new, s).
         case new of
           None \<Rightarrow> Ret (-1, s)
         | Some (_, new) \<Rightarrow> link old new s))"

function isdirempty_loop :: "nat \<Rightarrow> nat \<Rightarrow> 'a cst_scheme \<Rightarrow> (bool \<times> 'a cst_scheme) outcome" where
  "isdirempty_loop dp off s =
     (if off < 2 ^ 31 \<and> off < unat (isize (inodes s ! dp)) then
        andthen (readi dp (of_nat off) 16 s) (\<lambda>((r, de), s).
        if r \<noteq> 16 then Panic ''isdirempty: readi''
        else if de_inum de \<noteq> 0 then Ret (False, s)
        else isdirempty_loop dp (off + 16) s)
      else Ret (True, s))"
  by pat_completeness auto

termination isdirempty_loop
  by (relation "measure (\<lambda>(dp, off, s). 2 ^ 31 - off)") auto

definition isdirempty :: "nat \<Rightarrow> 'a cst_scheme \<Rightarrow> (bool \<times> 'a cst_scheme) outcome" where
  "isdirempty dp s = isdirempty_loop dp 32 s"

definition unlink :: "uchar list \<Rightarrow> 'a fss_scheme \<Rightarrow> (int \<times> 'a fss_scheme) outcome" where
  "unlink path s =
     andthen (begin_op s) (\<lambda>s.
     andthen (nameiparent path (replicate DIRSIZ 0) s) (\<lambda>((dpp, name), s).
     case dpp of
       None \<Rightarrow> fail_op s
     | Some dp \<Rightarrow>
         andthen (ilock (Some dp) s) (\<lambda>s.
         andthen (namecmp name [0x2e, 0]) (\<lambda>c1.
         andthen (if c1 = 0 then Ret 0 else namecmp name [0x2e, 0x2e, 0]) (\<lambda>c2.
         if c2 = 0 then andthen (iunlockput dp s) fail_op
         else
           andthen (dirlookup dp name s) (\<lambda>(r, s).
           case r of
             None \<Rightarrow> andthen (iunlockput dp s) fail_op
           | Some (ip, off) \<Rightarrow>
               andthen (ilock (Some ip) s) (\<lambda>s.
               if sint (nlink (inodes s ! ip)) < 1 then Panic ''unlink: nlink < 1''
               else
                 andthen (if itype (inodes s ! ip) = T_DIR then isdirempty ip s else Ret (True, s)) (\<lambda>(e, s).
                 if \<not> e then andthen (iunlockput ip s) (\<lambda>s. andthen (iunlockput dp s) fail_op)
                 else
                   andthen (writei dp (replicate 16 0) off 16 s) (\<lambda>(w, s).
                   if w \<noteq> 16 then Panic ''unlink: writei''
                   else
                     andthen (if itype (inodes s ! ip) = T_DIR then
                                let s = upd_inode dp (\<lambda>x. x\<lparr>nlink := nlink x - 1\<rparr>) s in iupdate dp s
                              else Ret s) (\<lambda>s.
                     andthen (iunlockput dp s) (\<lambda>s.
                     let s = upd_inode ip (\<lambda>x. x\<lparr>nlink := nlink x - 1\<rparr>) s in
                     andthen (iupdate ip s) (\<lambda>s.
                     andthen (iunlockput ip s) (\<lambda>s.
                     andthen (end_op s) (\<lambda>s. Ret (0, s)))))))))))))))"

definition sys_unlink :: "'a fss_scheme \<Rightarrow> (int \<times> 'a fss_scheme) outcome" where
  "sys_unlink s =
     andthen (argstr 0 s) (\<lambda>(path, s).
     case path of None \<Rightarrow> Ret (-1, s) | Some (_, path) \<Rightarrow> unlink path s)"

section \<open>Creating and opening\<close>

definition create :: "uchar list \<Rightarrow> ushort \<Rightarrow> ushort \<Rightarrow> ushort \<Rightarrow> 'a fss_scheme \<Rightarrow> (nat option \<times> 'a fss_scheme) outcome" where
  "create path ty mj mn s =
     andthen (nameiparent path (replicate DIRSIZ 0) s) (\<lambda>((dpp, name), s).
     case dpp of
       None \<Rightarrow> Ret (None, s)
     | Some dp \<Rightarrow>
         andthen (ilock (Some dp) s) (\<lambda>s.
         andthen (dirlookup dp name s) (\<lambda>(r, s).
         case r of
           Some (ip, _) \<Rightarrow>
             andthen (iunlockput dp s) (\<lambda>s.
             andthen (ilock (Some ip) s) (\<lambda>s.
             if ty = T_FILE \<and> itype (inodes s ! ip) = T_FILE then Ret (Some ip, s)
             else andthen (iunlockput ip s) (\<lambda>s. Ret (None, s))))
         | None \<Rightarrow>
             andthen (ialloc (idev (inodes s ! dp)) ty s) (\<lambda>(ip, s).
             andthen (ilock (Some ip) s) (\<lambda>s.
             let s = upd_inode ip (\<lambda>x. x\<lparr>major := mj, minor := mn, nlink := 1\<rparr>) s in
             andthen (iupdate ip s) (\<lambda>s.
             andthen (if ty = T_DIR then
                        let s = upd_inode dp (\<lambda>x. x\<lparr>nlink := nlink x + 1\<rparr>) s in
                        andthen (iupdate dp s) (\<lambda>s.
                        andthen (dirlink ip [0x2e, 0] (inum (inodes s ! ip)) s) (\<lambda>(r, s).
                        if r < 0 then Panic ''create dots''
                        else
                          andthen (dirlink ip [0x2e, 0x2e, 0] (inum (inodes s ! dp)) s) (\<lambda>(r, s).
                          if r < 0 then Panic ''create dots'' else Ret s)))
                      else Ret s) (\<lambda>s.
             andthen (dirlink dp name (inum (inodes s ! ip)) s) (\<lambda>(r, s).
             if r < 0 then Panic ''create: dirlink''
             else andthen (iunlockput dp s) (\<lambda>s. Ret (Some ip, s))))))))))"

text \<open>\<open>open_file\<close> is the part of \<open>sys_open\<close> that gives the locked inode a file and a descriptor.\<close>

definition open_file :: "nat \<Rightarrow> uint \<Rightarrow> 'a fss_scheme \<Rightarrow> (int \<times> 'a fss_scheme) outcome" where
  "open_file ip omode s =
     andthen (filealloc s) (\<lambda>(f, s).
     case f of
       None \<Rightarrow> andthen (iunlockput ip s) fail_op
     | Some f \<Rightarrow>
         andthen (fdalloc f s) (\<lambda>(fd, s).
         case fd of
           None \<Rightarrow> andthen (fileclose f s) (\<lambda>s. andthen (iunlockput ip s) fail_op)
         | Some fd \<Rightarrow>
             andthen (iunlock (Some ip) s) (\<lambda>s.
             andthen (end_op s) (\<lambda>s.
             let s = upd_file f (\<lambda>x. x\<lparr>ftype := FD_INODE, fip := Some ip, foff := 0,
                   readable := (omode AND O_WRONLY = 0),
                   writable := (omode AND O_WRONLY \<noteq> 0 \<or> omode AND O_RDWR \<noteq> 0)\<rparr>) s in
             Ret (int fd, s)))))"

definition openf :: "uchar list \<Rightarrow> uint \<Rightarrow> 'a fss_scheme \<Rightarrow> (int \<times> 'a fss_scheme) outcome" where
  "openf path omode s =
     andthen (begin_op s) (\<lambda>s.
     if omode AND O_CREATE \<noteq> 0 then
       andthen (create path T_FILE 0 0 s) (\<lambda>(ip, s).
       case ip of None \<Rightarrow> fail_op s | Some ip \<Rightarrow> open_file ip omode s)
     else
       andthen (namei path s) (\<lambda>(ip, s).
       case ip of
         None \<Rightarrow> fail_op s
       | Some ip \<Rightarrow>
           andthen (ilock (Some ip) s) (\<lambda>s.
           if itype (inodes s ! ip) = T_DIR \<and> omode \<noteq> 0 then andthen (iunlockput ip s) fail_op
           else open_file ip omode s)))"

definition sys_open :: "'a fss_scheme \<Rightarrow> (int \<times> 'a fss_scheme) outcome" where
  "sys_open s =
     andthen (argstr 0 s) (\<lambda>(path, s).
     case path of
       None \<Rightarrow> Ret (-1, s)
     | Some (_, path) \<Rightarrow>
         andthen (argint 1 s) (\<lambda>(omode, s).
         case omode of None \<Rightarrow> Ret (-1, s) | Some omode \<Rightarrow> openf path omode s))"

definition sys_mkdir :: "'a fss_scheme \<Rightarrow> (int \<times> 'a fss_scheme) outcome" where
  "sys_mkdir s =
     andthen (begin_op s) (\<lambda>s.
     andthen (argstr 0 s) (\<lambda>(path, s).
     case path of
       None \<Rightarrow> fail_op s
     | Some (_, path) \<Rightarrow>
         andthen (create path T_DIR 0 0 s) (\<lambda>(ip, s).
         case ip of
           None \<Rightarrow> fail_op s
         | Some ip \<Rightarrow> andthen (iunlockput ip s) (\<lambda>s. andthen (end_op s) (\<lambda>s. Ret (0, s))))))"

definition sys_mknod :: "'a fss_scheme \<Rightarrow> (int \<times> 'a fss_scheme) outcome" where
  "sys_mknod s =
     andthen (begin_op s) (\<lambda>s.
     andthen (argstr 0 s) (\<lambda>(path, s).
     case path of
       None \<Rightarrow> fail_op s
     | Some (_, path) \<Rightarrow>
         andthen (argint 1 s) (\<lambda>(mj, s).
         case mj of
           None \<Rightarrow> fail_op s
         | Some mj \<Rightarrow>
             andthen (argint 2 s) (\<lambda>(mn, s).
             case mn of
               None \<Rightarrow> fail_op s
             | Some mn \<Rightarrow>
                 andthen (create path T_DEV (ucast mj) (ucast mn) s) (\<lambda>(ip, s).
                 case ip of
                   None \<Rightarrow> fail_op s
                 | Some ip \<Rightarrow> andthen (iunlockput ip s) (\<lambda>s. andthen (end_op s) (\<lambda>s. Ret (0, s))))))))"

definition chdir :: "uchar list \<Rightarrow> nat \<Rightarrow> 'a fss_scheme \<Rightarrow> (int \<times> 'a fss_scheme) outcome" where
  "chdir path cur s =
     andthen (namei path s) (\<lambda>(ip, s).
     case ip of
       None \<Rightarrow> fail_op s
     | Some ip \<Rightarrow>
         andthen (ilock (Some ip) s) (\<lambda>s.
         if itype (inodes s ! ip) \<noteq> T_DIR then andthen (iunlockput ip s) fail_op
         else
           andthen (iunlock (Some ip) s) (\<lambda>s.
           case cwd (procs s ! cur) of
             None \<Rightarrow> Undef ''no current directory''
           | Some old \<Rightarrow>
               andthen (iput old s) (\<lambda>s.
               andthen (end_op s) (\<lambda>s.
               Ret (0, upd_proc cur (\<lambda>q. q\<lparr>cwd := Some ip\<rparr>) s))))))"

definition sys_chdir :: "'a fss_scheme \<Rightarrow> (int \<times> 'a fss_scheme) outcome" where
  "sys_chdir s =
     andthen (curproc s) (\<lambda>(cur, s).
     andthen (begin_op s) (\<lambda>s.
     andthen (argstr 0 s) (\<lambda>(path, s).
     case path of None \<Rightarrow> fail_op s | Some (_, path) \<Rightarrow> chdir path cur s)))"

text \<open>
  The loop of \<open>sys_exec\<close> over the argument vector in user memory: at most \<open>MAXARG\<close> entries, the last of
  which must be null.
\<close>

fun exec_argv :: "nat \<Rightarrow> uint \<Rightarrow> 'a pst_scheme \<Rightarrow> (uchar list list option \<times> 'a pst_scheme) outcome" where
  "exec_argv 0 a s = Ret (None, s)"
| "exec_argv (Suc k) a s =
     andthen (fetchint a s) (\<lambda>(uarg, s).
     case uarg of
       None \<Rightarrow> Ret (None, s)
     | Some u \<Rightarrow>
         if u = 0 then Ret (Some [], s)
         else
           andthen (fetchstr u s) (\<lambda>(str, s).
           case str of
             None \<Rightarrow> Ret (None, s)
           | Some (_, cs) \<Rightarrow>
               andthen (exec_argv k (a + 4) s) (\<lambda>(r, s).
               Ret (map_option (\<lambda>as. butlast cs # as) r, s))))"

definition sys_exec :: "'a fss_scheme \<Rightarrow> (int \<times> 'a fss_scheme) outcome" where
  "sys_exec s =
     andthen (argstr 0 s) (\<lambda>(path, s).
     case path of
       None \<Rightarrow> Ret (-1, s)
     | Some (_, path) \<Rightarrow>
         andthen (argint 1 s) (\<lambda>(uargv, s).
         case uargv of
           None \<Rightarrow> Ret (-1, s)
         | Some uargv \<Rightarrow>
             andthen (exec_argv MAXARG uargv s) (\<lambda>(argv, s).
             case argv of None \<Rightarrow> Ret (-1, s) | Some argv \<Rightarrow> exec path argv s)))"

definition sys_pipe :: "'a fss_scheme \<Rightarrow> (int \<times> 'a fss_scheme) outcome" where
  "sys_pipe s =
     andthen (argptr 0 8 s) (\<lambda>(fd, s).
     case fd of
       None \<Rightarrow> Ret (-1, s)
     | Some fd \<Rightarrow>
         andthen (pipealloc s) (\<lambda>(r, s).
         case r of
           None \<Rightarrow> Ret (-1, s)
         | Some (rfile, wfile) \<Rightarrow>
             let close = (\<lambda>s. andthen (fileclose rfile s) (\<lambda>s. andthen (fileclose wfile s) (\<lambda>s. Ret (-1, s)))) in
             andthen (fdalloc rfile s) (\<lambda>(fd0, s).
             case fd0 of
               None \<Rightarrow> close s
             | Some fd0 \<Rightarrow>
                 andthen (fdalloc wfile s) (\<lambda>(fd1, s).
                 case fd1 of
                   None \<Rightarrow>
                     andthen (curproc s) (\<lambda>(p, s).
                     close (upd_proc p (\<lambda>q. q\<lparr>ofile := (ofile q)[fd0 := None]\<rparr>) s))
                 | Some fd1 \<Rightarrow>
                     andthen (store_user fd (bytes32 (of_nat fd0)) s) (\<lambda>s.
                     andthen (store_user (fd + 4) (bytes32 (of_nat fd1)) s) (\<lambda>s. Ret (0, s)))))))"

section \<open>Dispatch\<close>

text \<open>The table of system calls, with the numbers of \<^verbatim>\<open>syscall.h\<close>; \<open>None\<close> is an unknown number.\<close>

definition syscalls :: "int \<Rightarrow> 'a kern_scheme \<Rightarrow> (int \<times> 'a kern_scheme) outcome option" where
  "syscalls num s =
     (if num = 1 then Some (sys_fork s)
      else if num = 2 then Some (sys_exit s)
      else if num = 3 then Some (sys_wait s)
      else if num = 4 then Some (sys_pipe s)
      else if num = 5 then Some (sys_read s)
      else if num = 6 then Some (sys_kill s)
      else if num = 7 then Some (sys_exec s)
      else if num = 8 then Some (sys_fstat s)
      else if num = 9 then Some (sys_chdir s)
      else if num = 10 then Some (sys_dup s)
      else if num = 11 then Some (sys_getpid s)
      else if num = 12 then Some (sys_sbrk s)
      else if num = 13 then Some (sys_sleep s)
      else if num = 14 then Some (sys_uptime s)
      else if num = 15 then Some (sys_open s)
      else if num = 16 then Some (sys_write s)
      else if num = 17 then Some (sys_mknod s)
      else if num = 18 then Some (sys_unlink s)
      else if num = 19 then Some (sys_link s)
      else if num = 20 then Some (sys_mkdir s)
      else if num = 21 then Some (sys_close s)
      else if num = 22 then Some (sys_walkpt s)
      else None)"

definition set_eax :: "nat \<Rightarrow> int \<Rightarrow> 'a pst_scheme \<Rightarrow> 'a pst_scheme" where
  "set_eax p r s = s\<lparr>mem := st32 (mem s) (tf (procs s ! p) + tf_eax) (of_int r)\<rparr>"

definition syscall :: "'a kern_scheme \<Rightarrow> 'a kern_scheme outcome" where
  "syscall s =
     andthen (curproc s) (\<lambda>(p, s).
     let num = sint (ld32 (mem s) (tf (procs s ! p) + tf_eax)) in
     case syscalls num s of
       Some m \<Rightarrow> andthen m (\<lambda>(r, s). Ret (set_eax p r s))
     | None \<Rightarrow>
         andthen (cprintf (\<lambda>_. bytes_string (pname (procs s ! p)))
            (''%d %s: unknown sys call %d'' @ [CHR 0x0A]) [of_int (pid (procs s ! p)), 1, of_int num] s) (\<lambda>s.
         Ret (set_eax p (-1) s)))"

end
