(* ===== verification/Trap.thy ===== *)
theory Trap
  imports Sysfile
begin

text \<open>
  Traps, \<^verbatim>\<open>trap.c\<close>.  The entry code is assembly and hands over the address of the trap frame.  What a
  device delivers with its interrupt is an argument: the characters of the keyboard or of the
  serial line, and the faulting address that the hardware keeps in \<open>cr2\<close>.  The argument \<open>others\<close> stands for the scheduler and the other processes, from the switch
  in \<open>yield\<close> until the process is switched to again.
\<close>

unbundle bit_operations_syntax

definition T_SYSCALL :: uint where "T_SYSCALL = 64"
definition T_IRQ0 :: uint where "T_IRQ0 = 32"
definition IRQ_TIMER :: uint where "IRQ_TIMER = 0"
definition IRQ_KBD :: uint where "IRQ_KBD = 1"
definition IRQ_COM1 :: uint where "IRQ_COM1 = 4"
definition IRQ_IDE :: uint where "IRQ_IDE = 14"
definition IRQ_SPURIOUS :: uint where "IRQ_SPURIOUS = 31"

text \<open>\<open>vectors\<close> is the array of entry points that \<^verbatim>\<open>vectors.pl\<close> generates.\<close>

definition tvinit :: "(nat \<Rightarrow> uint) \<Rightarrow> 'a kern_scheme \<Rightarrow> 'a kern_scheme" where
  "tvinit vectors s =
     (let s = s\<lparr>idt := map (\<lambda>i. SETGATE False (of_nat (SEG_KCODE * 8)) (vectors i) 0) [0..<256]\<rparr>;
          s = s\<lparr>idt := (idt s)[unat T_SYSCALL := SETGATE True (of_nat (SEG_KCODE * 8)) (vectors (unat T_SYSCALL)) DPL_USER]\<rparr> in
      s\<lparr>locks := (locks s)(TicksLock := initlock ''time'')\<rparr>)"

definition exit_if_killed :: "'a fss_scheme \<Rightarrow> 'a fss_scheme outcome" where
  "exit_if_killed s =
     andthen (curproc s) (\<lambda>(p, s). if killed (procs s ! p) then exit s else Ret s)"

definition trap_syscall :: "uint \<Rightarrow> 'a kern_scheme \<Rightarrow> 'a kern_scheme outcome" where
  "trap_syscall frame s =
     andthen (exit_if_killed s) (\<lambda>s.
     andthen (curproc s) (\<lambda>(p, s).
     let s = upd_proc p (\<lambda>q. q\<lparr>tf := frame\<rparr>) s in
     andthen (syscall s) exit_if_killed))"

definition timer_tick :: "'a kern_scheme \<Rightarrow> 'a kern_scheme outcome" where
  "timer_tick s =
     andthen (cpuid s) (\<lambda>c.
     if c = 0 then
       andthen (acquire_at TicksLock s) (\<lambda>s.
       let s = s\<lparr>ticks := ticks s + 1\<rparr> in
       andthen (wakeup ChTicks s) (release_at TicksLock))
     else Ret s)"

text \<open>From user space: the low bits of the saved code segment are the privilege level.\<close>

definition from_user :: "uint \<Rightarrow> 'a kst_scheme \<Rightarrow> bool" where
  "from_user frame s \<longleftrightarrow> ucast (ld16 (mem s) (frame + tf_cs)) AND 3 = DPL_USER"

definition from_kernel :: "uint \<Rightarrow> 'a kst_scheme \<Rightarrow> bool" where
  "from_kernel frame s \<longleftrightarrow> (ucast (ld16 (mem s) (frame + tf_cs)) :: uint) AND 3 = 0"

definition trap_switch :: "uint \<Rightarrow> uint \<Rightarrow> int list \<Rightarrow> 'a kern_scheme \<Rightarrow> 'a kern_scheme outcome" where
  "trap_switch cr2 frame chars s =
     (let n = ld32 (mem s) (frame + tf_trapno) in
      if n = T_IRQ0 + IRQ_TIMER then timer_tick s
      else if n = T_IRQ0 + IRQ_IDE then Ret s
      else if n = T_IRQ0 + IRQ_IDE + 1 then Ret s
      else if n = T_IRQ0 + IRQ_KBD \<or> n = T_IRQ0 + IRQ_COM1 then consoleintr chars s
      else if n = T_IRQ0 + 7 \<or> n = T_IRQ0 + IRQ_SPURIOUS then
        andthen (cpuid s) (\<lambda>c.
        cprintf (\<lambda>_. '''') (''cpu%d: spurious interrupt at %x:%x'' @ [CHR 0x0A])
          [of_nat c, ucast (ld16 (mem s) (frame + tf_cs)), ld32 (mem s) (frame + tf_eip)] s)
      else
        andthen (myproc s) (\<lambda>(p, s).
        case p of
          None \<Rightarrow> Panic ''trap''
        | Some p \<Rightarrow>
            if from_kernel frame s then Panic ''trap''
            else
              andthen (cpuid s) (\<lambda>c.
              andthen (cprintf (\<lambda>_. bytes_string (pname (procs s ! p)))
                (''pid %d %s: trap %d err %d on cpu %d eip 0x%x addr 0x%x--kill proc'' @ [CHR 0x0A])
                [of_int (pid (procs s ! p)), 1, n, ld32 (mem s) (frame + tf_err), of_nat c,
                 ld32 (mem s) (frame + tf_eip), cr2] s) (\<lambda>s.
              Ret (upd_proc p (\<lambda>q. q\<lparr>killed := True\<rparr>) s)))))"

definition exit_if_user_killed :: "uint \<Rightarrow> 'a fss_scheme \<Rightarrow> 'a fss_scheme outcome" where
  "exit_if_user_killed frame s =
     andthen (myproc s) (\<lambda>(p, s).
     case p of
       None \<Rightarrow> Ret s
     | Some p \<Rightarrow> if killed (procs s ! p) \<and> from_user frame s then exit s else Ret s)"

definition yield :: "(bool \<times> 'a pst_scheme \<Rightarrow> 'a pst_scheme outcome) \<Rightarrow> 'a pst_scheme \<Rightarrow> 'a pst_scheme outcome" where
  "yield others s =
     andthen (yield_enter s) (\<lambda>(ie, s). andthen (others (ie, s)) (yield_return ie))"


definition trap :: "(bool \<times> 'a kern_scheme \<Rightarrow> 'a kern_scheme outcome) \<Rightarrow> uint \<Rightarrow> uint \<Rightarrow> int list \<Rightarrow>
    'a kern_scheme \<Rightarrow> 'a kern_scheme outcome" where
  "trap others cr2 frame chars s =
     (if ld32 (mem s) (frame + tf_trapno) = T_SYSCALL then trap_syscall frame s
      else
        andthen (trap_switch cr2 frame chars s) (\<lambda>s.
        andthen (exit_if_user_killed frame s) (\<lambda>s.
        andthen (myproc s) (\<lambda>(p, s).
        andthen (case p of
                   None \<Rightarrow> Ret s
                 | Some p \<Rightarrow>
                     if pstate (procs s ! p) = RUNNING \<and> ld32 (mem s) (frame + tf_trapno) = T_IRQ0 + IRQ_TIMER
                     then yield others s else Ret s) (\<lambda>s.
        exit_if_user_killed frame s)))))"

end
