(* ===== verification/Grep.thy ===== *)
theory Grep
  imports Prelude
begin

text \<open>
  The user program \<^verbatim>\<open>grep.c\<close>: the regular-expression matcher of Kernighan and Pike, and the loop that
  splits its input into lines.  A C string is the list of its characters before the final NUL, so
  \<open>*text == 0\<close> is the empty list.  The reference semantics gives a pattern the language of a list of
  items, and \<open>match\<close> decides it.
\<close>

section \<open>The matcher\<close>

text \<open>
  \<open>matchstar\<close> loops over the text with the same pattern, and \<open>matchhere\<close> calls it with a shorter
  one: the pattern, the text and the function's rank decrease lexicographically.
\<close>

function (sequential) matchhere :: "string \<Rightarrow> string \<Rightarrow> bool" and matchstar :: "char \<Rightarrow> string \<Rightarrow> string \<Rightarrow> bool" where
  "matchhere [] str = True"
| "matchhere (c # re) str =
     (if re \<noteq> [] \<and> hd re = CHR ''*'' then matchstar c (tl re) str
      else if c = CHR ''$'' \<and> re = [] then str = []
      else if str \<noteq> [] \<and> (c = CHR ''.'' \<or> c = hd str) then matchhere re (tl str)
      else False)"
| "matchstar c re str =
     (if matchhere re str then True
      else case str of [] \<Rightarrow> False | t # ts \<Rightarrow> if t = c \<or> c = CHR ''.'' then matchstar c re ts else False)"
  by pat_completeness auto

termination
  by (relation "measures [\<lambda>x. case x of Inl (re, str) \<Rightarrow> length re | Inr (c, re, str) \<Rightarrow> length re,
        \<lambda>x. case x of Inl (re, str) \<Rightarrow> length str | Inr (c, re, str) \<Rightarrow> length str,
        \<lambda>x. case x of Inl _ \<Rightarrow> 0 | Inr _ \<Rightarrow> 1]") auto

declare matchhere.simps(2) [simp del] matchstar.simps [simp del]

fun match_loop :: "string \<Rightarrow> string \<Rightarrow> bool" where
  "match_loop re str = (if matchhere re str then True else case str of [] \<Rightarrow> False | t # ts \<Rightarrow> match_loop re ts)"

declare match_loop.simps [simp del]

definition match :: "string \<Rightarrow> string \<Rightarrow> bool" where
  "match re str = (if re \<noteq> [] \<and> hd re = CHR ''^'' then matchhere (tl re) str else match_loop re str)"

section \<open>Lines\<close>

definition NUL :: char where "NUL = CHR 0x00"
definition NL :: char where "NL = CHR 0x0A"

fun strchr :: "string \<Rightarrow> char \<Rightarrow> nat option" where
  "strchr [] c = None"
| "strchr (a # s) c = (if a = NUL then None else if a = c then Some 0 else map_option Suc (strchr s c))"

lemma strchr_Some: "strchr s c = Some k \<Longrightarrow> k < length s \<and> s ! k = c"
  by (induction s c arbitrary: k rule: strchr.induct) (auto split: if_splits)

text \<open>
  The inner loop of \<open>grep\<close> on the buffer from \<open>p\<close> on: the output and the rest from which no newline
  can be found.  The NUL written over the newline ends the text that is matched.
\<close>

function grep_lines :: "string \<Rightarrow> string \<Rightarrow> string \<times> string" where
  "grep_lines pattern p =
     (case strchr p NL of
        None \<Rightarrow> ([], p)
      | Some k \<Rightarrow>
          let line = take k p; (out, rest) = grep_lines pattern (drop (Suc k) p) in
          (if match pattern (takeWhile (\<lambda>c. c \<noteq> NUL) line) then line @ [NL] @ out else out, rest))"
  by pat_completeness auto

termination
  by (relation "measure (\<lambda>(pattern, p). length p)") (auto dest: strchr_Some)

declare grep_lines.simps [simp del]

text \<open>
  The outer loop.  The input is the list of the pieces in which \<open>read\<close> will deliver it; a read takes
  at most the free part of the 1024-byte buffer, of which one byte is kept for the NUL, and
  nothing when there is no room.  \<open>buf\<close> is the first \<open>m\<close> bytes of the buffer.
\<close>

function grep :: "string \<Rightarrow> string \<Rightarrow> string list \<Rightarrow> string" where
  "grep pattern buf [] = []"
| "grep pattern buf (piece # pieces) =
     (let n = 1023 - length buf; got = take n piece; left = drop n piece in
      if got = [] then []
      else
        let buf = buf @ got; (out, p) = grep_lines pattern buf;
            buf = (if length p = length buf then [] else p) in
        out @ grep pattern buf (if left = [] then pieces else left # pieces))"
  by pat_completeness auto

termination
  by (relation "measure (\<lambda>(pattern, buf, pieces). length (concat pieces) + length pieces)") auto

declare grep.simps(2) [simp del]

section \<open>The language of a pattern\<close>

datatype item = Item char bool

definition fits :: "char \<Rightarrow> char \<Rightarrow> bool" where
  "fits c a \<longleftrightarrow> c = CHR ''.'' \<or> c = a"

fun items :: "string \<Rightarrow> item list" where
  "items [] = []"
| "items [c] = (if c = CHR ''$'' then [] else [Item c False])"
| "items (c # d # re) = (if d = CHR ''*'' then Item c True # items re else Item c False # items (d # re))"

fun anchored :: "string \<Rightarrow> bool" where
  "anchored [] = False"
| "anchored [c] = (c = CHR ''$'')"
| "anchored (c # d # re) = (if d = CHR ''*'' then anchored re else anchored (d # re))"

fun lang :: "item list \<Rightarrow> string set" where
  "lang [] = {[]}"
| "lang (Item c False # is) = {a # w |a w. fits c a \<and> w \<in> lang is}"
| "lang (Item c True # is) = {u @ w |u w. (\<forall>a\<in>set u. fits c a) \<and> w \<in> lang is}"

definition prefix_match :: "string \<Rightarrow> string \<Rightarrow> bool" where
  "prefix_match re str \<longleftrightarrow> (\<exists>u v. str = u @ v \<and> u \<in> lang (items re) \<and> (anchored re \<longrightarrow> v = []))"

lemma prefix_match_Nil [simp]: "prefix_match [] str"
  by (simp add: prefix_match_def)

lemma prefix_match_star:
  "prefix_match (c # CHR ''*'' # re) str \<longleftrightarrow> (\<exists>u v. str = u @ v \<and> (\<forall>a\<in>set u. fits c a) \<and> prefix_match re v)"
proof
  assume "prefix_match (c # CHR ''*'' # re) str"
  then obtain x v where x: "str = x @ v" "x \<in> lang (Item c True # items re)" "anchored re \<longrightarrow> v = []"
    unfolding prefix_match_def items.simps anchored.simps if_P [OF refl] by blast
  then obtain u w where "x = u @ w" "\<forall>a\<in>set u. fits c a" "w \<in> lang (items re)" unfolding lang.simps by blast
  with x show "\<exists>u v. str = u @ v \<and> (\<forall>a\<in>set u. fits c a) \<and> prefix_match re v"
    unfolding prefix_match_def by (intro exI [of _ u] exI [of _ "w @ v"]) auto
next
  assume "\<exists>u v. str = u @ v \<and> (\<forall>a\<in>set u. fits c a) \<and> prefix_match re v"
  then obtain u w v where "str = u @ (w @ v)" "\<forall>a\<in>set u. fits c a" "w \<in> lang (items re)" "anchored re \<longrightarrow> v = []"
    unfolding prefix_match_def by blast
  then show "prefix_match (c # CHR ''*'' # re) str"
    unfolding prefix_match_def by (intro exI [of _ "u @ w"] exI [of _ v]) auto
qed

lemma prefix_match_end: "prefix_match [CHR ''$''] str \<longleftrightarrow> str = []"
  by (simp add: prefix_match_def)

lemma prefix_match_char:
  assumes "\<not> (re \<noteq> [] \<and> hd re = CHR ''*'')" and "\<not> (c = CHR ''$'' \<and> re = [])"
  shows "prefix_match (c # re) str \<longleftrightarrow> (\<exists>a ts. str = a # ts \<and> fits c a \<and> prefix_match re ts)"
proof -
  have e: "items (c # re) = Item c False # items re" "anchored (c # re) = anchored re"
    using assms by (cases re; simp)+
  show ?thesis
  proof
    assume "prefix_match (c # re) str"
    then obtain x v where x: "str = x @ v" "x \<in> lang (Item c False # items re)" "anchored re \<longrightarrow> v = []"
      unfolding prefix_match_def e by blast
    then obtain a w where "x = a # w" "fits c a" "w \<in> lang (items re)" unfolding lang.simps by blast
    with x show "\<exists>a ts. str = a # ts \<and> fits c a \<and> prefix_match re ts"
      unfolding prefix_match_def by (intro exI [of _ a] exI [of _ "w @ v"]) auto
  next
    assume "\<exists>a ts. str = a # ts \<and> fits c a \<and> prefix_match re ts"
    then obtain a w v where "str = a # w @ v" "fits c a" "w \<in> lang (items re)" "anchored re \<longrightarrow> v = []"
      unfolding prefix_match_def by blast
    then show "prefix_match (c # re) str"
      unfolding prefix_match_def e by (intro exI [of _ "a # w"] exI [of _ v]) auto
  qed
qed

lemma matchhere_prefix_match:
  "matchhere re str \<longleftrightarrow> prefix_match re str"
  "matchstar c re str \<longleftrightarrow> prefix_match (c # CHR ''*'' # re) str"
proof (induction re str and c re str rule: matchhere_matchstar.induct)
  case (1 str)
  then show ?case by simp
next
  case (2 c re str)
  show ?case
  proof (cases "re \<noteq> [] \<and> hd re = CHR ''*''")
    case True
    then have "c # re = c # CHR ''*'' # tl re" by (cases re) auto
    with True 2(1) show ?thesis by (simp add: matchhere.simps(2))
  next
    case star: False
    show ?thesis
    proof (cases "c = CHR ''$'' \<and> re = []")
      case True
      then show ?thesis by (simp add: prefix_match_end matchhere.simps(2))
    next
      case False
      show ?thesis
        unfolding prefix_match_char [OF star False]
        using 2(2) [OF star False] star False by (cases str) (auto simp: fits_def matchhere.simps(2))
    qed
  qed
next
  case (3 c re str)
  have "prefix_match (c # CHR ''*'' # re) str \<longleftrightarrow>
      prefix_match re str \<or> (\<exists>t ts. str = t # ts \<and> fits c t \<and> prefix_match (c # CHR ''*'' # re) ts)"
  proof
    assume "prefix_match (c # CHR ''*'' # re) str"
    then obtain u v where u: "str = u @ v" "\<forall>a\<in>set u. fits c a" "prefix_match re v" unfolding prefix_match_star by blast
    then show "prefix_match re str \<or> (\<exists>t ts. str = t # ts \<and> fits c t \<and> prefix_match (c # CHR ''*'' # re) ts)"
      unfolding prefix_match_star by (cases u) auto
  next
    assume "prefix_match re str \<or> (\<exists>t ts. str = t # ts \<and> fits c t \<and> prefix_match (c # CHR ''*'' # re) ts)"
    then consider "prefix_match re str" | t u v where "str = t # u @ v" "fits c t" "\<forall>a\<in>set u. fits c a" "prefix_match re v"
      unfolding prefix_match_star by blast
    then show "prefix_match (c # CHR ''*'' # re) str"
    proof cases
      case 1
      then show ?thesis unfolding prefix_match_star by (intro exI [of _ "[]"] exI [of _ str]) simp
    next
      case (2 t u v)
      then show ?thesis unfolding prefix_match_star by (intro exI [of _ "t # u"] exI [of _ v]) simp
    qed
  qed
  then show ?case
    using 3 by (cases str) (auto simp: fits_def matchstar.simps [of c re])
qed

section \<open>Lines of the input\<close>

fun split_lines :: "string \<Rightarrow> string list \<times> string" where
  "split_lines [] = ([], [])"
| "split_lines (c # s) =
     (let (ls, r) = split_lines s in
      if c = NL then ([] # ls, r) else case ls of [] \<Rightarrow> ([], c # r) | l # ls' \<Rightarrow> ((c # l) # ls', r))"






lemma split_lines_snd: "snd (split_lines (s @ NL # t)) = snd (split_lines t)"
proof (induction s)
  case (Cons c s)
  have "fst (split_lines (s @ NL # t)) \<noteq> []"
    by (induction s) (auto simp: case_prod_unfold Let_def split: list.splits)
  with Cons show ?case by (auto simp: case_prod_unfold Let_def split: list.splits)
qed (simp add: case_prod_unfold Let_def)







section \<open>Properties\<close>

text \<open>
  C31: the matcher decides the language of the pattern: a pattern that starts with \<^verbatim>\<open>^\<close> matches when the rest
  matches at the start of the text, any other pattern when it matches at some position.  A match at
  a position is a prefix of the remaining text in the language of the pattern's items, the whole
  remaining text if the pattern ends in \<^verbatim>\<open>$\<close>.
\<close>

theorem match_correct:
  "match re str \<longleftrightarrow>
     (if re \<noteq> [] \<and> hd re = CHR ''^'' then prefix_match (tl re) str
      else \<exists>before after. str = before @ after \<and> prefix_match re after)"
proof -
  have "match_loop re str \<longleftrightarrow> (\<exists>before after. str = before @ after \<and> prefix_match re after)" for re
  proof (induction str)
    case Nil
    then show ?case by (simp add: match_loop.simps matchhere_prefix_match)
  next
    case (Cons t ts)
    have "(\<exists>before after. t # ts = before @ after \<and> prefix_match re after) \<longleftrightarrow>
        prefix_match re (t # ts) \<or> (\<exists>before after. ts = before @ after \<and> prefix_match re after)"
      by (auto simp: Cons_eq_append_conv)
    with Cons show ?case by (simp add: match_loop.simps [of re "t # ts"] matchhere_prefix_match)
  qed
  then show ?thesis by (simp add: match_def matchhere_prefix_match)
qed



text \<open>
  C33: \<open>grep\<close> loses the beginning of a line.  When a read returns a piece without a newline while the buffer is
  empty, the piece is thrown away, whatever the pattern and whatever follows: the output is as if the
  piece had not been part of the input.
\<close>

theorem grep_loses_partial_line:
  assumes "piece \<noteq> []" and "length piece \<le> 1023" and "NL \<notin> set piece"
  shows "grep pattern [] (piece # pieces) = grep pattern [] pieces"
proof -
  have "strchr p NL = None" if "NL \<notin> set p" for p using that by (induction p) auto
  then have "grep_lines pattern piece = ([], piece)" using assms(3) by (simp add: grep_lines.simps)
  then show ?thesis using assms(1,2) by (simp add: grep.simps(2) Let_def)
qed

text \<open>The line \<^verbatim>\<open>abc\<close>, delivered in two pieces, is not printed for the pattern \<^verbatim>\<open>ab\<close>.\<close>

theorem grep_loses_partial_line_witness:
  "grep ''ab'' [] [''ab'', ''c'' @ [NL]] = [] \<and> grep ''ab'' [] [''abc'' @ [NL]] = ''abc'' @ [NL]"
proof -
  have "grep ''ab'' [] [''ab'', ''c'' @ [NL]] = grep ''ab'' [] [''c'' @ [NL]]"
    by (rule grep_loses_partial_line) (simp_all add: NL_def)
  then show ?thesis
    by (simp add: grep.simps(2) grep_lines.simps match_def match_loop.simps matchhere.simps(2) NL_def NUL_def Let_def)
qed

end
