(* ===== verification/User.thy ===== *)
theory User
  imports Cstring Format Grep
begin

text \<open>
  User programs as trees of system calls.  A program that runs in user mode meets the kernel only
  through its calls, so it is the tree of what it asks for and how it goes on with each answer.
  \<open>Call c k\<close> performs \<open>c\<close> and continues with \<open>k\<close> applied to the answer; a successful \<open>exec\<close> does not
  come back.  \<open>Stuck\<close> is undefined behaviour of the program, \<open>Spin\<close> marks a loop whose fuel is used up.
\<close>

section \<open>System calls and programs\<close>

datatype call =
    SFork | SWait | SPipe
  | SRead int nat | SWrite int string | SClose int | SDup int
  | SOpen string uint | SExec string "string list" | SChdir string
  | SKill int | SLink string string | SUnlink string | SMkdir string | SMknod string nat nat
  | SFstat int | SSleep int

text \<open>
  The answer to a call: the value returned, the bytes a \<open>read\<close> stored, the descriptors a \<open>pipe\<close>
  stored, and the type, inode number and size an \<open>fstat\<close> stored.
\<close>

record resp =
  rval :: int
  rbuf :: string
  rfds :: "int \<times> int"
  rstat :: "int \<times> int \<times> int"

datatype prog = Exit | Stuck string | Spin | Call call "resp \<Rightarrow> prog"

text \<open>
  \<open>printf\<close> writes its characters one by one with \<open>write\<close> and ignores the answers; \<open>say fd str k\<close> stands for
  the calls that write \<open>str\<close>.
\<close>

definition say :: "int \<Rightarrow> string \<Rightarrow> prog \<Rightarrow> prog" where
  "say fd str k = Call (SWrite fd str) (\<lambda>_. k)"

text \<open>The string at position \<open>p\<close> of a buffer.\<close>

definition str_from :: "string \<Rightarrow> nat \<Rightarrow> string" where
  "str_from buf p = takeWhile (\<lambda>c. c \<noteq> NUL) (drop p buf)"

definition deref :: "string \<Rightarrow> nat \<Rightarrow> char outcome" where
  "deref buf p = (if p < length buf then Ret (buf ! p) else Undef ''out of bounds'')"

definition str_len :: "string \<Rightarrow> nat outcome" where
  "str_len buf = (if NUL \<in> set buf then Ret (length (str_from buf 0)) else Undef ''out of bounds'')"

lemma deref_Ret [simp]: "p < length buf \<Longrightarrow> deref buf p = Ret (buf ! p)"
  by (simp add: deref_def)

lemma str_from_append: "NUL \<notin> set str \<Longrightarrow> str_from (str @ NUL # junk) 0 = str"
  by (induction str) (auto simp: str_from_def)

lemma strchr_in: "NUL \<notin> set str \<Longrightarrow> strchr str c \<noteq> None \<longleftrightarrow> c \<in> set str"
  by (induction str) auto

end
