(* ===== verification/Sh.thy ===== *)
theory Sh
  imports User
begin

text \<open>
  The shell, \<^verbatim>\<open>sh.c\<close>.  Positions in the line buffer are the pointers of the parser.  The commands
  that the constructors allocate live in a heap, a list of nodes; address 0 is null and address
  \<open>p\<close> is entry \<open>p - 1\<close>.  The constructors do not check what \<open>malloc\<close> returns: when there is no memory they write
  through a null pointer, which is undefined.  \<open>lim\<close> is the number of nodes there is memory for, \<open>None\<close> if it is not
  limited.  A call of the shell's own \<open>panic\<close> ends the parser with \<open>Panic\<close>.
\<close>

section \<open>Commands\<close>

definition MAXARGS :: nat where "MAXARGS = 10"

datatype node =
    Execcmd (argv: "nat option list") (eargv: "nat option list")
  | Redircmd nat nat nat uint int
  | Pipecmd nat nat
  | Listcmd nat nat
  | Backcmd nat

type_synonym cmds = "node list"

definition cmd_at :: "cmds \<Rightarrow> nat \<Rightarrow> node outcome" where
  "cmd_at h p = (if p \<noteq> 0 \<and> p \<le> length h then Ret (h ! (p - 1)) else Undef ''wild pointer'')"

definition mem_left :: "nat option \<Rightarrow> cmds \<Rightarrow> bool" where
  "mem_left lim h = (case lim of None \<Rightarrow> True | Some n \<Rightarrow> length h < n)"

text \<open>\<open>malloc\<close> and \<open>memset\<close> of a constructor, followed by the assignments that make the node \<open>n\<close>.\<close>

definition alloc_cmd :: "nat option \<Rightarrow> node \<Rightarrow> cmds \<Rightarrow> (nat \<times> cmds) outcome" where
  "alloc_cmd lim n h = (if mem_left lim h then Ret (Suc (length h), h @ [n]) else Undef ''null pointer'')"

definition execcmd :: "nat option \<Rightarrow> cmds \<Rightarrow> (nat \<times> cmds) outcome" where
  "execcmd lim h = alloc_cmd lim (Execcmd (replicate MAXARGS None) (replicate MAXARGS None)) h"

definition redircmd :: "nat option \<Rightarrow> nat \<Rightarrow> nat \<Rightarrow> nat \<Rightarrow> uint \<Rightarrow> int \<Rightarrow> cmds \<Rightarrow> (nat \<times> cmds) outcome" where
  "redircmd lim subcmd f ef mode fd h = alloc_cmd lim (Redircmd subcmd f ef mode fd) h"

definition pipecmd :: "nat option \<Rightarrow> nat \<Rightarrow> nat \<Rightarrow> cmds \<Rightarrow> (nat \<times> cmds) outcome" where
  "pipecmd lim left right h = alloc_cmd lim (Pipecmd left right) h"

definition listcmd :: "nat option \<Rightarrow> nat \<Rightarrow> nat \<Rightarrow> cmds \<Rightarrow> (nat \<times> cmds) outcome" where
  "listcmd lim left right h = alloc_cmd lim (Listcmd left right) h"

definition backcmd :: "nat option \<Rightarrow> nat \<Rightarrow> cmds \<Rightarrow> (nat \<times> cmds) outcome" where
  "backcmd lim subcmd h = alloc_cmd lim (Backcmd subcmd) h"

section \<open>Tokens\<close>

definition whitespace :: string where
  "whitespace = [CHR '' '', CHR 0x09, CHR 0x0D, CHR 0x0A, CHR 0x0B]"

definition symbols :: string where "symbols = ''<|>&;()''"

definition white :: "char \<Rightarrow> bool" where "white c \<longleftrightarrow> strchr whitespace c \<noteq> None"

definition wordc :: "char \<Rightarrow> bool" where
  "wordc c \<longleftrightarrow> strchr whitespace c = None \<and> strchr symbols c = None"

text \<open>The loops \<open>while(s < es && P(*s)) s++\<close>.\<close>

function skip :: "(char \<Rightarrow> bool) \<Rightarrow> string \<Rightarrow> nat \<Rightarrow> nat \<Rightarrow> nat outcome" where
  "skip P buf es s =
     (if s < es then andthen (deref buf s) (\<lambda>c. if P c then skip P buf es (Suc s) else Ret s) else Ret s)"
  by pat_completeness auto

termination
  by (relation "measure (\<lambda>(P, buf, es, s). es - s)") auto

declare skip.simps [simp del]

text \<open>\<open>gettoken\<close> returns the token, the positions where its text begins and ends, and the new \<open>*ps\<close>.\<close>

definition gettoken :: "string \<Rightarrow> nat \<Rightarrow> nat \<Rightarrow> (char \<times> nat \<times> nat \<times> nat) outcome" where
  "gettoken buf es s =
     andthen (skip white buf es s) (\<lambda>q.
     andthen (deref buf q) (\<lambda>c.
     andthen (if c = NUL then Ret (c, q)
              else if c \<in> set ''|();&<'' then Ret (c, Suc q)
              else if c = CHR ''>'' then
                andthen (deref buf (Suc q)) (\<lambda>d.
                if d = CHR ''>'' then Ret (CHR ''+'', Suc (Suc q)) else Ret (c, Suc q))
              else andthen (skip wordc buf es q) (\<lambda>s. Ret (CHR ''a'', s))) (\<lambda>(ret, eq).
     andthen (skip white buf es eq) (\<lambda>s. Ret (ret, q, eq, s)))))"

definition peek :: "string \<Rightarrow> nat \<Rightarrow> nat \<Rightarrow> string \<Rightarrow> (bool \<times> nat) outcome" where
  "peek buf es s toks =
     andthen (skip white buf es s) (\<lambda>s.
     andthen (deref buf s) (\<lambda>c. Ret (c \<noteq> NUL \<and> strchr toks c \<noteq> None, s)))"

section \<open>The parser\<close>

text \<open>
  A parsing function takes the heap and \<open>*ps\<close> and returns the command with the new heap and \<open>*ps\<close>.
  Every call and every round of a loop takes one unit of fuel.
\<close>

fun parseredirs :: "nat option \<Rightarrow> nat \<Rightarrow> string \<Rightarrow> nat \<Rightarrow> nat \<Rightarrow> cmds \<Rightarrow> nat \<Rightarrow> (nat \<times> cmds \<times> nat) outcome" where
  "parseredirs lim 0 buf es cmd h s = Diverge"
| "parseredirs lim (Suc fuel) buf es cmd h s =
     andthen (peek buf es s ''<>'') (\<lambda>(more, s).
     if \<not> more then Ret (cmd, h, s)
     else
       andthen (gettoken buf es s) (\<lambda>(tok, _, _, s).
       andthen (gettoken buf es s) (\<lambda>(t, q, eq, s).
       if t \<noteq> CHR ''a'' then Panic ''missing file for redirection''
       else
         andthen (if tok = CHR ''<'' then redircmd lim cmd q eq O_RDONLY 0 h
                  else if tok = CHR ''>'' then redircmd lim cmd q eq (O_WRONLY OR O_CREATE) 1 h
                  else if tok = CHR ''+'' then redircmd lim cmd q eq (O_WRONLY OR O_CREATE) 1 h
                  else Ret (cmd, h)) (\<lambda>(cmd, h).
         parseredirs lim fuel buf es cmd h s))))"

text \<open>\<open>cmd->argv[argc] = q; cmd->eargv[argc] = eq\<close>.\<close>

definition set_arg :: "nat \<Rightarrow> nat \<Rightarrow> nat option \<Rightarrow> nat option \<Rightarrow> cmds \<Rightarrow> cmds outcome" where
  "set_arg cmd argc q eq h =
     andthen (cmd_at h cmd) (\<lambda>n.
     case n of
       Execcmd av ev \<Rightarrow>
         if argc < MAXARGS then Ret (h[cmd - 1 := Execcmd (av[argc := q]) (ev[argc := eq])])
         else Undef ''argv overflow''
     | _ \<Rightarrow> Undef ''wrong type'')"

fun parseexec_loop :: "nat option \<Rightarrow> nat \<Rightarrow> string \<Rightarrow> nat \<Rightarrow> nat \<Rightarrow> nat \<Rightarrow> nat \<Rightarrow> cmds \<Rightarrow> nat \<Rightarrow> (nat \<times> cmds \<times> nat) outcome" where
  "parseexec_loop lim 0 buf es cmd ret argc h s = Diverge"
| "parseexec_loop lim (Suc fuel) buf es cmd ret argc h s =
     andthen (peek buf es s ''|)&;'') (\<lambda>(stop, s).
     if stop then andthen (set_arg cmd argc None None h) (\<lambda>h. Ret (ret, h, s))
     else
       andthen (gettoken buf es s) (\<lambda>(tok, q, eq, s).
       if tok = NUL then andthen (set_arg cmd argc None None h) (\<lambda>h. Ret (ret, h, s))
       else if tok \<noteq> CHR ''a'' then Panic ''syntax''
       else
         andthen (set_arg cmd argc (Some q) (Some eq) h) (\<lambda>h.
         let argc = Suc argc in
         if argc \<ge> MAXARGS then Panic ''too many args''
         else
           andthen (parseredirs lim fuel buf es ret h s) (\<lambda>(ret, h, s).
           parseexec_loop lim fuel buf es cmd ret argc h s))))"

text \<open>The loop of \<open>parseline\<close>.\<close>

fun parseline_back :: "nat option \<Rightarrow> nat \<Rightarrow> string \<Rightarrow> nat \<Rightarrow> nat \<Rightarrow> cmds \<Rightarrow> nat \<Rightarrow> (nat \<times> cmds \<times> nat) outcome" where
  "parseline_back lim 0 buf es cmd h s = Diverge"
| "parseline_back lim (Suc fuel) buf es cmd h s =
     andthen (peek buf es s ''&'') (\<lambda>(b, s).
     if b then
       andthen (gettoken buf es s) (\<lambda>(_, _, _, s).
       andthen (backcmd lim cmd h) (\<lambda>(cmd, h). parseline_back lim fuel buf es cmd h s))
     else Ret (cmd, h, s))"

function (sequential) parseline :: "nat option \<Rightarrow> nat \<Rightarrow> string \<Rightarrow> nat \<Rightarrow> cmds \<Rightarrow> nat \<Rightarrow> (nat \<times> cmds \<times> nat) outcome"
  and parsepipe :: "nat option \<Rightarrow> nat \<Rightarrow> string \<Rightarrow> nat \<Rightarrow> cmds \<Rightarrow> nat \<Rightarrow> (nat \<times> cmds \<times> nat) outcome"
  and parseblock :: "nat option \<Rightarrow> nat \<Rightarrow> string \<Rightarrow> nat \<Rightarrow> cmds \<Rightarrow> nat \<Rightarrow> (nat \<times> cmds \<times> nat) outcome"
  and parseexec :: "nat option \<Rightarrow> nat \<Rightarrow> string \<Rightarrow> nat \<Rightarrow> cmds \<Rightarrow> nat \<Rightarrow> (nat \<times> cmds \<times> nat) outcome" where
  "parseline lim 0 buf es h s = Diverge"
| "parseline lim (Suc fuel) buf es h s =
     andthen (parsepipe lim fuel buf es h s) (\<lambda>(cmd, h, s).
     andthen (parseline_back lim fuel buf es cmd h s) (\<lambda>(cmd, h, s).
     andthen (peek buf es s '';'') (\<lambda>(b, s).
     if b then
       andthen (gettoken buf es s) (\<lambda>(_, _, _, s).
       andthen (parseline lim fuel buf es h s) (\<lambda>(r, h, s).
       andthen (listcmd lim cmd r h) (\<lambda>(cmd, h). Ret (cmd, h, s))))
     else Ret (cmd, h, s))))"
| "parsepipe lim 0 buf es h s = Diverge"
| "parsepipe lim (Suc fuel) buf es h s =
     andthen (parseexec lim fuel buf es h s) (\<lambda>(cmd, h, s).
     andthen (peek buf es s ''|'') (\<lambda>(b, s).
     if b then
       andthen (gettoken buf es s) (\<lambda>(_, _, _, s).
       andthen (parsepipe lim fuel buf es h s) (\<lambda>(r, h, s).
       andthen (pipecmd lim cmd r h) (\<lambda>(cmd, h). Ret (cmd, h, s))))
     else Ret (cmd, h, s)))"
| "parseblock lim 0 buf es h s = Diverge"
| "parseblock lim (Suc fuel) buf es h s =
     andthen (peek buf es s ''('') (\<lambda>(b, s).
     if \<not> b then Panic ''parseblock''
     else
       andthen (gettoken buf es s) (\<lambda>(_, _, _, s).
       andthen (parseline lim fuel buf es h s) (\<lambda>(cmd, h, s).
       andthen (peek buf es s '')'') (\<lambda>(b, s).
       if \<not> b then Panic ''syntax - missing )''
       else
         andthen (gettoken buf es s) (\<lambda>(_, _, _, s). parseredirs lim fuel buf es cmd h s)))))"
| "parseexec lim 0 buf es h s = Diverge"
| "parseexec lim (Suc fuel) buf es h s =
     andthen (peek buf es s ''('') (\<lambda>(b, s).
     if b then parseblock lim fuel buf es h s
     else
       andthen (execcmd lim h) (\<lambda>(cmd, h).
       andthen (parseredirs lim fuel buf es cmd h s) (\<lambda>(ret, h, s).
       parseexec_loop lim fuel buf es cmd ret 0 h s)))"
  by pat_completeness auto

termination
  by (relation "measure (case_sum (case_sum (fst \<circ> snd) (fst \<circ> snd)) (case_sum (fst \<circ> snd) (fst \<circ> snd)))") auto

fun nul_args :: "nat option list \<Rightarrow> nat option list \<Rightarrow> string \<Rightarrow> string outcome" where
  "nul_args (None # av) ev buf = Ret buf"
| "nul_args (Some q # av) (Some e # ev) buf =
     (if e < length buf then nul_args av ev (buf[e := NUL]) else Undef ''out of bounds'')"
| "nul_args av ev buf = Undef ''wild pointer''"

fun nulterminate :: "nat \<Rightarrow> cmds \<Rightarrow> nat \<Rightarrow> string \<Rightarrow> string outcome" where
  "nulterminate 0 h cmd buf = Diverge"
| "nulterminate (Suc fuel) h cmd buf =
     (if cmd = 0 then Ret buf
      else
        andthen (cmd_at h cmd) (\<lambda>n.
        case n of
          Execcmd av ev \<Rightarrow> nul_args av ev buf
        | Redircmd c f ef mode fd \<Rightarrow>
            andthen (nulterminate fuel h c buf) (\<lambda>buf.
            if ef < length buf then Ret (buf[ef := NUL]) else Undef ''out of bounds'')
        | Pipecmd l r \<Rightarrow> andthen (nulterminate fuel h l buf) (\<lambda>buf. nulterminate fuel h r buf)
        | Listcmd l r \<Rightarrow> andthen (nulterminate fuel h l buf) (\<lambda>buf. nulterminate fuel h r buf)
        | Backcmd c \<Rightarrow> nulterminate fuel h c buf))"

text \<open>
  \<open>parsecmd\<close> starts with an empty heap.  A parsing function consumes a character for every four units of
  fuel, and a command is at a higher address than the commands it consists of.  What is left over is
  printed before the message of \<open>panic\<close>; the text of the \<open>Panic\<close> is both.
\<close>

definition leftovers :: "string \<Rightarrow> string" where
  "leftovers str = ''leftovers: '' @ str @ [NL] @ ''syntax''"

definition parsecmd :: "nat option \<Rightarrow> string \<Rightarrow> (nat \<times> cmds \<times> string) outcome" where
  "parsecmd lim buf =
     andthen (str_len buf) (\<lambda>es.
     andthen (parseline lim (4 * es + 4) buf es [] 0) (\<lambda>(cmd, h, s).
     andthen (peek buf es s []) (\<lambda>(_, s).
     if s \<noteq> es then Panic (leftovers (str_from buf s))
     else andthen (nulterminate (Suc cmd) h cmd buf) (\<lambda>buf. Ret (cmd, h, buf)))))"

section \<open>Running commands\<close>

definition sh_panic :: "string \<Rightarrow> prog" where
  "sh_panic msg = say 2 (msg @ [NL]) Exit"

definition fork1 :: "(int \<Rightarrow> prog) \<Rightarrow> prog" where
  "fork1 k = Call SFork (\<lambda>r. if rval r = -1 then sh_panic ''fork'' else k (rval r))"

definition argv_strings :: "string \<Rightarrow> nat option list \<Rightarrow> string list" where
  "argv_strings buf av = map (\<lambda>q. str_from buf (the q)) (takeWhile (\<lambda>q. q \<noteq> None) av)"

text \<open>\<open>runcmd\<close> never returns, so what follows a call of it in the same process is not reached.\<close>

fun runcmd :: "nat \<Rightarrow> string \<Rightarrow> cmds \<Rightarrow> nat \<Rightarrow> prog" where
  "runcmd 0 buf h cmd = Spin"
| "runcmd (Suc fuel) buf h cmd =
     (if cmd = 0 then Exit
      else case cmd_at h cmd of
        Ret (Execcmd av ev) \<Rightarrow>
          (case argv_strings buf av of
             [] \<Rightarrow> Exit
           | path # args \<Rightarrow>
               Call (SExec path (path # args)) (\<lambda>_.
               say 2 (''exec '' @ path @ '' failed'' @ [NL]) Exit))
      | Ret (Redircmd c f ef mode fd) \<Rightarrow>
          Call (SClose fd) (\<lambda>_.
          Call (SOpen (str_from buf f) mode) (\<lambda>r.
          if rval r < 0 then say 2 (''open '' @ str_from buf f @ '' failed'' @ [NL]) Exit
          else runcmd fuel buf h c))
      | Ret (Listcmd left right) \<Rightarrow>
          fork1 (\<lambda>pid.
          if pid = 0 then runcmd fuel buf h left
          else Call SWait (\<lambda>_. runcmd fuel buf h right))
      | Ret (Pipecmd left right) \<Rightarrow>
          Call SPipe (\<lambda>r.
          if rval r < 0 then sh_panic ''pipe''
          else
            let (p0, p1) = rfds r in
            fork1 (\<lambda>pid.
            if pid = 0 then
              Call (SClose 1) (\<lambda>_. Call (SDup p1) (\<lambda>_. Call (SClose p0) (\<lambda>_. Call (SClose p1) (\<lambda>_.
              runcmd fuel buf h left))))
            else
              fork1 (\<lambda>pid.
              if pid = 0 then
                Call (SClose 0) (\<lambda>_. Call (SDup p0) (\<lambda>_. Call (SClose p0) (\<lambda>_. Call (SClose p1) (\<lambda>_.
                runcmd fuel buf h right))))
              else
                Call (SClose p0) (\<lambda>_. Call (SClose p1) (\<lambda>_. Call SWait (\<lambda>_. Call SWait (\<lambda>_. Exit)))))))
      | Ret (Backcmd c) \<Rightarrow> fork1 (\<lambda>pid. if pid = 0 then runcmd fuel buf h c else Exit)
      | _ \<Rightarrow> Stuck ''wild pointer'')"

text \<open>
  \<open>gets\<close> reads one character at a time until a newline or carriage return, the end of the input or \<open>n\<close>
  characters; \<open>k\<close> gets the characters.
\<close>

fun gets_calls :: "nat \<Rightarrow> string \<Rightarrow> (string \<Rightarrow> prog) \<Rightarrow> prog" where
  "gets_calls 0 str k = k str"
| "gets_calls (Suc n) str k =
     Call (SRead 0 1) (\<lambda>r.
     if rval r < 1 then k str
     else
       let c = hd (rbuf r); str = str @ [c] in
       if c = NL \<or> c = CHR 0x0D then k str else gets_calls n str k)"

text \<open>\<open>getcmd\<close> clears the buffer first, so that the line is followed by NUL to its end.\<close>

definition getcmd :: "nat \<Rightarrow> (string option \<Rightarrow> prog) \<Rightarrow> prog" where
  "getcmd nbuf k =
     say 2 ''$ '' (gets_calls (nbuf - 1) [] (\<lambda>str.
     let buf = str @ replicate (nbuf - length str) NUL in
     if hd buf = NUL then k None else k (Some buf)))"

text \<open>
  One round of the loop of \<open>main\<close> with the line in \<open>buf\<close>; \<open>k\<close> is the rest of the loop.
\<close>

definition main_command :: "nat option \<Rightarrow> string \<Rightarrow> prog \<Rightarrow> prog" where
  "main_command lim buf k =
     (if take 3 buf = ''cd '' then
        let buf = buf[length (str_from buf 0) - 1 := NUL]; dir = str_from buf 3 in
        Call (SChdir dir) (\<lambda>r. if rval r < 0 then say 2 (''cannot cd '' @ dir @ [NL]) k else k)
      else
        fork1 (\<lambda>pid.
        if pid = 0 then
          (case parsecmd lim buf of
             Ret (cmd, h, buf) \<Rightarrow> runcmd (Suc cmd) buf h cmd
           | Panic msg \<Rightarrow> sh_panic msg
           | Undef e \<Rightarrow> Stuck e
           | Diverge \<Rightarrow> Spin)
        else Call SWait (\<lambda>_. k)))"

text \<open>
  The two loops of \<open>main\<close>: three descriptors are opened, then commands are read until the input ends; a
  command takes one unit of fuel.
\<close>

fun main_loop :: "nat option \<Rightarrow> nat \<Rightarrow> prog" where
  "main_loop lim 0 = Spin"
| "main_loop lim (Suc fuel) =
     getcmd 100 (\<lambda>r. case r of None \<Rightarrow> Exit | Some buf \<Rightarrow> main_command lim buf (main_loop lim fuel))"

fun open_console :: "nat \<Rightarrow> prog \<Rightarrow> prog" where
  "open_console 0 k = Spin"
| "open_console (Suc fuel) k =
     Call (SOpen ''console'' O_RDWR) (\<lambda>r.
     if rval r \<ge> 0 then (if rval r \<ge> 3 then Call (SClose (rval r)) (\<lambda>_. k) else open_console fuel k) else k)"

text \<open>A new descriptor is one that was not open, so the fourth call of \<open>open\<close> is the last.\<close>

definition sh_main :: "nat option \<Rightarrow> nat \<Rightarrow> prog" where
  "sh_main lim fuel = open_console 4 (main_loop lim fuel)"

end
