(* ===== verification/Shparse.thy ===== *)
theory Shparse
  imports Sh
begin

text \<open>
  The parser of the shell is correct.  A recursive-descent parser on lists of characters, which returns
  syntax trees of words, is the specification; the parser of \<^verbatim>\<open>sh.c\<close> on pointers and a heap refines it.
  The specification ends for every input and reads back every printed tree.
\<close>

section \<open>Refinement of results\<close>

text \<open>
  A result refines another one when both end alike and the returned values are related.  When memory
  is limited, the code may also write through the null pointer that \<open>malloc\<close> has returned.
\<close>

definition null_write :: "nat option \<Rightarrow> 'a outcome \<Rightarrow> bool" where
  "null_write lim m \<longleftrightarrow> lim \<noteq> None \<and> m = Undef ''null pointer''"

definition refines :: "nat option \<Rightarrow> ('a \<Rightarrow> 'b \<Rightarrow> bool) \<Rightarrow> 'a outcome \<Rightarrow> 'b outcome \<Rightarrow> bool" where
  "refines lim R m a \<longleftrightarrow> null_write lim m \<or>
     (case a of
        Ret y \<Rightarrow> (\<exists>x. m = Ret x \<and> R x y)
      | Panic e \<Rightarrow> m = Panic e
      | Undef e \<Rightarrow> False
      | Diverge \<Rightarrow> m = Diverge)"

lemma null_write_simps [simp]:
  "\<not> null_write lim (Ret x)" "\<not> null_write lim (Panic e)" "\<not> null_write lim Diverge" "\<not> null_write None m"
  by (simp_all add: null_write_def)

lemma null_write_andthen: "null_write lim m \<Longrightarrow> null_write lim (andthen m f)"
  by (auto simp: null_write_def)

lemma refines_simps [simp]:
  "refines lim R m (Ret y) \<longleftrightarrow> null_write lim m \<or> (\<exists>x. m = Ret x \<and> R x y)"
  "refines lim R m (Panic e) \<longleftrightarrow> null_write lim m \<or> m = Panic e"
  "refines lim R m Diverge \<longleftrightarrow> null_write lim m \<or> m = Diverge"
  "refines lim R m (Undef e) \<longleftrightarrow> null_write lim m"
  by (simp_all add: refines_def)

lemma refines_null: "null_write lim m \<Longrightarrow> refines lim R m a"
  by (simp add: refines_def)

lemma refines_andthen:
  assumes "refines lim R m a" and "\<And>x y. R x y \<Longrightarrow> refines lim S (f x) (g y)"
  shows "refines lim S (andthen m f) (andthen a g)"
  using assms by (cases a) (auto dest: null_write_andthen intro: refines_null)

lemma refines_weaken: "refines lim R m a \<Longrightarrow> (\<And>x y. R x y \<Longrightarrow> S x y) \<Longrightarrow> refines lim S m a"
  by (cases a) auto

text \<open>A constructor succeeds, or writes through a null pointer.\<close>

lemma alloc_cmd_cases:
  obtains "alloc_cmd lim n h = Ret (Suc (length h), h @ [n])" | "null_write lim (alloc_cmd lim n h)"
  by (cases "mem_left lim h") (auto simp: alloc_cmd_def null_write_def mem_left_def split: option.splits)

lemma andthen_Ret [simp]: "andthen m Ret = m"
  by (cases m) auto

section \<open>The grammar\<close>

datatype (words: 'w) tree =
    TExec "'w list"
  | TRedir "'w tree" 'w uint int
  | TPipe "'w tree" "'w tree"
  | TList "'w tree" "'w tree"
  | TBack "'w tree"
  for map: map_words

type_synonym 'w redirs = "('w \<times> uint \<times> int) list"

text \<open>\<open>wrap rs t\<close>: the redirections \<open>rs\<close>, the last one first, around \<open>t\<close>.\<close>

fun wrap :: "'w redirs \<Rightarrow> 'w tree \<Rightarrow> 'w tree" where
  "wrap [] t = t"
| "wrap ((w, mode, fd) # rs) t = TRedir (wrap rs t) w mode fd"

definition token :: "string \<Rightarrow> char \<times> string \<times> string" where
  "token xs =
     (case dropWhile white xs of
        [] \<Rightarrow> (NUL, [], [])
      | c # cs \<Rightarrow>
          if c \<in> set ''|();&<'' then (c, [c], dropWhile white cs)
          else if c = CHR ''>'' then
            (if cs \<noteq> [] \<and> hd cs = CHR ''>'' then (CHR ''+'', ''>>'', dropWhile white (tl cs))
             else (c, [c], dropWhile white cs))
          else (CHR ''a'', takeWhile wordc (c # cs), dropWhile white (dropWhile wordc (c # cs))))"

definition next_in :: "string \<Rightarrow> string \<Rightarrow> bool" where
  "next_in toks xs \<longleftrightarrow> (case dropWhile white xs of [] \<Rightarrow> False | c # cs \<Rightarrow> c \<in> set toks)"

definition redir_of :: "char \<Rightarrow> uint \<times> int" where
  "redir_of tok = (if tok = CHR ''<'' then (O_RDONLY, 0) else (O_WRONLY OR O_CREATE, 1))"

fun redirs :: "nat \<Rightarrow> string redirs \<Rightarrow> string \<Rightarrow> (string redirs \<times> string) outcome" where
  "redirs 0 rs xs = Diverge"
| "redirs (Suc fuel) rs xs =
     (if next_in ''<>'' xs then
        let (tok, _, xs) = token xs; (t, w, xs) = token xs in
        if t = CHR ''a'' then redirs fuel ((w, redir_of tok) # rs) xs
        else Panic ''missing file for redirection''
      else Ret (rs, dropWhile white xs))"

fun simple_loop :: "nat \<Rightarrow> string list \<Rightarrow> string redirs \<Rightarrow> string \<Rightarrow> (string tree \<times> string) outcome" where
  "simple_loop 0 ws rs xs = Diverge"
| "simple_loop (Suc fuel) ws rs xs =
     (if next_in ''|)&;'' xs then Ret (wrap rs (TExec ws), dropWhile white xs)
      else
        let (t, w, xs) = token xs in
        if t = NUL then Ret (wrap rs (TExec ws), xs)
        else if t \<noteq> CHR ''a'' then Panic ''syntax''
        else if Suc (length ws) \<ge> MAXARGS then Panic ''too many args''
        else andthen (redirs fuel rs xs) (\<lambda>(rs, xs). simple_loop fuel (ws @ [w]) rs xs))"

fun backs :: "nat \<Rightarrow> string tree \<Rightarrow> string \<Rightarrow> (string tree \<times> string) outcome" where
  "backs 0 t xs = Diverge"
| "backs (Suc fuel) t xs =
     (if next_in ''&'' xs then backs fuel (TBack t) (snd (snd (token xs))) else Ret (t, dropWhile white xs))"

text \<open>The levels of the grammar: a command or block, a pipeline, a line.\<close>

datatype level = Simple | Block | Pipeline | Line

fun parse :: "nat \<Rightarrow> level \<Rightarrow> string \<Rightarrow> (string tree \<times> string) outcome" where
  "parse 0 lvl xs = Diverge"
| "parse (Suc fuel) Line xs =
     andthen (parse fuel Pipeline xs) (\<lambda>(t, xs).
     andthen (backs fuel t xs) (\<lambda>(t, xs).
     if next_in '';'' xs then
       andthen (parse fuel Line (snd (snd (token xs)))) (\<lambda>(r, xs). Ret (TList t r, xs))
     else Ret (t, dropWhile white xs)))"
| "parse (Suc fuel) Pipeline xs =
     andthen (parse fuel Simple xs) (\<lambda>(t, xs).
     if next_in ''|'' xs then
       andthen (parse fuel Pipeline (snd (snd (token xs)))) (\<lambda>(r, xs). Ret (TPipe t r, xs))
     else Ret (t, dropWhile white xs))"
| "parse (Suc fuel) Block xs =
     (if \<not> next_in ''('' xs then Panic ''parseblock''
      else
        andthen (parse fuel Line (snd (snd (token xs)))) (\<lambda>(t, xs).
        if \<not> next_in '')'' xs then Panic ''syntax - missing )''
        else andthen (redirs fuel [] (snd (snd (token xs)))) (\<lambda>(rs, xs). Ret (wrap rs t, xs))))"
| "parse (Suc fuel) Simple xs =
     (if next_in ''('' xs then parse fuel Block xs
      else andthen (redirs fuel [] xs) (\<lambda>(rs, xs). simple_loop fuel [] rs xs))"

definition parse_line :: "string \<Rightarrow> string tree outcome" where
  "parse_line str =
     andthen (parse (4 * length str + 4) Line str) (\<lambda>(t, xs).
     if dropWhile white xs \<noteq> [] then Panic (leftovers (dropWhile white xs)) else Ret t)"

section \<open>Positions and lists\<close>

text \<open>The buffer holds a line that ends at \<open>es\<close>; \<open>rest\<close> is what the parser has not read yet.\<close>

definition line :: "string \<Rightarrow> nat \<Rightarrow> bool" where
  "line buf es \<longleftrightarrow> es < length buf \<and> buf ! es = NUL \<and> (\<forall>i<es. buf ! i \<noteq> NUL)"

definition rest :: "string \<Rightarrow> nat \<Rightarrow> nat \<Rightarrow> string" where
  "rest buf es s = take (es - s) (drop s buf)"

definition span_text :: "string \<Rightarrow> nat \<times> nat \<Rightarrow> string" where
  "span_text buf w = take (snd w - fst w) (drop (fst w) buf)"

definition word_at :: "string \<Rightarrow> nat \<Rightarrow> nat \<times> nat \<Rightarrow> bool" where
  "word_at buf es w \<longleftrightarrow>
     fst w \<le> snd w \<and> snd w \<le> es \<and> (\<forall>i. fst w \<le> i \<and> i < snd w \<longrightarrow> wordc (buf ! i)) \<and> (snd w = es \<or> \<not> wordc (buf ! snd w))"

lemma rest_Cons: "s < es \<Longrightarrow> es \<le> length buf \<Longrightarrow> rest buf es s = buf ! s # rest buf es (Suc s)"
  by (simp add: rest_def Cons_nth_drop_Suc [symmetric] take_Cons')

lemma rest_Nil [simp]: "rest buf es es = []"
  by (simp add: rest_def)

lemma span_text_Cons: "q < e \<Longrightarrow> e \<le> length buf \<Longrightarrow> span_text buf (q, e) = buf ! q # span_text buf (Suc q, e)"
  by (simp add: span_text_def Cons_nth_drop_Suc [symmetric] take_Cons')

lemma span_text_Nil [simp]: "span_text buf (e, e) = []"
  by (simp add: span_text_def)

lemma skip_spec:
  assumes "es \<le> length buf" and "s \<le> es"
  shows "\<exists>s'. skip P buf es s = Ret s' \<and> s \<le> s' \<and> s' \<le> es \<and> rest buf es s' = dropWhile P (rest buf es s)
    \<and> span_text buf (s, s') = takeWhile P (rest buf es s)"
  using assms
proof (induction P buf es s rule: skip.induct)
  case (1 P buf es s)
  show ?case
  proof (cases "s < es \<and> P (buf ! s)")
    case True
    then obtain s' where "skip P buf es (Suc s) = Ret s'" "Suc s \<le> s'" "s' \<le> es"
      "rest buf es s' = dropWhile P (rest buf es (Suc s))" "span_text buf (Suc s, s') = takeWhile P (rest buf es (Suc s))"
      using 1(1) [of "buf ! s"] 1(2,3) by auto
    then show ?thesis using True 1(2,3) by (intro exI [of _ s']) (simp add: skip.simps [of P buf es s] rest_Cons span_text_Cons)
  next
    case False
    then have "skip P buf es s = Ret s" using 1(2,3) by (auto simp: skip.simps [of P buf es s])
    moreover have "dropWhile P (rest buf es s) = rest buf es s" "takeWhile P (rest buf es s) = []"
      using False 1(2,3) by (cases "s = es"; simp add: rest_Cons)+
    ultimately show ?thesis using 1(3) by simp
  qed
qed

text \<open>Once the parser has skipped white space, it is at a character that is not white.\<close>

lemma rest_white:
  assumes "rest buf es s = dropWhile white xs" and "s < es" and "es \<le> length buf"
  shows "\<not> white (buf ! s)"
  using assms hd_dropWhile [of white xs] by (metis list.distinct(1) list.sel(1) rest_Cons)

lemma wordc_iff: "wordc c \<longleftrightarrow> \<not> white c \<and> c \<notin> set symbols"
  using strchr_in [of symbols c] by (auto simp: wordc_def white_def symbols_def NUL_def)

lemma peek_sim:
  assumes "line buf es" and "s \<le> es" and "NUL \<notin> set toks"
  shows "\<exists>s'. peek buf es s toks = Ret (next_in toks (rest buf es s), s') \<and> s' \<le> es
    \<and> rest buf es s' = dropWhile white (rest buf es s)"
proof -
  have l: "es < length buf" using assms(1) by (simp add: line_def)
  obtain s' where s': "skip white buf es s = Ret s'" "s' \<le> es" "rest buf es s' = dropWhile white (rest buf es s)"
    using skip_spec [of es buf s white] l assms(2) by auto
  have "(buf ! s' \<noteq> NUL \<and> strchr toks (buf ! s') \<noteq> None) = next_in toks (rest buf es s)"
  proof (cases "s' = es")
    case True
    then show ?thesis using assms(1) s'(3) by (auto simp: line_def next_in_def)
  next
    case False
    then show ?thesis using assms(1) s' strchr_in [OF assms(3)] l
      by (simp add: next_in_def s'(3) [symmetric] rest_Cons line_def)
  qed
  then show ?thesis using s' l by (simp add: peek_def)
qed

lemma token_white: "token (dropWhile white xs) = token xs" "next_in toks (dropWhile white xs) = next_in toks xs"
  by (simp_all add: token_def next_in_def)
lemma skip_word:
  assumes l: "es \<le> length buf" and q: "q \<le> es"
  shows "\<exists>e. skip wordc buf es q = Ret e \<and> q \<le> e \<and> e \<le> es \<and> word_at buf es (q, e)
    \<and> span_text buf (q, e) = takeWhile wordc (rest buf es q) \<and> rest buf es e = dropWhile wordc (rest buf es q)"
proof -
  obtain e where e: "skip wordc buf es q = Ret e" "q \<le> e" "e \<le> es" "rest buf es e = dropWhile wordc (rest buf es q)"
    "span_text buf (q, e) = takeWhile wordc (rest buf es q)"
    using skip_spec [OF l q, of wordc] by blast
  have "wordc (buf ! i)" if "q \<le> i" "i < e" for i
  proof -
    have "buf ! i = span_text buf (q, e) ! (i - q)" "i - q < length (span_text buf (q, e))"
      using that e(3) l by (simp_all add: span_text_def)
    then have "buf ! i \<in> set (takeWhile wordc (rest buf es q))" unfolding e(5) by simp
    then show ?thesis by (rule set_takeWhileD [THEN conjunct2])
  qed
  moreover have "e = es \<or> \<not> wordc (buf ! e)"
  proof (cases "e < es")
    case True
    then have "dropWhile wordc (rest buf es q) = buf ! e # rest buf es (Suc e)" unfolding e(4) [symmetric] by (rule rest_Cons [OF _ l])
    then show ?thesis using hd_dropWhile [of wordc "rest buf es q"] by simp
  next
    case False
    then show ?thesis using e(3) by simp
  qed
  ultimately show ?thesis using e by (intro exI [of _ e]) (auto simp: word_at_def)
qed

lemma gettoken_sim:
  assumes "line buf es" and "s \<le> es"
  shows "\<exists>t q e s'. gettoken buf es s = Ret (t, q, e, s') \<and> s' \<le> es
    \<and> token (rest buf es s) = (t, span_text buf (q, e), rest buf es s') \<and> (t = CHR ''a'' \<longrightarrow> word_at buf es (q, e))"
proof -
  have l: "es < length buf" "es \<le> length buf" and nul: "buf ! es = NUL" "\<And>i. i < es \<Longrightarrow> buf ! i \<noteq> NUL"
    using assms(1) by (auto simp: line_def)
  obtain q where q: "skip white buf es s = Ret q" "q \<le> es" "rest buf es q = dropWhile white (rest buf es s)"
    using skip_spec [OF l(2) assms(2), of white] by blast
  have tk: "token (rest buf es s) = token (rest buf es q)" unfolding q(3) by (simp add: token_white)
  have res: ?thesis
    if "e \<le> es" and g: "\<And>s'. skip white buf es e = Ret s' \<Longrightarrow> gettoken buf es s = Ret (t, q, e, s')"
      and "token (rest buf es q) = (t, span_text buf (q, e), dropWhile white (rest buf es e))"
      and "t = CHR ''a'' \<Longrightarrow> word_at buf es (q, e)" for t e
  proof -
    obtain s' where "skip white buf es e = Ret s'" "s' \<le> es" "rest buf es s' = dropWhile white (rest buf es e)"
      using skip_spec [OF l(2) \<open>e \<le> es\<close>, of white] by blast
    then show ?thesis using that tk by auto
  qed
  show ?thesis
  proof (cases "q = es")
    case True
    then show ?thesis using q(1) nul(1) l by (intro res [of es NUL]) (simp_all add: gettoken_def token_def NUL_def)
  next
    case False
    then have qe: "q < es" using q(2) by simp
    have w: "\<not> white (buf ! q)" by (rule rest_white [OF q(3) qe l(2)])
    have r: "rest buf es q = buf ! q # rest buf es (Suc q)" by (rule rest_Cons [OF qe l(2)])
    have dw: "dropWhile white (rest buf es q) = buf ! q # rest buf es (Suc q)" using w r by simp
    have one: "span_text buf (q, Suc q) = [buf ! q]" using qe l by (simp add: span_text_Cons)
    consider "buf ! q \<in> set ''|();&<''" | "buf ! q = CHR ''>''" "buf ! Suc q = CHR ''>''"
      | "buf ! q = CHR ''>''" "buf ! Suc q \<noteq> CHR ''>''" | "buf ! q \<notin> set symbols"
      unfolding symbols_def by auto
    then show ?thesis
    proof cases
      case 1
      then show ?thesis using qe l q(1) one nul(2) [OF qe]
        by (intro res [of "Suc q" "buf ! q"]) (auto simp: gettoken_def token_def dw)
    next
      case 2
      have s: "Suc q < es" using 2(2) nul(1) qe by (cases "Suc q = es") (auto simp: NUL_def)
      then have "rest buf es (Suc q) = CHR ''>'' # rest buf es (Suc (Suc q))" "span_text buf (q, Suc (Suc q)) = ''>>''"
        using 2 l by (simp_all add: rest_Cons span_text_Cons)
      then show ?thesis using s 2 l q(1) nul(2) [OF qe]
        by (intro res [of "Suc (Suc q)" "CHR ''+''"]) (auto simp: gettoken_def token_def dw)
    next
      case 3
      have "\<not> (rest buf es (Suc q) \<noteq> [] \<and> hd (rest buf es (Suc q)) = CHR ''>'')"
        using 3 qe l by (cases "Suc q = es") (auto simp: rest_Cons)
      then show ?thesis using 3 qe l q(1) one nul(2) [OF qe]
        by (intro res [of "Suc q" "CHR ''>''"]) (auto simp: gettoken_def token_def dw)
    next
      case 4
      obtain e where e: "skip wordc buf es q = Ret e" "e \<le> es" "word_at buf es (q, e)"
        "span_text buf (q, e) = takeWhile wordc (rest buf es q)" "rest buf es e = dropWhile wordc (rest buf es q)"
        using skip_word [OF l(2) q(2)] by blast
      have s: "buf ! q \<notin> set ''|();&<''" "buf ! q \<noteq> CHR ''>''" using 4 by (auto simp: symbols_def)
      have "token (rest buf es q) = (CHR ''a'', span_text buf (q, e), dropWhile white (rest buf es e))"
        using s w unfolding token_def dw e(4,5) r by simp
      then show ?thesis using e s q(1) l qe nul(2) [OF qe]
        by (intro res [of e "CHR ''a''"]) (simp_all add: gettoken_def)
    qed
  qed
qed

section \<open>Commands in the heap\<close>

type_synonym spans = "nat \<times> nat"

definition exec_node :: "spans list \<Rightarrow> node" where
  "exec_node ts =
     Execcmd (map (\<lambda>w. Some (fst w)) ts @ replicate (MAXARGS - length ts) None)
       (map (\<lambda>w. Some (snd w)) ts @ replicate (MAXARGS - length ts) None)"

definition valid :: "cmds \<Rightarrow> nat \<Rightarrow> bool" where
  "valid h p \<longleftrightarrow> p \<noteq> 0 \<and> p \<le> length h"

fun represents :: "cmds \<Rightarrow> nat \<Rightarrow> spans tree \<Rightarrow> bool" where
  "represents h p (TExec ts) \<longleftrightarrow> valid h p \<and> h ! (p - 1) = exec_node ts \<and> length ts < MAXARGS"
| "represents h p (TRedir t w mode fd) \<longleftrightarrow>
     valid h p \<and> (\<exists>c<p. h ! (p - 1) = Redircmd c (fst w) (snd w) mode fd \<and> represents h c t)"
| "represents h p (TPipe t u) \<longleftrightarrow>
     valid h p \<and> (\<exists>c<p. \<exists>d<p. h ! (p - 1) = Pipecmd c d \<and> represents h c t \<and> represents h d u)"
| "represents h p (TList t u) \<longleftrightarrow>
     valid h p \<and> (\<exists>c<p. \<exists>d<p. h ! (p - 1) = Listcmd c d \<and> represents h c t \<and> represents h d u)"
| "represents h p (TBack t) \<longleftrightarrow> valid h p \<and> (\<exists>c<p. h ! (p - 1) = Backcmd c \<and> represents h c t)"

text \<open>\<open>chain h p rs cmd\<close>: from \<open>p\<close> the redirections \<open>rs\<close> lead to \<open>cmd\<close>.\<close>

fun chain :: "cmds \<Rightarrow> nat \<Rightarrow> spans redirs \<Rightarrow> nat \<Rightarrow> bool" where
  "chain h p [] cmd \<longleftrightarrow> p = cmd \<and> valid h p"
| "chain h p ((w, mode, fd) # rs) cmd \<longleftrightarrow>
     cmd < p \<and> valid h p \<and> (\<exists>c<p. h ! (p - 1) = Redircmd c (fst w) (snd w) mode fd \<and> chain h c rs cmd)"

lemma valid_append: "valid h p \<Longrightarrow> valid (h @ k) p" "valid h p \<Longrightarrow> (h @ k) ! (p - Suc 0) = h ! (p - Suc 0)"
  by (auto simp: valid_def nth_append)

lemma valid_cmd_at [simp]: "valid h p \<Longrightarrow> cmd_at h p = Ret (h ! (p - 1))"
  by (simp add: valid_def cmd_at_def)

lemma represents_valid: "represents h p t \<Longrightarrow> valid h p"
  by (cases t) auto

lemma represents_append: "represents h p t \<Longrightarrow> represents (h @ k) p t"
  by (induction t arbitrary: p) (auto simp: valid_append)

lemma chain_valid: "chain h p rs cmd \<Longrightarrow> valid h p \<and> valid h cmd \<and> cmd \<le> p"
  by (induction rs arbitrary: p) (auto simp: valid_def)

lemma chain_append: "chain h p rs cmd \<Longrightarrow> chain (h @ k) p rs cmd"
  by (induction rs arbitrary: p) (auto simp: valid_append)

lemma chain_update: "chain h p rs cmd \<Longrightarrow> chain (h[cmd - 1 := n]) p rs cmd"
proof (induction rs arbitrary: p)
  case (Cons r rs)
  obtain w mode fd where r: "r = (w, mode, fd)" by (cases r)
  have "cmd \<noteq> 0" using chain_valid [OF Cons.prems] by (simp add: valid_def)
  then show ?case using Cons unfolding r by (fastforce simp: valid_def)
qed (simp add: valid_def)

lemma chain_represents: "chain h p rs cmd \<Longrightarrow> represents h cmd t \<Longrightarrow> represents h p (wrap rs t)"
  by (induction rs t arbitrary: p rule: wrap.induct) auto

lemma set_arg_add:
  assumes "valid h cmd" and "h ! (cmd - 1) = exec_node ts" and "length ts < MAXARGS"
  shows "set_arg cmd (length ts) (Some q) (Some e) h = Ret (h[cmd - 1 := exec_node (ts @ [(q, e)])])"
proof -
  have r: "replicate (MAXARGS - length ts) None = None # replicate (MAXARGS - Suc (length ts)) None"
    using assms(3) by (simp add: Suc_diff_Suc flip: replicate_Suc)
  show ?thesis using assms by (simp add: set_arg_def exec_node_def r list_update_append)
qed

lemma set_arg_end:
  assumes "valid h cmd" and "h ! (cmd - 1) = exec_node ts" and "length ts < MAXARGS"
  shows "set_arg cmd (length ts) None None h = Ret h"
proof -
  have r: "replicate (MAXARGS - length ts) None = None # replicate (MAXARGS - Suc (length ts)) None"
    using assms(3) by (simp add: Suc_diff_Suc flip: replicate_Suc)
  have "set_arg cmd (length ts) None None h = Ret (h[cmd - 1 := exec_node ts])"
    using assms by (simp add: set_arg_def exec_node_def r list_update_append)
  also have "h[cmd - 1 := exec_node ts] = h" unfolding assms(2) [symmetric] by (rule list_update_id)
  finally show ?thesis .
qed

section \<open>The parser refines the grammar\<close>

definition redir_text :: "string \<Rightarrow> spans redirs \<Rightarrow> string redirs" where
  "redir_text buf rs = map (\<lambda>(w, m). (span_text buf w, m)) rs"

lemma wrap_text: "map_words (span_text buf) (wrap rs t) = wrap (redir_text buf rs) (map_words (span_text buf) t)"
  by (induction rs t rule: wrap.induct) (auto simp: redir_text_def)

lemma wrap_words: "words (wrap rs t) = fst ` set rs \<union> words t"
  by (induction rs t rule: wrap.induct) auto

definition redir_rel :: "string \<Rightarrow> nat \<Rightarrow> cmds \<Rightarrow> nat \<Rightarrow> nat \<times> cmds \<times> nat \<Rightarrow> string redirs \<times> string \<Rightarrow> bool" where
  "redir_rel buf es h cmd = (\<lambda>(p, h', s') (rs, xs).
     \<exists>k rps. h' = h @ k \<and> chain h' p rps cmd \<and> redir_text buf rps = rs \<and> (\<forall>w\<in>fst ` set rps. word_at buf es w)
       \<and> s' \<le> es \<and> rest buf es s' = xs)"

definition tree_rel :: "string \<Rightarrow> nat \<Rightarrow> cmds \<Rightarrow> nat \<times> cmds \<times> nat \<Rightarrow> string tree \<times> string \<Rightarrow> bool" where
  "tree_rel buf es h = (\<lambda>(p, h', s') (t, xs).
     \<exists>k pt. h' = h @ k \<and> represents h' p pt \<and> map_words (span_text buf) pt = t \<and> (\<forall>w\<in>words pt. word_at buf es w)
       \<and> s' \<le> es \<and> rest buf es s' = xs)"

lemma chain_redircmd:
  assumes "chain h p rps cmd"
  shows "chain (h @ [Redircmd p q e mode fd]) (Suc (length h)) (((q, e), mode, fd) # rps) cmd"
  using chain_valid [OF assms] chain_append [OF assms] by (auto simp: valid_def)

lemma parseredirs_sim:
  assumes l: "line buf es" and "s \<le> es" and "chain h p rps cmd" and "\<forall>w\<in>fst ` set rps. word_at buf es w"
  shows "refines lim (redir_rel buf es h cmd) (parseredirs lim fuel buf es p h s) (redirs fuel (redir_text buf rps) (rest buf es s))"
  using assms(2-4)
proof (induction fuel arbitrary: p h rps s)
  case (Suc fuel)
  obtain s1 where s1: "peek buf es s ''<>'' = Ret (next_in ''<>'' (rest buf es s), s1)" "s1 \<le> es"
    "rest buf es s1 = dropWhile white (rest buf es s)"
    using peek_sim [OF l Suc.prems(1), of "''<>''"] by (auto simp: NUL_def)
  show ?case
  proof (cases "next_in ''<>'' (rest buf es s)")
    case False
    then show ?thesis using Suc.prems s1 by (auto simp: redir_rel_def)
  next
    case True
    obtain tok q0 e0 s2 where g1: "gettoken buf es s1 = Ret (tok, q0, e0, s2)" "s2 \<le> es"
      "token (rest buf es s1) = (tok, span_text buf (q0, e0), rest buf es s2)"
      using gettoken_sim [OF l s1(2)] by blast
    obtain t q e s3 where g2: "gettoken buf es s2 = Ret (t, q, e, s3)" "s3 \<le> es"
      "token (rest buf es s2) = (t, span_text buf (q, e), rest buf es s3)" "t = CHR ''a'' \<longrightarrow> word_at buf es (q, e)"
      using gettoken_sim [OF l g1(2)] by blast
    have tk: "token (rest buf es s) = (tok, span_text buf (q0, e0), rest buf es s2)"
      using g1(3) unfolding s1(3) by (simp add: token_white)
    have tok: "tok = CHR ''<'' \<or> tok = CHR ''>'' \<or> tok = CHR ''+''"
      using True tk by (auto simp: next_in_def token_def split: list.splits if_splits)
    define m where "m = redir_of tok"
    define h' where "h' = h @ [Redircmd p q e (fst m) (snd m)]"
    have c: "chain h' (Suc (length h)) (((q, e), m) # rps) cmd"
      using chain_redircmd [OF Suc.prems(2), of q e "fst m" "snd m"] by (simp add: h'_def)
    have "parseredirs lim (Suc fuel) buf es p h s =
        (if t \<noteq> CHR ''a'' then Panic ''missing file for redirection''
         else andthen (alloc_cmd lim (Redircmd p q e (fst m) (snd m)) h) (\<lambda>(p, h). parseredirs lim fuel buf es p h s3))"
      using s1(1) g1(1) g2(1) True tok by (auto simp: redircmd_def m_def redir_of_def)
    moreover have "redirs (Suc fuel) (redir_text buf rps) (rest buf es s) =
        (if t \<noteq> CHR ''a'' then Panic ''missing file for redirection''
         else redirs fuel (redir_text buf (((q, e), m) # rps)) (rest buf es s3))"
      using True tk g2(3) by (simp add: redir_text_def m_def)
    moreover have "refines lim (redir_rel buf es h' cmd) (parseredirs lim fuel buf es (Suc (length h)) h' s3)
        (redirs fuel (redir_text buf (((q, e), m) # rps)) (rest buf es s3))" if "t = CHR ''a''"
      using Suc.IH [OF g2(2) c] Suc.prems(3) g2(4) that by simp
    moreover have "redir_rel buf es h' cmd x y \<Longrightarrow> redir_rel buf es h cmd x y" for x y
      unfolding redir_rel_def h'_def by fastforce
    ultimately show ?thesis
      by (cases rule: alloc_cmd_cases [of lim "Redircmd p q e (fst m) (snd m)" h])
        (auto simp: h'_def intro: refines_null null_write_andthen elim!: refines_weaken)
  qed
qed simp

text \<open>The invariant of the loop of \<open>parseexec\<close>: the command has the words \<open>ts\<close> and redirections \<open>rps\<close> around it.\<close>

definition exec_inv :: "string \<Rightarrow> nat \<Rightarrow> cmds \<Rightarrow> nat \<Rightarrow> nat \<Rightarrow> cmds \<Rightarrow> spans list \<Rightarrow> spans redirs \<Rightarrow> bool" where
  "exec_inv buf es h0 cmd p h ts rps \<longleftrightarrow>
     (\<exists>k. h = h0 @ k) \<and> length h0 < cmd \<and> chain h p rps cmd \<and> h ! (cmd - 1) = exec_node ts \<and> length ts < MAXARGS
     \<and> (\<forall>w\<in>set ts \<union> fst ` set rps. word_at buf es w)"

lemma exec_inv_result:
  assumes "exec_inv buf es h0 cmd p h ts rps" and "s \<le> es" and "rest buf es s = xs"
  shows "tree_rel buf es h0 (p, h, s) (wrap (redir_text buf rps) (TExec (map (span_text buf) ts)), xs)"
proof -
  have "represents h cmd (TExec ts)" using assms(1) chain_valid [of h p rps cmd] by (auto simp: exec_inv_def)
  then have "represents h p (wrap rps (TExec ts))" using assms(1) chain_represents by (auto simp: exec_inv_def)
  then show ?thesis using assms by (auto simp: tree_rel_def exec_inv_def wrap_text wrap_words intro!: exI [of _ "wrap rps (TExec ts)"])
qed

lemma exec_inv_add:
  assumes "exec_inv buf es h0 cmd p h ts rps" and "word_at buf es (q, e)" and "Suc (length ts) < MAXARGS"
  shows "set_arg cmd (length ts) (Some q) (Some e) h = Ret (h[cmd - 1 := exec_node (ts @ [(q, e)])])"
    and "exec_inv buf es h0 cmd p (h[cmd - 1 := exec_node (ts @ [(q, e)])]) (ts @ [(q, e)]) rps"
proof -
  have v: "valid h cmd" using assms(1) chain_valid [of h p rps cmd] by (simp add: exec_inv_def)
  then show "set_arg cmd (length ts) (Some q) (Some e) h = Ret (h[cmd - 1 := exec_node (ts @ [(q, e)])])"
    using assms by (intro set_arg_add) (auto simp: exec_inv_def)
  show "exec_inv buf es h0 cmd p (h[cmd - 1 := exec_node (ts @ [(q, e)])]) (ts @ [(q, e)]) rps"
  proof -
    obtain k where "h = h0 @ k" "\<not> cmd - 1 < length h0" using assms(1) by (auto simp: exec_inv_def)
    then have "\<exists>k'. h[cmd - 1 := n] = h0 @ k'" for n by (simp add: list_update_append)
    then show ?thesis using assms v chain_update [of h p rps cmd] by (auto simp: exec_inv_def valid_def)
  qed
qed

lemma exec_inv_redirs:
  assumes "exec_inv buf es h0 cmd p h ts rps" and "redir_rel buf es h cmd (p', h', s') (rs, xs)"
  shows "\<exists>rps'. rs = redir_text buf rps' \<and> exec_inv buf es h0 cmd p' h' ts rps' \<and> s' \<le> es \<and> rest buf es s' = xs"
proof -
  obtain k rps' where k: "h' = h @ k" "chain h' p' rps' cmd" "redir_text buf rps' = rs" "\<forall>w\<in>fst ` set rps'. word_at buf es w"
    "s' \<le> es" "rest buf es s' = xs" using assms(2) by (auto simp: redir_rel_def)
  have "valid h cmd" using assms(1) chain_valid [of h p rps cmd] by (simp add: exec_inv_def)
  then have "h' ! (cmd - 1) = h ! (cmd - 1)" by (simp add: k(1) valid_append)
  then have "exec_inv buf es h0 cmd p' h' ts rps'" using assms(1) k by (auto simp: exec_inv_def)
  then show ?thesis using k by blast
qed

lemma parseexec_loop_sim:
  assumes l: "line buf es" and "s \<le> es" and "exec_inv buf es h0 cmd p h ts rps"
  shows "refines lim (tree_rel buf es h0) (parseexec_loop lim fuel buf es cmd p (length ts) h s)
    (simple_loop fuel (map (span_text buf) ts) (redir_text buf rps) (rest buf es s))"
  using assms(2-3)
proof (induction fuel arbitrary: p h ts rps s)
  case (Suc fuel)
  note i = Suc.prems(2)
  have v: "valid h cmd" "h ! (cmd - 1) = exec_node ts" "length ts < MAXARGS" "chain h p rps cmd"
    using i chain_valid [of h p rps cmd] by (auto simp: exec_inv_def)
  obtain s1 where s1: "peek buf es s ''|)&;'' = Ret (next_in ''|)&;'' (rest buf es s), s1)" "s1 \<le> es"
    "rest buf es s1 = dropWhile white (rest buf es s)"
    using peek_sim [OF l Suc.prems(1), of "''|)&;''"] by (auto simp: NUL_def)
  obtain t q e s2 where g: "gettoken buf es s1 = Ret (t, q, e, s2)" "s2 \<le> es"
    "token (rest buf es s1) = (t, span_text buf (q, e), rest buf es s2)" "t = CHR ''a'' \<longrightarrow> word_at buf es (q, e)"
    using gettoken_sim [OF l s1(2)] by blast
  have tk: "token (rest buf es s) = (t, span_text buf (q, e), rest buf es s2)"
    using g(3) unfolding s1(3) by (simp add: token_white)
  consider "next_in ''|)&;'' (rest buf es s)" | "\<not> next_in ''|)&;'' (rest buf es s)" "t \<noteq> CHR ''a''"
    | "\<not> next_in ''|)&;'' (rest buf es s)" "t = CHR ''a''" "Suc (length ts) \<ge> MAXARGS"
    | "\<not> next_in ''|)&;'' (rest buf es s)" "t = CHR ''a''" "Suc (length ts) < MAXARGS"
    by linarith
  then show ?case
  proof cases
    case 1
    then show ?thesis using exec_inv_result [OF i s1(2)] s1 set_arg_end [OF v(1-3)] by simp
  next
    case 2
    then show ?thesis using exec_inv_result [OF i g(2)] s1 g(1) tk set_arg_end [OF v(1-3)] by simp
  next
    case 3
    then show ?thesis using s1(1) g(1) tk set_arg_add [OF v(1-3)] by (simp add: NUL_def)
  next
    case 4
    let ?h = "h[cmd - 1 := exec_node (ts @ [(q, e)])]"
    note a = exec_inv_add [OF i _ 4(3), of q e]
    have wa: "word_at buf es (q, e)" using g(4) 4(2) by simp
    have i': "exec_inv buf es h0 cmd p ?h (ts @ [(q, e)]) rps" using a(2) wa by simp
    have "refines lim (tree_rel buf es h0)
       (andthen (parseredirs lim fuel buf es p ?h s2) (\<lambda>(ret, h, s). parseexec_loop lim fuel buf es cmd ret (Suc (length ts)) h s))
       (andthen (redirs fuel (redir_text buf rps) (rest buf es s2))
         (\<lambda>(rs, xs). simple_loop fuel (map (span_text buf) (ts @ [(q, e)])) rs xs))"
    proof (rule refines_andthen)
      show "refines lim (redir_rel buf es ?h cmd) (parseredirs lim fuel buf es p ?h s2) (redirs fuel (redir_text buf rps) (rest buf es s2))"
        using i' by (intro parseredirs_sim [OF l g(2)]) (auto simp: exec_inv_def)
    next
      fix x y assume r: "redir_rel buf es ?h cmd x y"
      obtain p' h' s' rs xs where xy: "x = (p', h', s')" "y = (rs, xs)" by (cases x; cases y) auto
      obtain rps' where "rs = redir_text buf rps'" and i'': "exec_inv buf es h0 cmd p' h' (ts @ [(q, e)]) rps'"
        and "s' \<le> es" and "rest buf es s' = xs"
        using exec_inv_redirs [OF i' r [unfolded xy]] by blast
      then show "refines lim (tree_rel buf es h0) (case x of (ret, h, s) \<Rightarrow> parseexec_loop lim fuel buf es cmd ret (Suc (length ts)) h s)
          (case y of (rs, xs) \<Rightarrow> simple_loop fuel (map (span_text buf) (ts @ [(q, e)])) rs xs)"
        using Suc.IH [OF _ i'', of s'] unfolding xy by simp
    qed
    then show ?thesis using 4 s1(1) g(1) tk a(1) wa by (simp add: NUL_def)
  qed
qed simp

lemma parseline_back_sim:
  assumes l: "line buf es" and "s \<le> es" and "represents h p pt" and "\<forall>w\<in>words pt. word_at buf es w"
  shows "refines lim (tree_rel buf es h) (parseline_back lim fuel buf es p h s) (backs fuel (map_words (span_text buf) pt) (rest buf es s))"
  using assms(2-4)
proof (induction fuel arbitrary: p h pt s)
  case (Suc fuel)
  obtain s1 where s1: "peek buf es s ''&'' = Ret (next_in ''&'' (rest buf es s), s1)" "s1 \<le> es"
    "rest buf es s1 = dropWhile white (rest buf es s)"
    using peek_sim [OF l Suc.prems(1), of "''&''"] by (auto simp: NUL_def)
  obtain t q e s2 where g: "gettoken buf es s1 = Ret (t, q, e, s2)" "s2 \<le> es"
    "token (rest buf es s1) = (t, span_text buf (q, e), rest buf es s2)"
    using gettoken_sim [OF l s1(2)] by blast
  have tk: "token (rest buf es s) = (t, span_text buf (q, e), rest buf es s2)"
    using g(3) unfolding s1(3) by (simp add: token_white)
  show ?case
  proof (cases "next_in ''&'' (rest buf es s)")
    case False
    then show ?thesis using Suc.prems s1 by (auto simp: tree_rel_def)
  next
    case True
    let ?h = "h @ [Backcmd p]"
    have r: "represents ?h (Suc (length h)) (TBack pt)"
      using represents_valid [OF Suc.prems(2)] represents_append [OF Suc.prems(2)] by (auto simp: valid_def)
    have "refines lim (tree_rel buf es ?h) (parseline_back lim fuel buf es (Suc (length h)) ?h s2)
        (backs fuel (map_words (span_text buf) (TBack pt)) (rest buf es s2))"
      using Suc.prems(3) by (intro Suc.IH [OF g(2) r]) simp
    moreover have "tree_rel buf es ?h x y \<Longrightarrow> tree_rel buf es h x y" for x y unfolding tree_rel_def by fastforce
    moreover have "parseline_back lim (Suc fuel) buf es p h s =
        andthen (alloc_cmd lim (Backcmd p) h) (\<lambda>(p, h). parseline_back lim fuel buf es p h s2)"
      using True s1(1) g(1) by (simp add: backcmd_def)
    ultimately show ?thesis using True tk
      by (cases rule: alloc_cmd_cases [of lim "Backcmd p" h])
        (auto intro: refines_null null_write_andthen elim!: refines_weaken)
  qed
qed simp

text \<open>The parts of \<open>parseline\<close> and \<open>parsepipe\<close> after the first command.\<close>

lemma binary_sim:
  assumes l: "line buf es" and R: "tree_rel buf es h (p, h1, s1) (t, xs)" and c: "c \<noteq> NUL"
    and sub: "\<And>s. s \<le> es \<Longrightarrow> refines lim (tree_rel buf es h1) (f h1 s) (g (rest buf es s))"
    and N: "\<And>l r h. mk l r h = alloc_cmd lim (N l r) h"
    and T: "\<And>h p a b. represents h p (T a b) \<longleftrightarrow>
        valid h p \<and> (\<exists>c<p. \<exists>d<p. h ! (p - 1) = N c d \<and> represents h c a \<and> represents h d b)"
      "\<And>a b. map_words (span_text buf) (T a b) = T' (map_words (span_text buf) a) (map_words (span_text buf) b)"
      "\<And>a b. words (T a b) = words a \<union> words b"
  shows "refines lim (tree_rel buf es h)
    (andthen (peek buf es s1 [c]) (\<lambda>(b, s).
     if b then andthen (gettoken buf es s) (\<lambda>(_, _, _, s). andthen (f h1 s) (\<lambda>(r, h, s).
       andthen (mk p r h) (\<lambda>(cmd, h). Ret (cmd, h, s))))
     else Ret (p, h1, s)))
    (if next_in [c] xs then andthen (g (snd (snd (token xs)))) (\<lambda>(r, xs). Ret (T' t r, xs))
     else Ret (t, dropWhile white xs))"
proof -
  obtain k pt where h1: "h1 = h @ k" "represents h1 p pt" "map_words (span_text buf) pt = t" "\<forall>w\<in>words pt. word_at buf es w"
    "s1 \<le> es" "rest buf es s1 = xs" using R by (auto simp: tree_rel_def)
  obtain s2 where s2: "peek buf es s1 [c] = Ret (next_in [c] xs, s2)" "s2 \<le> es" "rest buf es s2 = dropWhile white xs"
    using peek_sim [OF l h1(5), of "[c]"] c h1(6) by auto
  obtain tok q e s3 where g: "gettoken buf es s2 = Ret (tok, q, e, s3)" "s3 \<le> es"
    "token xs = (tok, span_text buf (q, e), rest buf es s3)"
    using gettoken_sim [OF l s2(2)] unfolding s2(3) by (auto simp: token_white)
  have "refines lim (tree_rel buf es h) (andthen (f h1 s3) (\<lambda>(r, h, s). andthen (mk p r h) (\<lambda>(cmd, h). Ret (cmd, h, s))))
     (andthen (g (rest buf es s3)) (\<lambda>(r, xs). Ret (T' t r, xs)))"
  proof (rule refines_andthen [OF sub [OF g(2)]])
    fix x y assume r: "tree_rel buf es h1 x y"
    obtain p' h' s' u ys where xy: "x = (p', h', s')" "y = (u, ys)" by (cases x; cases y) auto
    obtain k' pu where r: "h' = h1 @ k'" "represents h' p' pu" "map_words (span_text buf) pu = u"
      "\<forall>w\<in>words pu. word_at buf es w" "s' \<le> es" "rest buf es s' = ys" using r unfolding xy by (auto simp: tree_rel_def)
    let ?h = "h' @ [N p p']"
    have "represents ?h p pt" "represents ?h p' pu" "p < Suc (length h')" "p' < Suc (length h')"
      using represents_append [OF h1(2), of "k' @ [N p p']"] represents_append [OF r(2), of "[N p p']"] r(1)
        represents_valid [OF h1(2)] represents_valid [OF r(2)] by (simp_all add: valid_def)
    moreover have "?h ! (Suc (length h') - 1) = N p p'" "valid ?h (Suc (length h'))" by (simp_all add: valid_def)
    ultimately have "represents ?h (Suc (length h')) (T pt pu)" unfolding T(1) by blast
    moreover have "?h = h @ (k @ k' @ [N p p'])" using h1(1) r(1) by simp
    ultimately have "tree_rel buf es h (Suc (length h'), ?h, s') (T' t u, ys)"
      using h1 r T(2,3) by (auto simp: tree_rel_def intro!: exI [of _ "k @ k' @ [N p p']"] exI [of _ "T pt pu"])
    then show "refines lim (tree_rel buf es h) (case x of (r, h, s) \<Rightarrow> andthen (mk p r h) (\<lambda>(cmd, h). Ret (cmd, h, s)))
        (case y of (r, xs) \<Rightarrow> Ret (T' t r, xs))" unfolding xy
      by (cases rule: alloc_cmd_cases [of lim "N p p'" h']) (auto simp: N intro: null_write_andthen)
  qed
  moreover have "tree_rel buf es h (p, h1, s2) (t, dropWhile white xs)" using h1 s2 by (auto simp: tree_rel_def)
  ultimately show ?thesis using s2 g by simp
qed

definition parser :: "nat option \<Rightarrow> level \<Rightarrow> nat \<Rightarrow> string \<Rightarrow> nat \<Rightarrow> cmds \<Rightarrow> nat \<Rightarrow> (nat \<times> cmds \<times> nat) outcome" where
  "parser lim lvl = (case lvl of Simple \<Rightarrow> parseexec lim | Block \<Rightarrow> parseblock lim | Pipeline \<Rightarrow> parsepipe lim | Line \<Rightarrow> parseline lim)"

lemma tree_rel_trans: "tree_rel buf es (h @ k) x y \<Longrightarrow> tree_rel buf es h x y"
  unfolding tree_rel_def by fastforce

lemma parsepipe_sim:
  assumes l: "line buf es" and s: "s \<le> es"
    and sub: "\<And>lvl h s. s \<le> es \<Longrightarrow> refines lim (tree_rel buf es h) (parser lim lvl fuel buf es h s) (parse fuel lvl (rest buf es s))"
  shows "refines lim (tree_rel buf es h) (parsepipe lim (Suc fuel) buf es h s) (parse (Suc fuel) Pipeline (rest buf es s))"
  unfolding parsepipe.simps parse.simps
proof (rule refines_andthen)
  show "refines lim (tree_rel buf es h) (parseexec lim fuel buf es h s) (parse fuel Simple (rest buf es s))"
    using sub [of s h Simple] s by (simp add: parser_def)
next
  fix x y assume r: "tree_rel buf es h x y"
  obtain p h1 s1 t xs where xy: "x = (p, h1, s1)" "y = (t, xs)" by (cases x; cases y) auto
  show "refines lim (tree_rel buf es h)
        (case x of (cmd, h, s) \<Rightarrow> andthen (peek buf es s ''|'') (\<lambda>(b, s).
           if b then andthen (gettoken buf es s) (\<lambda>(_, _, _, s). andthen (parsepipe lim fuel buf es h s) (\<lambda>(r, h, s).
             andthen (pipecmd lim cmd r h) (\<lambda>(cmd, h). Ret (cmd, h, s))))
           else Ret (cmd, h, s)))
        (case y of (t, xs) \<Rightarrow>
           if next_in ''|'' xs then andthen (parse fuel Pipeline (snd (snd (token xs)))) (\<lambda>(r, xs). Ret (TPipe t r, xs))
           else Ret (t, dropWhile white xs))"
    unfolding xy prod.case
    by (rule binary_sim [OF l r [unfolded xy], where N = Pipecmd and T = TPipe])
      (use sub [of _ _ Pipeline] in \<open>auto simp: parser_def pipecmd_def NUL_def\<close>)
qed

lemma parseline_sim:
  assumes l: "line buf es" and s: "s \<le> es"
    and sub: "\<And>lvl h s. s \<le> es \<Longrightarrow> refines lim (tree_rel buf es h) (parser lim lvl fuel buf es h s) (parse fuel lvl (rest buf es s))"
  shows "refines lim (tree_rel buf es h) (parseline lim (Suc fuel) buf es h s) (parse (Suc fuel) Line (rest buf es s))"
  unfolding parseline.simps parse.simps
proof (rule refines_andthen)
  show "refines lim (tree_rel buf es h) (parsepipe lim fuel buf es h s) (parse fuel Pipeline (rest buf es s))"
    using sub [of s h Pipeline] s by (simp add: parser_def)
next
  fix x y assume r: "tree_rel buf es h x y"
  obtain p h1 s1 t xs where xy: "x = (p, h1, s1)" "y = (t, xs)" by (cases x; cases y) auto
  obtain k pt where h1: "h1 = h @ k" "represents h1 p pt" "map_words (span_text buf) pt = t" "\<forall>w\<in>words pt. word_at buf es w"
    "s1 \<le> es" "rest buf es s1 = xs" using r unfolding xy by (auto simp: tree_rel_def)
  show "refines lim (tree_rel buf es h)
        (case x of (cmd, h, s) \<Rightarrow> andthen (parseline_back lim fuel buf es cmd h s) (\<lambda>(cmd, h, s).
           andthen (peek buf es s '';'') (\<lambda>(b, s).
           if b then andthen (gettoken buf es s) (\<lambda>(_, _, _, s). andthen (parseline lim fuel buf es h s) (\<lambda>(r, h, s).
             andthen (listcmd lim cmd r h) (\<lambda>(cmd, h). Ret (cmd, h, s))))
           else Ret (cmd, h, s))))
        (case y of (t, xs) \<Rightarrow> andthen (backs fuel t xs) (\<lambda>(t, xs).
           if next_in '';'' xs then andthen (parse fuel Line (snd (snd (token xs)))) (\<lambda>(r, xs). Ret (TList t r, xs))
           else Ret (t, dropWhile white xs)))"
    unfolding xy prod.case
  proof (rule refines_andthen)
    show "refines lim (tree_rel buf es h1) (parseline_back lim fuel buf es p h1 s1) (backs fuel t xs)"
      using parseline_back_sim [OF l h1(5,2,4)] h1(3,6) by simp
  next
    fix x y assume r: "tree_rel buf es h1 x y"
    obtain p' h2 s2 t' ys where xy: "x = (p', h2, s2)" "y = (t', ys)" by (cases x; cases y) auto
    have "tree_rel buf es h (p', h2, s2) (t', ys)" using r unfolding xy h1(1) by (rule tree_rel_trans)
    then show "refines lim (tree_rel buf es h)
          (case x of (cmd, h, s) \<Rightarrow> andthen (peek buf es s '';'') (\<lambda>(b, s).
             if b then andthen (gettoken buf es s) (\<lambda>(_, _, _, s). andthen (parseline lim fuel buf es h s) (\<lambda>(r, h, s).
               andthen (listcmd lim cmd r h) (\<lambda>(cmd, h). Ret (cmd, h, s))))
             else Ret (cmd, h, s)))
          (case y of (t, xs) \<Rightarrow>
             if next_in '';'' xs then andthen (parse fuel Line (snd (snd (token xs)))) (\<lambda>(r, xs). Ret (TList t r, xs))
             else Ret (t, dropWhile white xs))"
      unfolding xy prod.case
      by (rule binary_sim [OF l, where N = Listcmd and T = TList])
        (use sub [of _ _ Line] in \<open>auto simp: parser_def listcmd_def NUL_def\<close>)
  qed
qed

lemma redirs_around:
  assumes "redir_rel buf es h cmd (p', h', s') (rs, xs)" and "represents h cmd pt" and "\<forall>w\<in>words pt. word_at buf es w"
  shows "tree_rel buf es h (p', h', s') (wrap rs (map_words (span_text buf) pt), xs)"
proof -
  obtain k rps where k: "h' = h @ k" "chain h' p' rps cmd" "redir_text buf rps = rs" "\<forall>w\<in>fst ` set rps. word_at buf es w"
    "s' \<le> es" "rest buf es s' = xs" using assms(1) by (auto simp: redir_rel_def)
  have "represents h' p' (wrap rps pt)" using chain_represents [OF k(2)] represents_append [OF assms(2)] k(1) by simp
  moreover have "\<forall>w\<in>words (wrap rps pt). word_at buf es w" using k(4) assms(3) unfolding wrap_words by blast
  ultimately show ?thesis using k by (auto simp: tree_rel_def wrap_text intro!: exI [of _ "wrap rps pt"])
qed

lemma block_end_sim:
  assumes l: "line buf es" and R: "tree_rel buf es h (p, h1, s1) (t, xs)"
  shows "refines lim (tree_rel buf es h)
    (andthen (peek buf es s1 '')'') (\<lambda>(b, s).
     if \<not> b then Panic ''syntax - missing )''
     else andthen (gettoken buf es s) (\<lambda>(_, _, _, s). parseredirs lim fuel buf es p h1 s)))
    (if \<not> next_in '')'' xs then Panic ''syntax - missing )''
     else andthen (redirs fuel [] (snd (snd (token xs)))) (\<lambda>(rs, xs). Ret (wrap rs t, xs)))"
proof -
  obtain k pt where h1: "h1 = h @ k" "represents h1 p pt" "map_words (span_text buf) pt = t" "\<forall>w\<in>words pt. word_at buf es w"
    "s1 \<le> es" "rest buf es s1 = xs" using R by (auto simp: tree_rel_def)
  obtain s2 where s2: "peek buf es s1 '')'' = Ret (next_in '')'' xs, s2)" "s2 \<le> es" "rest buf es s2 = dropWhile white xs"
    using peek_sim [OF l h1(5), of "'')''"] h1(6) by (auto simp: NUL_def)
  obtain tok q e s3 where g: "gettoken buf es s2 = Ret (tok, q, e, s3)" "s3 \<le> es"
    "token xs = (tok, span_text buf (q, e), rest buf es s3)"
    using gettoken_sim [OF l s2(2)] unfolding s2(3) by (auto simp: token_white)
  have "chain h1 p [] p" using represents_valid [OF h1(2)] by simp
  then have "refines lim (redir_rel buf es h1 p) (parseredirs lim fuel buf es p h1 s3) (redirs fuel [] (rest buf es s3))"
    using parseredirs_sim [OF l g(2), of h1 p "[]" p lim fuel] by (simp add: redir_text_def)
  then have "refines lim (tree_rel buf es h) (andthen (parseredirs lim fuel buf es p h1 s3) Ret)
    (andthen (redirs fuel [] (rest buf es s3)) (\<lambda>(rs, xs). Ret (wrap rs t, xs)))"
  proof (rule refines_andthen)
    fix x y assume r: "redir_rel buf es h1 p x y"
    obtain p' h' s' rs ys where xy: "x = (p', h', s')" "y = (rs, ys)" by (cases x; cases y) auto
    show "refines lim (tree_rel buf es h) (Ret x) (case y of (rs, xs) \<Rightarrow> Ret (wrap rs t, xs))"
      using redirs_around [OF r [unfolded xy] h1(2,4)] tree_rel_trans unfolding xy h1(1,3) by auto
  qed
  then show ?thesis using s2 g by simp
qed

lemma parseblock_sim:
  assumes l: "line buf es" and s: "s \<le> es"
    and sub: "\<And>lvl h s. s \<le> es \<Longrightarrow> refines lim (tree_rel buf es h) (parser lim lvl fuel buf es h s) (parse fuel lvl (rest buf es s))"
  shows "refines lim (tree_rel buf es h) (parseblock lim (Suc fuel) buf es h s) (parse (Suc fuel) Block (rest buf es s))"
proof -
  obtain s2 where s2: "peek buf es s ''('' = Ret (next_in ''('' (rest buf es s), s2)" "s2 \<le> es"
    "rest buf es s2 = dropWhile white (rest buf es s)"
    using peek_sim [OF l s, of "''(''"] by (auto simp: NUL_def)
  obtain tok q e s3 where g: "gettoken buf es s2 = Ret (tok, q, e, s3)" "s3 \<le> es"
    "token (rest buf es s) = (tok, span_text buf (q, e), rest buf es s3)"
    using gettoken_sim [OF l s2(2)] unfolding s2(3) by (auto simp: token_white)
  have "refines lim (tree_rel buf es h)
     (andthen (parseline lim fuel buf es h s3) (\<lambda>(cmd, h, s).
       andthen (peek buf es s '')'') (\<lambda>(b, s).
       if \<not> b then Panic ''syntax - missing )''
       else andthen (gettoken buf es s) (\<lambda>(_, _, _, s). parseredirs lim fuel buf es cmd h s))))
     (andthen (parse fuel Line (rest buf es s3)) (\<lambda>(t, xs).
        if \<not> next_in '')'' xs then Panic ''syntax - missing )''
        else andthen (redirs fuel [] (snd (snd (token xs)))) (\<lambda>(rs, xs). Ret (wrap rs t, xs))))"
    by (rule refines_andthen [where R = "tree_rel buf es h"])
      (use sub [of s3 h Line] g(2) block_end_sim [OF l] in \<open>auto simp: parser_def simp del: refines_simps\<close>)
  then show ?thesis using s2 g by simp
qed

lemma parseexec_sim:
  assumes l: "line buf es" and s: "s \<le> es"
    and sub: "\<And>lvl h s. s \<le> es \<Longrightarrow> refines lim (tree_rel buf es h) (parser lim lvl fuel buf es h s) (parse fuel lvl (rest buf es s))"
  shows "refines lim (tree_rel buf es h) (parseexec lim (Suc fuel) buf es h s) (parse (Suc fuel) Simple (rest buf es s))"
proof -
  obtain s2 where s2: "peek buf es s ''('' = Ret (next_in ''('' (rest buf es s), s2)" "s2 \<le> es"
    "rest buf es s2 = dropWhile white (rest buf es s)"
    using peek_sim [OF l s, of "''(''"] by (auto simp: NUL_def)
  have skipw: "parse f Block (dropWhile white xs) = parse f Block xs" for f xs by (cases f) (simp_all add: token_white)
  have skipr: "redirs f rs (dropWhile white xs) = redirs f rs xs" for f rs xs by (cases f) (simp_all add: token_white)
  let ?cmd = "Suc (length h)" and ?h = "h @ [exec_node []]"
  have i: "exec_inv buf es h ?cmd ?cmd ?h [] []" by (simp add: exec_inv_def valid_def MAXARGS_def)
  have "refines lim (tree_rel buf es h)
     (andthen (parseredirs lim fuel buf es ?cmd ?h s2) (\<lambda>(ret, h, s). parseexec_loop lim fuel buf es ?cmd ret 0 h s))
     (andthen (redirs fuel [] (rest buf es s2)) (\<lambda>(rs, xs). simple_loop fuel [] rs xs))"
  proof (rule refines_andthen)
    show "refines lim (redir_rel buf es ?h ?cmd) (parseredirs lim fuel buf es ?cmd ?h s2) (redirs fuel [] (rest buf es s2))"
      using parseredirs_sim [OF l s2(2), of ?h ?cmd "[]" ?cmd lim fuel] by (simp add: redir_text_def valid_def)
  next
    fix x y assume r: "redir_rel buf es ?h ?cmd x y"
    obtain p' h' s' rs ys where xy: "x = (p', h', s')" "y = (rs, ys)" by (cases x; cases y) auto
    show "refines lim (tree_rel buf es h) (case x of (ret, h, s) \<Rightarrow> parseexec_loop lim fuel buf es ?cmd ret 0 h s)
        (case y of (rs, xs) \<Rightarrow> simple_loop fuel [] rs xs)"
      using exec_inv_redirs [OF i r [unfolded xy]] parseexec_loop_sim [OF l, of s' h ?cmd p' h' "[]" _ lim fuel] unfolding xy by auto
  qed
  moreover have "execcmd lim h = alloc_cmd lim (exec_node []) h" by (simp add: execcmd_def exec_node_def)
  moreover have "refines lim (tree_rel buf es h) (parseblock lim fuel buf es h s2) (parse fuel Block (rest buf es s))"
    using sub [of s2 h Block] s2(2,3) by (simp add: parser_def skipw)
  ultimately show ?thesis using s2
    by (cases rule: alloc_cmd_cases [of lim "exec_node []" h])
      (auto simp: skipr simp del: refines_simps intro: refines_null null_write_andthen)
qed

lemma parse_sim:
  assumes "line buf es" and "s \<le> es"
  shows "refines lim (tree_rel buf es h) (parser lim lvl fuel buf es h s) (parse fuel lvl (rest buf es s))"
  using assms(2)
proof (induction fuel arbitrary: lvl h s)
  case (Suc fuel)
  note sims = parseexec_sim parseblock_sim parsepipe_sim parseline_sim
  show ?case using sims [OF assms(1) Suc.prems Suc.IH, of h] by (cases lvl) (simp_all add: parser_def)
qed (simp add: parser_def split: level.split)

section \<open>The grammar ends\<close>

definition syntax_errors :: "string set" where
  "syntax_errors = {''syntax'', ''syntax - missing )'', ''missing file for redirection'', ''too many args''}"

text \<open>\<open>ends m Q\<close>: \<open>m\<close> returns something that satisfies \<open>Q\<close>, or reports a syntax error.\<close>

definition ends :: "'a outcome \<Rightarrow> ('a \<Rightarrow> bool) \<Rightarrow> bool" where
  "ends m Q \<longleftrightarrow> (case m of Ret x \<Rightarrow> Q x | Panic e \<Rightarrow> e \<in> syntax_errors | Undef e \<Rightarrow> False | Diverge \<Rightarrow> False)"

lemma ends_simps [simp]:
  "ends (Ret x) Q \<longleftrightarrow> Q x" "ends (Panic e) Q \<longleftrightarrow> e \<in> syntax_errors" "\<not> ends Diverge Q" "\<not> ends (Undef e) Q"
  by (simp_all add: ends_def)

lemma ends_andthen: "ends m P \<Longrightarrow> (\<And>x. P x \<Longrightarrow> ends (f x) Q) \<Longrightarrow> ends (andthen m f) Q"
  by (cases m) auto

lemma ends_mono: "ends m P \<Longrightarrow> (\<And>x. P x \<Longrightarrow> Q x) \<Longrightarrow> ends m Q"
  by (cases m) auto

lemma ends_len: "ends m (\<lambda>(x, ys). length ys \<le> a) \<Longrightarrow> a \<le> b \<Longrightarrow> ends m (\<lambda>(x, ys). length ys \<le> b)"
  by (erule ends_mono) auto

lemma ends_step:
  assumes "ends m (\<lambda>(x, ys). length ys \<le> n)" and "\<And>x ys. length ys \<le> n \<Longrightarrow> ends (f (x, ys)) Q"
  shows "ends (andthen m f) Q"
  by (rule ends_andthen [OF assms(1)]) (use assms(2) in auto)

lemma token_shorter:
  assumes "token xs = (t, w, ys)"
  shows "length ys \<le> length xs" and "t \<noteq> NUL \<Longrightarrow> length ys < length xs" and "next_in toks xs \<Longrightarrow> length ys < length xs"
proof -
  have d: "length (dropWhile P zs) \<le> length zs" for P :: "char \<Rightarrow> bool" and zs by (rule length_dropWhile_le)
  have w: "length (dropWhile white (dropWhile wordc (c # cs))) < Suc (length cs)" if "wordc c" for c cs
    using that d [of white "dropWhile wordc cs"] d [of wordc cs] by simp
  have n: "length ys < length xs" if "dropWhile white xs \<noteq> []"
  proof (cases "dropWhile white xs")
    case (Cons c cs)
    have l: "length cs < length xs" using d [of white xs] Cons by simp
    have "\<not> white c" using hd_dropWhile [of white xs] Cons by simp
    then have "wordc c" if "c \<notin> set ''|();&<''" "c \<noteq> CHR ''>''" using that by (auto simp: wordc_iff symbols_def)
    then show ?thesis using assms l d [of white cs] d [of white "tl cs"] w [of c cs] unfolding token_def Cons
      by (auto split: if_splits)
  qed (use that in simp)
  show "length ys \<le> length xs" using assms n by (cases "dropWhile white xs = []") (auto simp: token_def)
  show "t \<noteq> NUL \<Longrightarrow> length ys < length xs" using assms n by (cases "dropWhile white xs = []") (auto simp: token_def)
  show "next_in toks xs \<Longrightarrow> length ys < length xs" using n by (cases "dropWhile white xs = []") (auto simp: next_in_def)
qed

lemma redirs_ends: "length xs < fuel \<Longrightarrow> ends (redirs fuel rs xs) (\<lambda>(rs, ys). length ys \<le> length xs)"
proof (induction fuel arbitrary: rs xs)
  case (Suc fuel)
  obtain tok v ys where y: "token xs = (tok, v, ys)" by (cases "token xs")
  obtain t w zs where z: "token ys = (t, w, zs)" by (cases "token ys")
  show ?case
  proof (cases "next_in ''<>'' xs")
    case True
    have "length zs < length xs" using token_shorter(3) [OF y True] token_shorter(1) [OF z] by simp
    then have "ends (redirs fuel r zs) (\<lambda>(rs, ys). length ys \<le> length xs)" for r
      using Suc.prems by (intro ends_len [OF Suc.IH]) simp_all
    then show ?thesis using True by (simp add: y z syntax_errors_def)
  qed (simp add: length_dropWhile_le)
qed simp

lemma simple_loop_ends: "length xs < fuel \<Longrightarrow> ends (simple_loop fuel ws rs xs) (\<lambda>(t, ys). length ys \<le> length xs)"
proof (induction fuel arbitrary: ws rs xs)
  case (Suc fuel)
  obtain t w ys where y: "token xs = (t, w, ys)" by (cases "token xs")
  have "ends (andthen (redirs fuel rs ys) (\<lambda>(rs, zs). simple_loop fuel ws' rs zs)) (\<lambda>(t, zs). length zs \<le> length xs)"
    if "t \<noteq> NUL" for ws'
  proof -
    have l: "length ys < length xs" using token_shorter(2) [OF y that] .
    have "ends (simple_loop fuel ws' r zs) (\<lambda>(t, us). length us \<le> length xs)" if "length zs \<le> length ys" for r zs
      using Suc.prems l that by (intro ends_len [OF Suc.IH]) simp_all
    then show ?thesis using Suc.prems l by (intro ends_step [OF redirs_ends]) auto
  qed
  then show ?case using token_shorter(1) [OF y] by (auto simp: y syntax_errors_def length_dropWhile_le)
qed simp

lemma backs_ends: "length xs < fuel \<Longrightarrow> ends (backs fuel t xs) (\<lambda>(t, ys). length ys \<le> length xs)"
proof (induction fuel arbitrary: t xs)
  case (Suc fuel)
  obtain tok w ys where y: "token xs = (tok, w, ys)" by (cases "token xs")
  have "ends (backs fuel u ys) (\<lambda>(t, zs). length zs \<le> length xs)" if "next_in ''&'' xs" for u
  proof -
    have l: "length ys < length xs" using token_shorter(3) [OF y that] .
    show ?thesis using Suc.prems l by (intro ends_len [OF Suc.IH]) simp_all
  qed
  then show ?case by (simp add: y length_dropWhile_le)
qed simp

fun extra :: "level \<Rightarrow> nat" where
  "extra Block = 1" | "extra Simple = 2" | "extra Pipeline = 3" | "extra Line = 4"

lemma token_next_shorter: "next_in toks xs \<Longrightarrow> length (snd (snd (token xs))) < length xs"
  using token_shorter(3) [of xs] by (cases "token xs") auto

lemma parse_ends:
  assumes "4 * length xs + extra lvl \<le> fuel" and "lvl = Block \<longrightarrow> next_in ''('' xs"
  shows "ends (parse fuel lvl xs) (\<lambda>(t, ys). length ys \<le> length xs)"
  using assms
proof (induction fuel arbitrary: lvl xs)
  case 0
  then show ?case by (cases lvl) auto
next
  case (Suc fuel)
  have IH: "ends (parse fuel l zs) (\<lambda>(t, ys). length ys \<le> length xs)"
    if "4 * length zs + extra l \<le> fuel" "l = Block \<longrightarrow> next_in ''('' zs" "length zs \<le> length xs" for l zs
    by (rule ends_len [OF Suc.IH [OF that(1,2)] that(3)])
  have nx: "ends (parse fuel l (snd (snd (token zs)))) (\<lambda>(t, ys). length ys \<le> length xs)"
    if "next_in toks zs" "length zs \<le> length xs" "4 * length xs + extra l \<le> fuel + 4" "l \<noteq> Block" for l toks zs
    using token_next_shorter [OF that(1)] that by (intro IH) auto
  show ?case
  proof (cases lvl)
    case Line
    then have f: "4 * length xs + 3 \<le> fuel" using Suc.prems by simp
    have "ends (if next_in '';'' ys then andthen (parse fuel Line (snd (snd (token ys)))) (\<lambda>(r, xs). Ret (TList t r, xs))
        else Ret (t, dropWhile white ys)) (\<lambda>(t, zs). length zs \<le> length xs)" if "length ys \<le> length xs" for t ys
      using that nx [of _ ys Line] f le_trans [OF length_dropWhile_le that] by (auto intro!: ends_step)
    moreover have "ends (backs fuel t ys) (\<lambda>(t, zs). length zs \<le> length xs)" if "length ys \<le> length xs" for t ys
      using that f by (intro ends_len [OF backs_ends]) auto
    ultimately show ?thesis using IH [of xs Pipeline] f by (auto simp: Line intro!: ends_step)
  next
    case Pipeline
    then have f: "4 * length xs + 2 \<le> fuel" using Suc.prems by simp
    have "ends (if next_in ''|'' ys then andthen (parse fuel Pipeline (snd (snd (token ys)))) (\<lambda>(r, xs). Ret (TPipe t r, xs))
        else Ret (t, dropWhile white ys)) (\<lambda>(t, zs). length zs \<le> length xs)" if "length ys \<le> length xs" for t ys
      using that nx [of _ ys Pipeline] f le_trans [OF length_dropWhile_le that] by (auto intro!: ends_step)
    then show ?thesis using IH [of xs Simple] f by (auto simp: Pipeline intro!: ends_step)
  next
    case Simple
    then have f: "4 * length xs + 1 \<le> fuel" using Suc.prems by simp
    have "ends (simple_loop fuel [] rs ys) (\<lambda>(t, zs). length zs \<le> length xs)" if "length ys \<le> length xs" for rs ys
      using that f by (intro ends_len [OF simple_loop_ends]) auto
    then have "ends (andthen (redirs fuel [] xs) (\<lambda>(rs, ys). simple_loop fuel [] rs ys)) (\<lambda>(t, zs). length zs \<le> length xs)"
      using f by (intro ends_step [OF redirs_ends]) auto
    then show ?thesis using IH [of xs Block] f by (simp add: Simple)
  next
    case Block
    then have f: "4 * length xs \<le> fuel" and b: "next_in ''('' xs" using Suc.prems by simp_all
    have r: "ends (redirs fuel [] zs) (\<lambda>(rs, us). length us \<le> length xs)" if "length zs < length xs" for zs
      using that f by (intro ends_len [OF redirs_ends]) auto
    have "ends (if \<not> next_in '')'' ys then Panic ''syntax - missing )''
        else andthen (redirs fuel [] (snd (snd (token ys)))) (\<lambda>(rs, xs). Ret (wrap rs t, xs))) (\<lambda>(t, zs). length zs \<le> length xs)"
      if "length ys \<le> length xs" for t ys
      using r [of "snd (snd (token ys))"] token_next_shorter [of "'')''" ys] that
      by (auto simp: syntax_errors_def intro!: ends_step)
    then show ?thesis using nx [of "''(''" xs Line] b f by (auto simp: Block intro!: ends_step)
  qed
qed

section \<open>Terminating the words\<close>

text \<open>\<open>nulled E b b'\<close>: \<open>b'\<close> is \<open>b\<close> with NULs at the positions \<open>E\<close>.\<close>

definition nulled :: "nat set \<Rightarrow> string \<Rightarrow> string \<Rightarrow> bool" where
  "nulled E b b' \<longleftrightarrow> length b' = length b \<and> (\<forall>i<length b. b' ! i = (if i \<in> E then NUL else b ! i))"

lemma nulled_trans: "nulled E b b' \<Longrightarrow> nulled F b' b'' \<Longrightarrow> nulled (E \<union> F) b b''"
  by (auto simp: nulled_def)

lemma nulled_one: "nulled {e} b (b[e := NUL])"
  by (auto simp: nulled_def nth_list_update)

lemma nul_args_spec:
  assumes "\<forall>w\<in>set ts. snd w < length b" and "0 < n"
  shows "runs (nul_args (map (\<lambda>w. Some (fst w)) ts @ replicate n None) (map (\<lambda>w. Some (snd w)) ts @ replicate n None) b)
    (nulled (snd ` set ts) b)"
  using assms
proof (induction ts arbitrary: b)
  case Nil
  then show ?case by (cases n) (auto simp: nulled_def)
next
  case (Cons w ts)
  have "runs (nul_args (map (\<lambda>w. Some (fst w)) ts @ replicate n None) (map (\<lambda>w. Some (snd w)) ts @ replicate n None) (b[snd w := NUL]))
      (nulled (snd ` set ts) (b[snd w := NUL]))" using Cons by simp
  then show ?case using Cons.prems nulled_trans [OF nulled_one [of "snd w" b]] by (auto elim!: runs_mono)
qed

lemma nulterminate_spec:
  assumes "represents h p pt" and "p < fuel" and "\<forall>w\<in>words pt. snd w < length b"
  shows "runs (nulterminate fuel h p b) (nulled (snd ` words pt) b)"
  using assms
proof (induction pt arbitrary: p fuel b)
  case (TExec ts)
  then show ?case using nul_args_spec [of ts b "MAXARGS - length ts"]
    by (cases fuel) (auto simp: exec_node_def valid_def)
next
  case (TRedir pt w mode fd)
  then obtain c f where c: "fuel = Suc f" "valid h p" "c < p" "h ! (p - 1) = Redircmd c (fst w) (snd w) mode fd" "represents h c pt"
    by (cases fuel) auto
  have "runs (nulterminate f h c b) (nulled (snd ` words pt) b)" using TRedir c by (intro TRedir.IH) auto
  moreover have "snd w < length b'" "nulled (insert (snd w) (snd ` words pt)) b (b'[snd w := NUL])"
    if "nulled (snd ` words pt) b b'" for b'
    using that TRedir.prems(3) nulled_trans [OF that nulled_one [of "snd w"]] by (simp_all add: nulled_def)
  ultimately show ?case using c by (auto simp: valid_def elim!: runs_mono)
next
  case (TPipe t u)
  then obtain c d f where c: "fuel = Suc f" "valid h p" "c < p" "d < p" "h ! (p - 1) = Pipecmd c d" "represents h c t" "represents h d u"
    by (cases fuel) auto
  have "runs (nulterminate f h d b') (nulled (snd ` words u) b')" if "nulled (snd ` words t) b b'" for b'
    using TPipe c that by (intro TPipe.IH(2)) (auto simp: nulled_def)
  moreover have "runs (nulterminate f h c b) (nulled (snd ` words t) b)" using TPipe c by (intro TPipe.IH(1)) auto
  ultimately show ?case using c nulled_trans by (fastforce simp: valid_def image_Un elim!: runs_mono)
next
  case (TList t u)
  then obtain c d f where c: "fuel = Suc f" "valid h p" "c < p" "d < p" "h ! (p - 1) = Listcmd c d" "represents h c t" "represents h d u"
    by (cases fuel) auto
  have "runs (nulterminate f h d b') (nulled (snd ` words u) b')" if "nulled (snd ` words t) b b'" for b'
    using TList c that by (intro TList.IH(2)) (auto simp: nulled_def)
  moreover have "runs (nulterminate f h c b) (nulled (snd ` words t) b)" using TList c by (intro TList.IH(1)) auto
  ultimately show ?case using c nulled_trans by (fastforce simp: valid_def image_Un elim!: runs_mono)
next
  case (TBack t)
  then obtain c f where c: "fuel = Suc f" "valid h p" "c < p" "h ! (p - 1) = Backcmd c" "represents h c t" by (cases fuel) auto
  have "runs (nulterminate f h c b) (nulled (snd ` words t) b)" using TBack c by (intro TBack.IH) auto
  then show ?case using c by (auto simp: valid_def)
qed

text \<open>Words end before delimiters, so no NUL lands inside a word, and each word is a C string afterwards.\<close>

lemma nulled_word:
  assumes l: "line buf es" and ok: "\<forall>w\<in>W. word_at buf es w" and n: "nulled (snd ` W) buf b" and w: "w \<in> W"
  shows "str_from b (fst w) = span_text buf w"
proof -
  obtain q e where qe: "w = (q, e)" by (cases w)
  have wa: "q \<le> e" "e \<le> es" "\<And>i. q \<le> i \<Longrightarrow> i < e \<Longrightarrow> wordc (buf ! i)" using ok w by (auto simp: word_at_def qe)
  have len: "length b = length buf" "es < length buf" using n l by (simp_all add: nulled_def line_def)
  have keep: "b ! i = buf ! i \<and> buf ! i \<noteq> NUL" if "q \<le> i" "i < e" for i
  proof -
    have "i \<notin> snd ` W"
    proof
      assume "i \<in> snd ` W"
      then have "i = es \<or> \<not> wordc (buf ! i)" using ok by (auto simp: word_at_def)
      then show False using wa that by auto
    qed
    then show ?thesis using n l that wa(2) by (simp add: nulled_def line_def)
  qed
  have "b ! e = NUL" using n w wa(2) len by (force simp: nulled_def qe)
  then have "drop e b = NUL # drop (Suc e) b" using wa(2) len by (simp add: Cons_nth_drop_Suc [symmetric])
  moreover have "take (e - q) (drop q b) = span_text buf w"
    using keep wa len by (intro nth_equalityI) (auto simp: span_text_def qe)
  ultimately have "drop q b = span_text buf w @ NUL # drop (Suc e) b"
    using append_take_drop_id [of "e - q" "drop q b"] wa(1) by simp
  moreover have "\<forall>c\<in>set (span_text buf w). c \<noteq> NUL"
    using keep wa len by (auto simp: in_set_conv_nth span_text_def qe)
  ultimately show ?thesis by (simp add: str_from_def qe takeWhile_append2)
qed

section \<open>Correctness of the parser\<close>

text \<open>The command at \<open>p\<close> denotes the tree \<open>t\<close> of the strings that its pointers point to.\<close>

definition denotes :: "cmds \<Rightarrow> string \<Rightarrow> nat \<Rightarrow> string tree \<Rightarrow> bool" where
  "denotes h buf p t \<longleftrightarrow> (\<exists>pt. represents h p pt \<and> t = map_words (\<lambda>w. str_from buf (fst w)) pt)"

lemma line_str:
  assumes "NUL \<in> set buf"
  shows "line buf (length (str_from buf 0))" and "rest buf (length (str_from buf 0)) 0 = str_from buf 0"
proof -
  obtain us vs where buf: "buf = us @ NUL # vs" "NUL \<notin> set us" using split_list_first [OF assms] by auto
  then have "\<forall>c\<in>set us. c \<noteq> NUL" by auto
  then have s: "str_from buf 0 = us" by (simp add: str_from_def buf(1) takeWhile_append2)
  have "us ! i \<noteq> NUL" if "i < length us" for i using nth_mem [OF that] buf(2) by metis
  then show "line buf (length (str_from buf 0))" unfolding s by (simp add: line_def buf(1) nth_append)
  show "rest buf (length (str_from buf 0)) 0 = str_from buf 0" unfolding s by (simp add: rest_def buf(1))
qed

lemma str_from_rest:
  assumes "line buf es" and "s \<le> es"
  shows "str_from buf s = rest buf es s"
proof -
  have l: "es < length buf" "buf ! es = NUL" "\<And>i. i < es \<Longrightarrow> buf ! i \<noteq> NUL" using assms(1) by (auto simp: line_def)
  have "drop s buf = rest buf es s @ drop es buf"
    using append_take_drop_id [of "es - s" "drop s buf"] assms(2) by (simp add: rest_def)
  also have "drop es buf = NUL # drop (Suc es) buf" using Cons_nth_drop_Suc [OF l(1)] l(2) by simp
  finally have d: "drop s buf = rest buf es s @ NUL # drop (Suc es) buf" .
  have "c \<noteq> NUL" if "c \<in> set (rest buf es s)" for c
    using that l(1,3) by (auto simp: rest_def in_set_conv_nth)
  then show ?thesis unfolding str_from_def d by (subst takeWhile_append2) auto
qed

lemma parsecmd_sim:
  assumes "NUL \<in> set buf"
  shows "refines lim (\<lambda>(cmd, h, buf') t. denotes h buf' cmd t) (parsecmd lim buf) (parse_line (str_from buf 0))"
proof -
  define es where "es = length (str_from buf 0)"
  note l = line_str(1) [OF assms, folded es_def]
  have "str_len buf = Ret es" using assms by (simp add: str_len_def es_def)
  moreover have "refines lim (\<lambda>(cmd, h, buf') t. denotes h buf' cmd t)
      (andthen (parseline lim (4 * es + 4) buf es [] 0) (\<lambda>(cmd, h, s).
       andthen (peek buf es s []) (\<lambda>(_, s).
       if s \<noteq> es then Panic (leftovers (str_from buf s))
       else andthen (nulterminate (Suc cmd) h cmd buf) (\<lambda>buf. Ret (cmd, h, buf)))))
      (andthen (parse (4 * es + 4) Line (str_from buf 0)) (\<lambda>(t, xs).
       if dropWhile white xs \<noteq> [] then Panic (leftovers (dropWhile white xs)) else Ret t))"
  proof (rule refines_andthen)
    show "refines lim (tree_rel buf es []) (parseline lim (4 * es + 4) buf es [] 0) (parse (4 * es + 4) Line (str_from buf 0))"
      using parse_sim [OF l, of 0 lim "[]" Line] line_str(2) [OF assms, folded es_def] by (simp add: parser_def)
  next
    fix x y assume r: "tree_rel buf es [] x y"
    obtain p h s t xs where xy: "x = (p, h, s)" "y = (t, xs)" by (cases x; cases y) auto
    obtain pt where r: "represents h p pt" "map_words (span_text buf) pt = t" "\<forall>w\<in>words pt. word_at buf es w" "s \<le> es" "rest buf es s = xs"
      using r by (auto simp: tree_rel_def xy)
    obtain s1 where s1: "peek buf es s [] = Ret (next_in [] xs, s1)" "s1 \<le> es" "rest buf es s1 = dropWhile white xs"
      using peek_sim [OF l r(4), of "[]"] r(5) by auto
    have e: "dropWhile white xs \<noteq> [] \<longleftrightarrow> s1 \<noteq> es" using s1(2) l unfolding s1(3) [symmetric] by (auto simp: rest_def line_def)
    have "\<forall>w\<in>words pt. snd w < length buf" using r(3) l by (fastforce simp: word_at_def line_def)
    then obtain b where b: "nulterminate (Suc p) h p buf = Ret b" "nulled (snd ` words pt) buf b"
      using nulterminate_spec [OF r(1), of "Suc p" buf] by (auto simp: runs_iff)
    have "t = map_words (\<lambda>w. str_from b (fst w)) pt"
      unfolding r(2) [symmetric] using nulled_word [OF l r(3) b(2)] by (intro tree.map_cong0) simp
    then have "denotes h b p t" using r(1) by (auto simp: denotes_def)
    then show "refines lim (\<lambda>(cmd, h, buf') t. denotes h buf' cmd t)
        (case x of (cmd, h, s) \<Rightarrow> andthen (peek buf es s []) (\<lambda>(_, s).
           if s \<noteq> es then Panic (leftovers (str_from buf s)) else andthen (nulterminate (Suc cmd) h cmd buf) (\<lambda>buf. Ret (cmd, h, buf))))
        (case y of (t, xs) \<Rightarrow> if dropWhile white xs \<noteq> [] then Panic (leftovers (dropWhile white xs)) else Ret t)"
      using s1 e b(1) str_from_rest [OF l s1(2)] by (simp add: xy)
  qed
  ultimately show ?thesis by (simp add: parsecmd_def parse_line_def es_def)
qed

end
