(* ===== verification/Shprint.thy ===== *)
theory Shprint
  imports Shparse
begin

text \<open>
  Printing commands of the shell and reading them back.  \<open>show_cmd\<close> writes a syntax tree with the brackets
  that the grammar needs; the parser of the shell reads every printed tree as that tree.
\<close>

section \<open>Printing\<close>

definition redir_char :: "int \<Rightarrow> char" where
  "redir_char fd = (if fd = 0 then CHR ''<'' else CHR ''>'')"

definition brackets :: "bool \<Rightarrow> string \<Rightarrow> string" where
  "brackets b str = (if b then ''('' @ str @ '')'' else str)"

definition show_words :: "string list \<Rightarrow> string" where
  "show_words ws = concat (map (\<lambda>w. CHR '' '' # w) ws)"

fun show_cmd :: "nat \<Rightarrow> string tree \<Rightarrow> string" where
  "show_cmd prec (TExec ws) = show_words ws"
| "show_cmd prec (TRedir t w mode fd) = show_cmd 0 t @ redir_char fd # w"
| "show_cmd prec (TPipe t u) = brackets (prec < 1) (show_cmd 0 t @ ''|'' @ show_cmd 1 u)"
| "show_cmd prec (TBack t) = brackets (prec < 2) (show_cmd 2 t @ ''&'')"
| "show_cmd prec (TList t u) = brackets (prec < 3) (show_cmd 2 t @ '';'' @ show_cmd 3 u)"

text \<open>A word is not empty and has no delimiters; a command has fewer than \<open>MAXARGS\<close> words.\<close>

definition is_word :: "string \<Rightarrow> bool" where
  "is_word w \<longleftrightarrow> w \<noteq> [] \<and> (\<forall>c\<in>set w. wordc c \<and> c \<noteq> NUL)"

definition is_redir :: "uint \<Rightarrow> int \<Rightarrow> bool" where
  "is_redir mode fd \<longleftrightarrow> (mode, fd) = (O_RDONLY, 0) \<or> (mode, fd) = (O_WRONLY OR O_CREATE, 1)"

fun proper :: "string tree \<Rightarrow> bool" where
  "proper (TExec ws) \<longleftrightarrow> length ws < MAXARGS \<and> list_all is_word ws"
| "proper (TRedir t w mode fd) \<longleftrightarrow> proper t \<and> is_word w \<and> is_redir mode fd"
| "proper (TPipe t u) \<longleftrightarrow> proper t \<and> proper u"
| "proper (TBack t) \<longleftrightarrow> proper t"
| "proper (TList t u) \<longleftrightarrow> proper t \<and> proper u"

section \<open>Tokens of printed text\<close>

definition follow :: "string \<Rightarrow> string \<Rightarrow> bool" where
  "follow F ys \<longleftrightarrow> ys = [] \<or> hd ys \<in> set F"

lemma follow_simps [simp]: "follow F []" "follow F (c # ys) \<longleftrightarrow> c \<in> set F"
  by (simp_all add: follow_def)

lemma symbol_not_white: "c \<in> set symbols \<Longrightarrow> \<not> white c"
  by (auto simp: symbols_def white_def whitespace_def NUL_def)

lemma white_blank: "white CHR '' ''"
  by (simp add: white_def whitespace_def NUL_def)

lemma wordc_white: "wordc c \<Longrightarrow> \<not> white c"
  by (simp add: wordc_iff)

lemma follow_symbols:
  assumes "follow symbols ys"
  shows "dropWhile white ys = ys" and "next_in toks ys \<longleftrightarrow> ys \<noteq> [] \<and> hd ys \<in> set toks"
  using assms symbol_not_white by (cases ys; auto simp: next_in_def)+

lemma token_symbol:
  assumes "c \<in> set ''|();&<''"
  shows "token (c # ys) = (c, [c], dropWhile white ys)"
  using assms symbol_not_white [of c] by (auto simp: token_def symbols_def)

lemma next_in_word:
  assumes "is_word w" and "NUL \<notin> set toks" and "set toks \<subseteq> set symbols"
  shows "\<not> next_in toks (w @ ys)" and "\<not> next_in toks (CHR '' '' # w @ ys)"
  using assms white_blank by (cases w; auto simp: is_word_def next_in_def wordc_iff)+

lemma token_word:
  assumes "is_word w" and "follow (CHR '' '' # symbols) ys"
  shows "token (w @ ys) = (CHR ''a'', w, dropWhile white ys)"
proof -
  obtain c w' where w: "w = c # w'" using assms(1) by (cases w) (auto simp: is_word_def)
  have c: "wordc c" "c \<notin> set symbols" "\<not> white c" using assms(1) by (auto simp: is_word_def w wordc_iff)
  have all: "\<forall>x\<in>set w. wordc x" using assms(1) by (simp add: is_word_def)
  have "\<not> wordc (hd ys)" if "ys \<noteq> []" using assms(2) that white_blank by (auto simp: follow_def wordc_iff)
  then have "takeWhile wordc (w @ ys) = w" "dropWhile wordc (w @ ys) = ys"
    using all by (cases ys; auto simp: takeWhile_append2 dropWhile_append2)+
  then show ?thesis using c by (auto simp: token_def w symbols_def)
qed

lemma token_redir:
  assumes "is_word w" and "is_redir mode fd"
  shows "next_in ''<>'' (redir_char fd # w @ ys)"
    and "\<exists>tok v. token (redir_char fd # w @ ys) = (tok, v, w @ ys) \<and> redir_of tok = (mode, fd)"
proof -
  obtain c w' where w: "w = c # w'" using assms(1) by (cases w) (auto simp: is_word_def)
  have c: "\<not> white c" "c \<noteq> CHR ''>''" using assms(1) by (auto simp: is_word_def w wordc_iff symbols_def)
  have r: "redir_char fd = CHR ''<'' \<or> redir_char fd = CHR ''>''" by (simp add: redir_char_def)
  then have nw: "\<not> white (redir_char fd)" using symbol_not_white by (auto simp: symbols_def)
  show "next_in ''<>'' (redir_char fd # w @ ys)" using r nw by (auto simp: next_in_def)
  show "\<exists>tok v. token (redir_char fd # w @ ys) = (tok, v, w @ ys) \<and> redir_of tok = (mode, fd)"
    using assms(2) nw c by (auto simp: token_def w is_redir_def redir_char_def redir_of_def)
qed

section \<open>Redirections and simple commands\<close>

text \<open>Redirections in the order in which they are written.\<close>

fun show_redirs :: "string redirs \<Rightarrow> string" where
  "show_redirs [] = []"
| "show_redirs ((w, mode, fd) # qs) = redir_char fd # w @ show_redirs qs"

definition proper_redirs :: "string redirs \<Rightarrow> bool" where
  "proper_redirs qs \<longleftrightarrow> (\<forall>(w, mode, fd) \<in> set qs. is_word w \<and> is_redir mode fd)"

lemma follow_mono: "follow F ys \<Longrightarrow> set F \<subseteq> set G \<Longrightarrow> follow G ys"
  by (auto simp: follow_def)

lemma follow_redirs:
  assumes "follow ''|)&;'' ys"
  shows "follow ''|)&;<>'' (show_redirs qs @ ys)" and "follow symbols (show_redirs qs @ ys)"
proof -
  show "follow ''|)&;<>'' (show_redirs qs @ ys)"
  proof (cases qs rule: show_redirs.cases)
    case 1
    then show ?thesis using follow_mono [OF assms] by simp
  next
    case (2 w mode fd qs)
    then show ?thesis by (simp add: redir_char_def)
  qed
  then show "follow symbols (show_redirs qs @ ys)" by (rule follow_mono) (auto simp: symbols_def)
qed

lemma redirs_none:
  assumes "follow ''|)&;'' ys"
  shows "redirs (Suc fuel) rs ys = Ret (rs, ys)"
proof -
  have "follow symbols ys" using follow_mono [OF assms] by (auto simp: symbols_def)
  then show ?thesis using assms follow_symbols [of ys] by (auto simp: follow_def)
qed

lemma redirs_show:
  assumes "proper_redirs qs" and "follow ''|)&;'' ys" and "length qs < fuel"
  shows "redirs fuel rs (show_redirs qs @ ys) = Ret (rev qs @ rs, ys)"
  using assms
proof (induction qs arbitrary: fuel rs)
  case Nil
  then show ?case using redirs_none by (cases fuel) auto
next
  case (Cons r qs)
  obtain w mode fd f where r: "r = (w, mode, fd)" "fuel = Suc f" using Cons.prems(3) by (cases r; cases fuel) auto
  have ok: "is_word w" "is_redir mode fd" "proper_redirs qs" using Cons.prems(1) by (auto simp: proper_redirs_def r)
  obtain tok v where t: "token (redir_char fd # w @ show_redirs qs @ ys) = (tok, v, w @ show_redirs qs @ ys)" "redir_of tok = (mode, fd)"
    using token_redir(2) [OF ok(1,2)] by blast
  have f: "follow symbols (show_redirs qs @ ys)" by (rule follow_redirs(2) [OF Cons.prems(2)])
  have "token (w @ show_redirs qs @ ys) = (CHR ''a'', w, show_redirs qs @ ys)"
    using token_word [OF ok(1) follow_mono [OF f]] follow_symbols(1) [OF f] by auto
  then show ?case using Cons.IH [OF ok(3) Cons.prems(2), of f] Cons.prems(3) t token_redir(1) [OF ok(1,2)] by (simp add: r)
qed

lemma simple_loop_white: "simple_loop fuel ws rs (dropWhile white xs) = simple_loop fuel ws rs xs"
  by (cases fuel) (simp_all add: token_white)

lemma follow_words:
  assumes "follow ''|)&;'' ys"
  shows "follow (CHR '' '' # symbols) (show_words ws @ show_redirs qs @ ys)"
  using follow_redirs(2) [OF assms] by (cases ws) (auto simp: show_words_def follow_def)

lemma simple_end:
  assumes "follow ''|)&;'' ys"
  shows "simple_loop (Suc fuel) ws rs ys = Ret (wrap rs (TExec ws), ys)"
proof -
  have "follow symbols ys" using follow_mono [OF assms] by (auto simp: symbols_def)
  then show ?thesis using assms follow_symbols [of ys] by (cases ys) (auto simp: token_def)
qed

lemma redirs_word:
  assumes "is_word w"
  shows "redirs (Suc fuel) rs (CHR '' '' # w @ ys) = Ret (rs, w @ ys)"
proof -
  obtain c w' where "w = c # w'" "\<not> white c" using assms by (cases w) (auto simp: is_word_def wordc_iff)
  then show ?thesis using next_in_word(2) [OF assms, of "''<>''"] white_blank by (simp add: symbols_def NUL_def)
qed

lemma simple_loop_show:
  assumes "list_all is_word ws" and "ws \<noteq> []" and "length us + length ws < MAXARGS" and "proper_redirs qs"
    and "follow ''|)&;'' ys" and "length ws + length qs < fuel"
  shows "simple_loop fuel us rs (show_words ws @ show_redirs qs @ ys) = Ret (wrap (rev qs @ rs) (TExec (us @ ws)), ys)"
  using assms
proof (induction ws arbitrary: us fuel)
  case (Cons w ws)
  obtain f where f: "fuel = Suc f" using Cons.prems(6) by (cases fuel) auto
  let ?zs = "show_words ws @ show_redirs qs @ ys"
  have w: "is_word w" "list_all is_word ws" using Cons.prems(1) by simp_all
  have sw: "show_words (w # ws) = CHR '' '' # w @ show_words ws" by (simp add: show_words_def)
  have tk: "token (CHR '' '' # w @ ?zs) = (CHR ''a'', w, dropWhile white ?zs)"
    using token_word [OF w(1) follow_words [OF Cons.prems(5)]] token_white(1) [of "CHR '' '' # w @ ?zs"]
      token_white(1) [of "w @ ?zs"] white_blank by (simp add: token_def)
  have nx: "\<not> next_in ''|)&;'' (CHR '' '' # w @ ?zs)"
    using next_in_word(2) [OF w(1), of "''|)&;''" ?zs] by (simp add: symbols_def NUL_def)
  have red: "redirs g rs (dropWhile white xs) = redirs g rs xs" for g xs by (cases g) (simp_all add: token_white)
  have step: "simple_loop fuel us rs (CHR '' '' # w @ ?zs) =
      andthen (redirs f rs ?zs) (\<lambda>(rs, xs). simple_loop f (us @ [w]) rs xs)"
    using Cons.prems(3) tk nx by (simp add: f NUL_def red)
  show ?case
  proof (cases ws)
    case Nil
    obtain g where g: "f = Suc g" using Cons.prems(6) f by (cases f) auto
    have "redirs f rs (show_redirs qs @ ys) = Ret (rev qs @ rs, ys)"
      using Cons.prems(4-6) by (intro redirs_show) (simp_all add: f)
    then show ?thesis using step simple_end [OF Cons.prems(5), of g] by (simp add: sw Nil show_words_def g)
  next
    case (Cons v vs)
    obtain g where g: "f = Suc g" using Cons.prems(6) f by (cases f) auto
    have v: "is_word v" "list_all is_word vs" using w(2) Cons by simp_all
    have "?zs = CHR '' '' # v @ show_words vs @ show_redirs qs @ ys" by (simp add: Cons show_words_def)
    then have "redirs f rs ?zs = Ret (rs, dropWhile white ?zs)" using redirs_word [OF v(1)] v(1) white_blank
      by (cases v) (auto simp: g is_word_def wordc_iff simp del: redirs.simps)
    moreover have "simple_loop f (us @ [w]) rs ?zs = Ret (wrap (rev qs @ rs) (TExec ((us @ [w]) @ ws)), ys)"
      using Cons.prems Cons by (intro Cons.IH [OF w(2)]) (auto simp: f)
    ultimately show ?thesis using step by (simp add: sw simple_loop_white del: redirs.simps simple_loop.simps)
  qed
qed simp

section \<open>Reading printed commands\<close>

fun redirs_of :: "'w tree \<Rightarrow> 'w redirs" where
  "redirs_of (TRedir t w mode fd) = (w, mode, fd) # redirs_of t"
| "redirs_of t = []"

fun core :: "'w tree \<Rightarrow> 'w tree" where
  "core (TRedir t w mode fd) = core t"
| "core t = t"

lemma wrap_core: "wrap (redirs_of t) (core t) = t"
  by (induction t) auto

lemma show_redirs_append: "show_redirs (qs @ rs) = show_redirs qs @ show_redirs rs"
  by (induction qs rule: show_redirs.induct) auto

lemma show_core: "show_cmd 0 t = show_cmd 0 (core t) @ show_redirs (rev (redirs_of t))"
  by (induction t) (auto simp: show_redirs_append)

lemma proper_core: "proper t \<Longrightarrow> proper (core t) \<and> proper_redirs (redirs_of t)"
  by (induction t) (auto simp: proper_redirs_def)

lemma core_size: "size (core t) \<le> size t" "core t \<noteq> TRedir u w mode fd"
  by (induction t) auto

lemma show_levels:
  "show_cmd 1 t = show_cmd 0 t \<or> (\<exists>a b. t = TPipe a b)"
  "show_cmd 2 t = show_cmd 1 t \<or> (\<exists>a. t = TBack a)"
  "show_cmd 3 t = show_cmd 2 t \<or> (\<exists>a b. t = TList a b)"
  by (cases t; simp add: brackets_def)+

text \<open>\<open>reads\<close>: the parser at a level reads what is printed with precedence \<open>prec\<close> before one of the characters \<open>F\<close>.\<close>

definition reads :: "level \<Rightarrow> nat \<Rightarrow> string \<Rightarrow> string tree \<Rightarrow> bool" where
  "reads lvl prec F t \<longleftrightarrow> (\<forall>fuel ys. follow F ys \<longrightarrow> 4 * length (show_cmd prec t @ ys) + extra lvl \<le> fuel \<longrightarrow>
     parse fuel lvl (show_cmd prec t @ ys) = Ret (t, ys))"

lemma readsI:
  assumes "\<And>fuel ys. follow F ys \<Longrightarrow> 4 * length (show_cmd prec t @ ys) + extra lvl \<le> Suc fuel \<Longrightarrow>
      parse (Suc fuel) lvl (show_cmd prec t @ ys) = Ret (t, ys)"
  shows "reads lvl prec F t"
  unfolding reads_def
proof (intro allI impI)
  fix fuel ys
  assume a: "follow F ys" "4 * length (show_cmd prec t @ ys) + extra lvl \<le> fuel"
  then obtain f where "fuel = Suc f" by (cases lvl; cases fuel) auto
  then show "parse fuel lvl (show_cmd prec t @ ys) = Ret (t, ys)" using assms a by blast
qed

lemma readsD:
  assumes "reads lvl prec F t" and "follow F ys" and "4 * length (show_cmd prec t @ ys) + extra lvl \<le> fuel"
  shows "parse fuel lvl (show_cmd prec t @ ys) = Ret (t, ys)"
  using assms unfolding reads_def by blast

lemma length_word: "is_word w \<Longrightarrow> Suc 0 \<le> length w"
  by (cases w) (auto simp: is_word_def)

lemma length_redirs: "proper_redirs qs \<Longrightarrow> 2 * length qs \<le> length (show_redirs qs)"
  by (induction qs rule: show_redirs.induct) (auto simp: proper_redirs_def dest!: length_word)

lemma length_words: "list_all is_word ws \<Longrightarrow> 2 * length ws \<le> length (show_words ws)"
  by (induction ws) (auto simp: show_words_def dest!: length_word)

text \<open>A simple command, with its redirections.\<close>

lemma reads_exec:
  assumes "core t = TExec ws" and "proper t"
  shows "reads Simple 0 ''|)&;'' t"
proof (rule readsI)
  fix fuel ys
  define qs where "qs = rev (redirs_of t)"
  assume y: "follow ''|)&;'' ys" and "4 * length (show_cmd 0 t @ ys) + extra Simple \<le> Suc fuel"
  moreover have s: "show_cmd 0 t = show_words ws @ show_redirs qs" using show_core [of t] assms(1) by (simp add: qs_def)
  moreover have ok: "list_all is_word ws" "length ws < MAXARGS" "proper_redirs qs"
    using proper_core [OF assms(2)] assms(1) by (simp_all add: qs_def proper_redirs_def)
  ultimately have f: "length ws + length qs < fuel" using length_words [of ws] length_redirs [of qs] by simp
  then obtain g where g: "fuel = Suc g" by (cases fuel) auto
  have t: "wrap (rev qs) (TExec ws) = t" using wrap_core [of t] assms(1) by (simp add: qs_def)
  let ?xs = "show_words ws @ show_redirs qs @ ys"
  have "parse (Suc fuel) Simple ?xs = Ret (t, ys)"
  proof (cases ws)
    case Nil
    have fl: "\<not> next_in ''('' (show_redirs qs @ ys)"
      using follow_redirs(1) [OF y, of qs] follow_symbols(2) [OF follow_redirs(2) [OF y], of "''(''" qs] by (auto simp: follow_def)
    have "redirs fuel [] (show_redirs qs @ ys) = Ret (rev qs, ys)" using redirs_show [OF ok(3) y, of fuel "[]"] f by simp
    then show ?thesis using fl simple_end [OF y, of g] t by (simp add: Nil show_words_def g)
  next
    case (Cons w vs)
    have w: "is_word w" using ok(1) Cons by simp
    have sw: "?xs = CHR '' '' # w @ show_words vs @ show_redirs qs @ ys" by (simp add: Cons show_words_def)
    have "\<not> next_in ''('' ?xs" unfolding sw using next_in_word(2) [OF w, of "''(''"] by (simp add: symbols_def NUL_def)
    moreover have "redirs fuel [] ?xs = Ret ([], dropWhile white ?xs)" unfolding sw using redirs_word [OF w] w white_blank
      by (cases w) (auto simp: g is_word_def wordc_iff simp del: redirs.simps)
    moreover have "simple_loop fuel [] [] ?xs = Ret (wrap (rev qs @ []) (TExec ([] @ ws)), ys)"
      using ok y f Cons by (intro simple_loop_show) simp_all
    ultimately show ?thesis using t by (simp add: simple_loop_white del: redirs.simps simple_loop.simps)
  qed
  then show "parse (Suc fuel) Simple (show_cmd 0 t @ ys) = Ret (t, ys)" using s by simp
qed

lemma redirs_white: "redirs fuel rs (dropWhile white xs) = redirs fuel rs xs"
  by (cases fuel) (simp_all add: token_white)

lemma parse_white: "parse fuel lvl (dropWhile white xs) = parse fuel lvl xs"
proof (induction fuel arbitrary: lvl)
  case (Suc fuel)
  then show ?case by (cases lvl) (simp_all add: token_white redirs_white)
qed simp

lemma token_next:
  assumes "c \<in> set ''|();&<''"
  shows "next_in [c] (c # ys)" and "parse fuel lvl (snd (snd (token (c # ys)))) = parse fuel lvl ys"
  using token_symbol [OF assms, of ys] assms symbol_not_white [of c]
  by (auto simp: next_in_def parse_white symbols_def)

text \<open>A block, with its redirections.\<close>

lemma show_block: "core t = t \<Longrightarrow> (\<forall>ws. t \<noteq> TExec ws) \<Longrightarrow> show_cmd 0 t = CHR ''('' # show_cmd 3 t @ '')''"
  by (cases t) (auto simp: brackets_def dest: arg_cong [of _ _ size] simp: core_size)

lemma reads_block:
  assumes c: "reads Line 3 '')'' (core t)" "\<forall>ws. core t \<noteq> TExec ws" and "proper t"
  shows "reads Simple 0 ''|)&;'' t"
proof (rule readsI)
  fix fuel ys
  define qs where "qs = rev (redirs_of t)"
  assume y: "follow ''|)&;'' ys" and fuel: "4 * length (show_cmd 0 t @ ys) + extra Simple \<le> Suc fuel"
  have "core (core t) = core t" by (induction t) auto
  then have s: "show_cmd 0 t = CHR ''('' # show_cmd 3 (core t) @ '')'' @ show_redirs qs"
    using show_core [of t] show_block [of "core t"] c(2) by (simp add: qs_def)
  have ok: "proper_redirs qs" using proper_core [OF assms(3)] by (simp add: qs_def proper_redirs_def)
  have t: "wrap (rev qs) (core t) = t" by (simp add: qs_def wrap_core)
  obtain g where g: "fuel = Suc g" using fuel s by (cases fuel) auto
  let ?zs = "CHR '')'' # show_redirs qs @ ys"
  have "parse g Line (show_cmd 3 (core t) @ ?zs) = Ret (core t, ?zs)"
    using fuel by (intro readsD [OF c(1)]) (simp_all add: s g)
  moreover have "redirs g [] (show_redirs qs @ ys) = Ret (rev qs, ys)"
    using redirs_show [OF ok y, of g "[]"] length_redirs [OF ok] fuel by (simp add: s g)
  moreover have "token ?zs = (CHR '')'', '')'', dropWhile white (show_redirs qs @ ys))" by (rule token_symbol) simp
  ultimately show "parse (Suc fuel) Simple (show_cmd 0 t @ ys) = Ret (t, ys)"
    using token_next [of "CHR ''(''"] token_next(1) [of "CHR '')''"] t by (simp add: s g redirs_white)
qed

text \<open>Pipelines.\<close>

lemma reads_simple:
  assumes "reads Simple 0 ''|)&;'' t" and "show_cmd 1 t = show_cmd 0 t"
  shows "reads Pipeline 1 '')&;'' t"
proof (rule readsI)
  fix fuel ys
  assume y: "follow '')&;'' ys" and fuel: "4 * length (show_cmd 1 t @ ys) + extra Pipeline \<le> Suc fuel"
  have "parse fuel Simple (show_cmd 0 t @ ys) = Ret (t, ys)"
    using fuel y by (intro readsD [OF assms(1)]) (auto simp: assms(2) [simplified] follow_def)
  moreover have "follow symbols ys" using follow_mono [OF y] by (simp add: symbols_def)
  ultimately show "parse (Suc fuel) Pipeline (show_cmd 1 t @ ys) = Ret (t, ys)"
    using y by (auto simp: assms(2) [simplified] follow_symbols follow_def)
qed

lemma reads_pipe:
  assumes "reads Simple 0 ''|)&;'' a" and "reads Pipeline 1 '')&;'' b"
  shows "reads Pipeline 1 '')&;'' (TPipe a b)"
proof (rule readsI)
  fix fuel ys
  let ?zs = "CHR ''|'' # show_cmd 1 b @ ys"
  assume y: "follow '')&;'' ys" and fuel: "4 * length (show_cmd 1 (TPipe a b) @ ys) + extra Pipeline \<le> Suc fuel"
  have "parse fuel Simple (show_cmd 0 a @ ?zs) = Ret (a, ?zs)"
    using fuel by (intro readsD [OF assms(1)]) (simp_all add: brackets_def)
  moreover have "parse fuel Pipeline (show_cmd 1 b @ ys) = Ret (b, ys)"
    using fuel by (intro readsD [OF assms(2) y]) (simp_all add: brackets_def)
  ultimately show "parse (Suc fuel) Pipeline (show_cmd 1 (TPipe a b) @ ys) = Ret (TPipe a b, ys)"
    using token_next [of "CHR ''|''"] by (simp add: brackets_def)
qed

text \<open>Background commands and lists.\<close>

fun backs_of :: "'w tree \<Rightarrow> nat" where
  "backs_of (TBack t) = Suc (backs_of t)" | "backs_of t = 0"

fun bare :: "'w tree \<Rightarrow> 'w tree" where
  "bare (TBack t) = bare t" | "bare t = t"

lemma back_bare: "(TBack ^^ backs_of t) (bare t) = t"
  by (induction t) auto

lemma show_bare: "show_cmd 2 t = show_cmd 1 (bare t) @ replicate (backs_of t) CHR ''&''"
  by (induction t) (auto simp: brackets_def replicate_append_same)

lemma bare_size: "size (bare t) \<le> size t"
  by (induction t) auto

lemma proper_bare: "proper t \<Longrightarrow> proper (bare t)"
  by (induction t) auto

lemma backs_show:
  assumes "follow '');'' ys" and "k < fuel"
  shows "backs fuel t (replicate k CHR ''&'' @ ys) = Ret ((TBack ^^ k) t, ys)"
  using assms(2)
proof (induction k arbitrary: fuel t)
  case 0
  have "follow symbols ys" using follow_mono [OF assms(1)] by (simp add: symbols_def)
  then show ?case using 0 assms(1) by (cases fuel) (auto simp: follow_symbols follow_def)
next
  case (Suc k)
  then obtain f where f: "fuel = Suc f" "k < f" by (cases fuel) auto
  have "follow symbols (replicate k CHR ''&'' @ ys)" using follow_mono [OF assms(1)] by (cases k) (auto simp: symbols_def)
  then show ?case using Suc.IH [OF f(2), of "TBack t"] token_symbol [of "CHR ''&''"] token_next(1) [of "CHR ''&''"]
    by (simp add: f(1) follow_symbols(1) funpow_swap1)
qed

lemma reads_head:
  assumes "reads Pipeline 1 '')&;'' (bare t)" and y: "follow '');'' ys" and fuel: "4 * length (show_cmd 2 t @ ys) + 3 \<le> fuel"
  shows "parse fuel Pipeline (show_cmd 2 t @ ys) = Ret (bare t, replicate (backs_of t) CHR ''&'' @ ys)"
    and "backs fuel (bare t) (replicate (backs_of t) CHR ''&'' @ ys) = Ret (t, ys)"
proof -
  have "follow '')&;'' (replicate (backs_of t) CHR ''&'' @ ys)"
    using follow_mono [OF y] by (cases "backs_of t") auto
  then show "parse fuel Pipeline (show_cmd 2 t @ ys) = Ret (bare t, replicate (backs_of t) CHR ''&'' @ ys)"
    using readsD [OF assms(1), of "replicate (backs_of t) CHR ''&'' @ ys" fuel] fuel by (simp add: show_bare)
  show "backs fuel (bare t) (replicate (backs_of t) CHR ''&'' @ ys) = Ret (t, ys)"
    using backs_show [OF y, of "backs_of t" fuel "bare t"] fuel by (simp add: show_bare back_bare)
qed

lemma reads_pipeline:
  assumes "reads Pipeline 1 '')&;'' (bare t)" and "show_cmd 3 t = show_cmd 2 t"
  shows "reads Line 3 '')'' t"
proof (rule readsI)
  fix fuel ys
  assume y: "follow '')'' ys" and fuel: "4 * length (show_cmd 3 t @ ys) + extra Line \<le> Suc fuel"
  have "follow '');'' ys" "follow symbols ys" using follow_mono [OF y] by (simp_all add: symbols_def)
  then show "parse (Suc fuel) Line (show_cmd 3 t @ ys) = Ret (t, ys)"
    using reads_head [OF assms(1), of ys fuel] fuel y by (auto simp: assms(2) follow_symbols follow_def)
qed

lemma reads_list:
  assumes "reads Pipeline 1 '')&;'' (bare a)" and "reads Line 3 '')'' b"
  shows "reads Line 3 '')'' (TList a b)"
proof (rule readsI)
  fix fuel ys
  let ?zs = "CHR '';'' # show_cmd 3 b @ ys"
  assume y: "follow '')'' ys" and fuel: "4 * length (show_cmd 3 (TList a b) @ ys) + extra Line \<le> Suc fuel"
  have "parse fuel Line (show_cmd 3 b @ ys) = Ret (b, ys)"
    using fuel by (intro readsD [OF assms(2) y]) (simp_all add: brackets_def)
  then show "parse (Suc fuel) Line (show_cmd 3 (TList a b) @ ys) = Ret (TList a b, ys)"
    using reads_head [OF assms(1), of ?zs fuel] fuel token_next [of "CHR '';''"] by (simp add: brackets_def)
qed

lemma reads_proper:
  assumes "proper t"
  shows "reads Simple 0 ''|)&;'' t \<and> reads Pipeline 1 '')&;'' t \<and> reads Line 3 '')'' t"
  using assms
proof (induction t rule: measure_induct_rule [of size])
  case (less t)
  have up: "reads Pipeline 1 '')&;'' t \<and> reads Line 3 '')'' t"
    if "reads Simple 0 ''|)&;'' t" "show_cmd 1 t = show_cmd 0 t" "bare t = t" "show_cmd 3 t = show_cmd 2 t"
    using reads_simple [OF that(1,2)] reads_pipeline [of t] that(3,4) by simp
  show ?case
  proof (cases t)
    case (TExec ws)
    then have "reads Simple 0 ''|)&;'' t" using reads_exec [of t ws] less.prems by simp
    then show ?thesis using up TExec by simp
  next
    case (TRedir u w mode fd)
    have "reads Simple 0 ''|)&;'' t"
    proof (cases "\<exists>ws. core t = TExec ws")
      case True
      then show ?thesis using reads_exec less.prems by blast
    next
      case False
      have "size (core t) < size t" using core_size(1) [of u] TRedir by simp
      then show ?thesis using reads_block [of t] less False proper_core by blast
    qed
    then show ?thesis using up TRedir by simp
  next
    case (TPipe a b)
    have p: "reads Pipeline 1 '')&;'' t" using less.IH [of a] less.IH [of b] less.prems reads_pipe [of a b] by (simp add: TPipe)
    then have l: "reads Line 3 '')'' t" using reads_pipeline [of t] by (simp add: TPipe brackets_def)
    then show ?thesis using p reads_block [of t] less.prems by (simp add: TPipe)
  next
    case (TList a b)
    have "reads Line 3 '')'' t"
      using less.IH [of "bare a"] less.IH [of b] less.prems bare_size [of a] proper_bare [of a] reads_list [of a b] by (simp add: TList)
    then have "reads Simple 0 ''|)&;'' t" using reads_block [of t] less.prems by (simp add: TList)
    then show ?thesis using \<open>reads Line 3 '')'' t\<close> reads_simple [of t] by (simp add: TList brackets_def)
  next
    case (TBack a)
    have "reads Line 3 '')'' t"
      using less.IH [of "bare a"] less.prems bare_size [of a] proper_bare [of a] reads_pipeline [of t] by (simp add: TBack brackets_def)
    then have "reads Simple 0 ''|)&;'' t" using reads_block [of t] less.prems by (simp add: TBack)
    then show ?thesis using \<open>reads Line 3 '')'' t\<close> reads_simple [of t] by (simp add: TBack brackets_def)
  qed
qed

lemma parse_show: "proper t \<Longrightarrow> parse_line (show_cmd 3 t) = Ret t"
  using readsD [of Line 3 "'')''" t "[]"] reads_proper [of t] by (simp add: parse_line_def)

lemma show_no_nul: "proper t \<Longrightarrow> NUL \<notin> set (show_cmd prec t)"
  by (induction t arbitrary: prec)
    (auto simp: show_words_def brackets_def redir_char_def is_word_def list_all_iff NUL_def)

section \<open>The parser of the shell\<close>

text \<open>
  C21: the parser of the shell implements the grammar.  On any line and with memory for all nodes, \<open>parsecmd\<close>
  ends as the recursive-descent parser on lists does: it reports the same error, or returns a command whose nodes and
  strings, as they are after \<open>nulterminate\<close> has written over the line, form the syntax tree of the line.
\<close>

theorem parsecmd_refines:
  assumes "NUL \<in> set buf"
  shows "refines None (\<lambda>(cmd, h, buf') t. denotes h buf' cmd t) (parsecmd None buf) (parse_line (str_from buf 0))"
  using assms by (rule parsecmd_sim)

theorem parsecmd_refines_witness:
  "refines None (\<lambda>(cmd, h, buf') t. denotes h buf' cmd t) (parsecmd None (''ls|wc'' @ [NUL])) (parse_line (str_from (''ls|wc'' @ [NUL]) 0))"
  by (rule parsecmd_refines) simp

lemma parse_line_ends:
  "(\<exists>r. parse_line str = Ret r) \<or> (\<exists>e\<in>syntax_errors. parse_line str = Panic e)
     \<or> (\<exists>xs. xs \<noteq> [] \<and> parse_line str = Panic (leftovers xs))"
proof -
  have "ends (parse (4 * length str + 4) Line str) (\<lambda>(t, ys). length ys \<le> length str)"
    by (rule parse_ends) simp_all
  then consider t xs where "parse (4 * length str + 4) Line str = Ret (t, xs)"
    | e where "e \<in> syntax_errors" "parse (4 * length str + 4) Line str = Panic e"
    by (auto simp: ends_def split: outcome.splits)
  then show ?thesis
  proof cases
    case (1 t xs)
    then have "parse_line str = (if dropWhile white xs \<noteq> [] then Panic (leftovers (dropWhile white xs)) else Ret t)"
      by (simp only: parse_line_def andthen.simps prod.case)
    then show ?thesis by (metis (full_types))
  next
    case (2 e)
    then show ?thesis by (auto simp: parse_line_def)
  qed
qed

lemma parsecmd_no_memory:
  assumes "NUL \<in> set buf" and "\<not> next_in ''('' (str_from buf 0)"
  shows "parsecmd (Some 0) buf = Undef ''null pointer''"
proof -
  define es where "es = length (str_from buf 0)"
  note l = line_str [OF assms(1), folded es_def]
  have p: "\<exists>s. peek buf es 0 ''('' = Ret (False, s)" using peek_sim [OF l(1), of 0 "''(''"] l(2) assms(2) by (auto simp: NUL_def)
  have "parseexec (Some 0) (Suc f) buf es [] 0 = Undef ''null pointer''" for f
    using p by (auto simp: execcmd_def alloc_cmd_def mem_left_def)
  then have "parseline (Some 0) (Suc (Suc (Suc f))) buf es [] 0 = Undef ''null pointer''" for f
    by (simp del: parseexec.simps)
  moreover have "4 * es + 4 = Suc (Suc (Suc (4 * es + 1)))" by simp
  ultimately have "parseline (Some 0) (4 * es + 4) buf es [] 0 = Undef ''null pointer''" by (simp only:)
  moreover have "str_len buf = Ret es" using assms(1) by (simp add: str_len_def es_def)
  ultimately show ?thesis by (simp add: parsecmd_def del: parseline.simps)
qed

text \<open>
  C22: the parser of the shell ends on every line, without reading or writing outside the line: it returns a
  command, reports one of four syntax errors, or reports text that is left over at the end of the line.  The only pointer
  that it may follow wrongly is the null pointer of a \<open>malloc\<close> that has found no memory, which the
  constructors do not check; when the first \<open>malloc\<close> fails, they follow it on every line that does not start with a
  bracket.
\<close>

theorem parsecmd_ends:
  assumes "NUL \<in> set buf"
  shows "((\<exists>r. parsecmd lim buf = Ret r) \<or> (\<exists>e\<in>syntax_errors. parsecmd lim buf = Panic e)
      \<or> (\<exists>str. str \<noteq> [] \<and> parsecmd lim buf = Panic (leftovers str))
      \<or> lim \<noteq> None \<and> parsecmd lim buf = Undef ''null pointer'')
    \<and> (\<not> next_in ''('' (str_from buf 0) \<longrightarrow> parsecmd (Some 0) buf = Undef ''null pointer'')"
proof
  from parse_line_ends [of "str_from buf 0"] show "(\<exists>r. parsecmd lim buf = Ret r) \<or> (\<exists>e\<in>syntax_errors. parsecmd lim buf = Panic e)
      \<or> (\<exists>str. str \<noteq> [] \<and> parsecmd lim buf = Panic (leftovers str)) \<or> lim \<noteq> None \<and> parsecmd lim buf = Undef ''null pointer''"
    using parsecmd_sim [OF assms, of lim] by (auto simp: null_write_def)
qed (use parsecmd_no_memory [OF assms] in blast)

theorem parsecmd_ends_witness:
  "parsecmd (Some 0) (''ls'' @ [NUL]) = Undef ''null pointer'' \<and>
   ((\<exists>r. parsecmd None (''(a;b'' @ [NUL]) = Ret r) \<or> (\<exists>e\<in>syntax_errors. parsecmd None (''(a;b'' @ [NUL]) = Panic e)
    \<or> (\<exists>str. str \<noteq> [] \<and> parsecmd None (''(a;b'' @ [NUL]) = Panic (leftovers str)))"
proof -
  have "\<not> next_in ''('' (str_from (''ls'' @ [NUL]) 0)"
    by (simp add: next_in_def str_from_def white_def whitespace_def NUL_def)
  then show ?thesis using parsecmd_ends [of "''ls'' @ [NUL]" None] parsecmd_ends [of "''(a;b'' @ [NUL]" None] by auto
qed

text \<open>
  C23: the shell reads back every command.  The line that prints a syntax tree with the necessary
  brackets, ended by a NUL and with anything behind it, is parsed as exactly that tree, when there is memory for it.
\<close>

theorem parsecmd_show:
  assumes "proper t"
  shows "\<exists>cmd h buf'. parsecmd None (show_cmd 3 t @ NUL # junk) = Ret (cmd, h, buf') \<and> denotes h buf' cmd t"
proof -
  have "str_from (show_cmd 3 t @ NUL # junk) 0 = show_cmd 3 t" by (rule str_from_append [OF show_no_nul [OF assms]])
  then show ?thesis using parsecmd_sim [of "show_cmd 3 t @ NUL # junk" None] parse_show [OF assms] by auto
qed

theorem parsecmd_show_witness:
  "\<exists>cmd h buf'. parsecmd None (show_cmd 3 (TPipe (TExec [''ls'']) (TBack (TExec [''wc'']))) @ NUL # []) = Ret (cmd, h, buf')
    \<and> denotes h buf' cmd (TPipe (TExec [''ls'']) (TBack (TExec [''wc''])))"
  by (rule parsecmd_show)
    (simp add: is_word_def MAXARGS_def wordc_def whitespace_def symbols_def NUL_def)

end
