(* ===== verification/Shrun.thy ===== *)
theory Shrun
  imports Shprint
begin

text \<open>
  What the shell does.  The calls of \<open>main\<close> and \<open>runcmd\<close> are answered by a kernel that keeps, for every process, its
  table of descriptors: \<open>open\<close>, \<open>dup\<close> and \<open>pipe\<close> take the lowest free descriptors, \<open>fork\<close> copies the table and
  \<open>exec\<close> starts a program with it.  Whether a file can be opened, a program started, a process or a pipe made
  is left open, so every one of these calls may fail.  The programs that a line starts, the tables they start
  with and the messages of the shell are those of the syntax tree of the line: redirections and pipes are where the
  tree has them, and no descriptor of a pipe is left over.
\<close>

section \<open>Descriptor tables\<close>

text \<open>
  A process is named by the numbers of the forks that lead to it; a pipe by its creator and the
  number of forks that it has made before.
\<close>

type_synonym pname = "nat list"

datatype obj = Inherited nat | Opened string uint | PipeR "pname \<times> nat" | PipeW "pname \<times> nat"

type_synonym fds = "obj option list"

text \<open>
  The calls that succeed.  Forks and pipes are told apart by the process that makes them and the
  number of forks that it has made before.
\<close>

record kernel =
  can_open :: "string \<Rightarrow> uint \<Rightarrow> bool"
  can_exec :: "string \<Rightarrow> string list \<Rightarrow> bool"
  can_chdir :: "string \<Rightarrow> bool"
  can_fork :: "pname \<Rightarrow> nat \<Rightarrow> bool"
  can_pipe :: "pname \<Rightarrow> nat \<Rightarrow> bool"

text \<open>
  What can be seen of the shell: a program started with its path, arguments and descriptors, a change of
  directory that was asked for, and a text written to an open descriptor.
\<close>

datatype event = Started string "string list" fds | Chdir string | Wrote obj string

fun free_fd :: "fds \<Rightarrow> nat option" where
  "free_fd [] = None"
| "free_fd (None # d) = Some 0"
| "free_fd (Some x # d) = map_option Suc (free_fd d)"

definition entry :: "fds \<Rightarrow> int \<Rightarrow> obj option" where
  "entry d fd = (if 0 \<le> fd \<and> nat fd < length d then d ! nat fd else None)"

definition write_to :: "fds \<Rightarrow> int \<Rightarrow> string \<Rightarrow> event list" where
  "write_to d fd str = (case entry d fd of None \<Rightarrow> [] | Some x \<Rightarrow> [Wrote x str])"

definition answer :: "int \<Rightarrow> resp" where
  "answer v = \<lparr>rval = v, rbuf = [], rfds = (0, 0), rstat = (0, 0, 0)\<rparr>"

definition ok_if :: "bool \<Rightarrow> resp" where
  "ok_if b = answer (if b then 0 else - 1)"

text \<open>
  The events of a process and its children.  The children come before what their parent does
  after the fork.  Only the shell itself reads; \<open>inp\<close> is the input that it has not read yet.
\<close>

primrec launch :: "kernel \<Rightarrow> prog \<Rightarrow> string \<Rightarrow> fds \<Rightarrow> pname \<Rightarrow> nat \<Rightarrow> event list" where
  "launch K Exit inp d me n = []"
| "launch K (Stuck e) inp d me n = []"
| "launch K Spin inp d me n = []"
| "launch K (Call c k) inp d me n =
     (case c of
        SFork \<Rightarrow>
          if can_fork K me n then launch K (k (answer 0)) inp d (me @ [n]) 0 @ launch K (k (answer 1)) inp d me (Suc n)
          else launch K (k (answer (- 1))) inp d me (Suc n)
      | SExec path args \<Rightarrow>
          if can_exec K path args then [Started path args d] else launch K (k (answer (- 1))) inp d me n
      | SChdir path \<Rightarrow> Chdir path # launch K (k (ok_if (can_chdir K path))) inp d me n
      | SRead fd m \<Rightarrow>
          if entry d fd = None then launch K (k (answer (- 1))) inp d me n
          else launch K (k ((answer (int (length (take m inp))))\<lparr>rbuf := take m inp\<rparr>)) (drop m inp) d me n
      | SWrite fd str \<Rightarrow>
          write_to d fd str @ launch K (k (answer (if entry d fd = None then - 1 else int (length str)))) inp d me n
      | SClose fd \<Rightarrow> launch K (k (ok_if (entry d fd \<noteq> None))) inp (d[nat fd := None]) me n
      | SDup fd \<Rightarrow>
          (case (entry d fd, free_fd d) of
             (Some x, Some i) \<Rightarrow> launch K (k (answer (int i))) inp (d[i := Some x]) me n
           | _ \<Rightarrow> launch K (k (answer (- 1))) inp d me n)
      | SOpen path mode \<Rightarrow>
          (case free_fd d of
             Some i \<Rightarrow>
               if can_open K path mode then launch K (k (answer (int i))) inp (d[i := Some (Opened path mode)]) me n
               else launch K (k (answer (- 1))) inp d me n
           | None \<Rightarrow> launch K (k (answer (- 1))) inp d me n)
      | SPipe \<Rightarrow>
          (case free_fd d of
             None \<Rightarrow> launch K (k (answer (- 1))) inp d me n
           | Some i \<Rightarrow>
               (case free_fd (d[i := Some (PipeR (me, n))]) of
                  None \<Rightarrow> launch K (k (answer (- 1))) inp d me n
                | Some j \<Rightarrow>
                    if can_pipe K me n then
                      launch K (k ((answer 0)\<lparr>rfds := (int i, int j)\<rparr>)) inp
                        (d[i := Some (PipeR (me, n)), j := Some (PipeW (me, n))]) me n
                    else launch K (k (answer (- 1))) inp d me n))
      | _ \<Rightarrow> launch K (k (answer 0)) inp d me n)"

text \<open>The specification, on syntax trees.\<close>

definition complain :: "fds \<Rightarrow> string \<Rightarrow> event list" where
  "complain d msg = write_to d 2 (msg @ [NL])"


text \<open>The standard descriptors are open and two are free.\<close>

definition roomy :: "fds \<Rightarrow> bool" where
  "roomy d \<longleftrightarrow> 2 < length d \<and> d ! 0 \<noteq> None \<and> d ! 1 \<noteq> None \<and> d ! 2 \<noteq> None
     \<and> (\<exists>i j. i < j \<and> j < length d \<and> d ! i = None \<and> d ! j = None)"






section \<open>Running a command\<close>


fun std_redirs :: "'w tree \<Rightarrow> bool" where
  "std_redirs (TExec ws) \<longleftrightarrow> True"
| "std_redirs (TRedir t w mode fd) \<longleftrightarrow> (fd = 0 \<or> fd = 1) \<and> std_redirs t"
| "std_redirs (TPipe t u) \<longleftrightarrow> std_redirs t \<and> std_redirs u"
| "std_redirs (TList t u) \<longleftrightarrow> std_redirs t \<and> std_redirs u"
| "std_redirs (TBack t) \<longleftrightarrow> std_redirs t"

lemma answer_simps [simp]:
  "rval (answer v) = v" "rfds (answer v) = (0, 0)" "rval (ok_if b) = (if b then 0 else - 1)"
  by (simp_all add: answer_def ok_if_def)

lemma write_to_other:
  assumes "i \<noteq> nat fd"
  shows "write_to (d[i := x]) fd str = write_to d fd str"
  using assms by (simp add: write_to_def entry_def)

lemma complain_other [simp]: "i \<noteq> 2 \<Longrightarrow> complain (d[i := x]) msg = complain d msg"
  by (simp add: complain_def write_to_other)

lemma launch_say [simp]: "launch K (say fd str k) inp d me n = write_to d fd str @ launch K k inp d me n"
  by (simp add: say_def)

lemma launch_panic [simp]: "launch K (sh_panic msg) inp d me n = complain d msg"
  by (simp add: sh_panic_def complain_def)

lemma launch_fork1 [simp]:
  "launch K (fork1 k) inp d me n =
     (if can_fork K me n then launch K (k 0) inp d (me @ [n]) 0 @ launch K (k 1) inp d me (Suc n) else complain d ''fork'')"
  by (simp add: fork1_def)





section \<open>The trees of the parser\<close>

lemma std_redirs_map [simp]: "std_redirs (map_words f t) = std_redirs t"
  by (induction t) auto








section \<open>A line of input\<close>

definition plain :: "string \<Rightarrow> bool" where
  "plain str \<longleftrightarrow> NUL \<notin> set str \<and> NL \<notin> set str \<and> CHR 0x0D \<notin> set str"

text \<open>\<open>gets\<close> ends at a newline, or at the end of the input.\<close>

lemma launch_gets:
  assumes "plain str" and "length str < m" and "entry d 0 \<noteq> None"
  shows "launch K (gets_calls m acc k) (str @ NL # inp) d me n = launch K (k (acc @ str @ [NL])) inp d me n"
    and "launch K (gets_calls m acc k) str d me n = launch K (k (acc @ str)) [] d me n"
proof -
  have "launch K (gets_calls m acc k) (str @ NL # inp) d me n = launch K (k (acc @ str @ [NL])) inp d me n
    \<and> launch K (gets_calls m acc k) str d me n = launch K (k (acc @ str)) [] d me n"
    using assms
  proof (induction str arbitrary: m acc)
    case Nil
    then show ?case by (cases m) (auto simp: Let_def)
  next
    case (Cons c str)
    then obtain m' where m: "m = Suc m'" by (cases m) auto
    have "plain str" "length str < m'" using Cons.prems m by (auto simp: plain_def)
    then show ?case using Cons.IH [of m' "acc @ [c]"] Cons.prems m by (auto simp: plain_def Let_def)
  qed
  then show "launch K (gets_calls m acc k) (str @ NL # inp) d me n = launch K (k (acc @ str @ [NL])) inp d me n"
    "launch K (gets_calls m acc k) str d me n = launch K (k (acc @ str)) [] d me n" by simp_all
qed

definition pad :: "string \<Rightarrow> string" where
  "pad str = str @ replicate (100 - length str) NUL"

text \<open>One round of the shell: the prompt is written, a line is read and its command is run.\<close>

lemma launch_main:
  assumes "plain str" and "length str < 99" and "entry d 0 \<noteq> None"
  shows "launch K (main_loop lim (Suc fuel)) (str @ NL # inp) d me n =
      write_to d 2 ''$ '' @ launch K (main_command lim (pad (str @ [NL])) (main_loop lim fuel)) inp d me n"
    and "str \<noteq> [] \<Longrightarrow> launch K (main_loop lim (Suc fuel)) str d me n =
      write_to d 2 ''$ '' @ launch K (main_command lim (pad str) (main_loop lim fuel)) [] d me n"
proof -
  have "hd (str @ NL # ys) \<noteq> NUL" for ys using assms(1) by (cases str) (auto simp: plain_def NUL_def NL_def)
  then show "launch K (main_loop lim (Suc fuel)) (str @ NL # inp) d me n =
      write_to d 2 ''$ '' @ launch K (main_command lim (pad (str @ [NL])) (main_loop lim fuel)) inp d me n"
    using assms by (simp add: getcmd_def launch_gets pad_def Let_def)
  assume "str \<noteq> []"
  then have "hd (str @ ys) \<noteq> NUL" for ys using assms(1) by (cases str) (auto simp: plain_def)
  then show "launch K (main_loop lim (Suc fuel)) str d me n =
      write_to d 2 ''$ '' @ launch K (main_command lim (pad str) (main_loop lim fuel)) [] d me n"
    using assms by (simp add: getcmd_def launch_gets pad_def Let_def)
qed

lemma pad_string:
  assumes "NUL \<notin> set str" and "length str < 100"
  shows "str_from (pad str) 0 = str" and "NUL \<in> set (pad str)"
proof -
  have "pad str = str @ NUL # replicate (99 - length str) NUL"
    using assms(2) by (simp add: pad_def Suc_diff_le flip: replicate_Suc)
  then show "str_from (pad str) 0 = str" "NUL \<in> set (pad str)" using str_from_append [OF assms(1)] by simp_all
qed

section \<open>What the shell does with a line\<close>




definition console_fds :: fds where
  "console_fds = replicate 3 (Some (Inherited 0)) @ replicate 13 None"

definition small_kernel :: kernel where
  "small_kernel = \<lparr>can_open = (\<lambda>path mode. path = ''out''), can_exec = (\<lambda>path args. path = ''ls''),
     can_chdir = (\<lambda>_. False), can_fork = (\<lambda>me n. length me < 2), can_pipe = (\<lambda>_ _. True)\<rparr>"

lemma console_roomy: "roomy console_fds"
proof -
  have "(3 :: nat) < 4" "4 < length console_fds" "console_fds ! 3 = None" "console_fds ! 4 = None"
    by (simp_all add: console_fds_def numeral_eq_Suc)
  then have "\<exists>i j. i < j \<and> j < length console_fds \<and> console_fds ! i = None \<and> console_fds ! j = None" by blast
  moreover have "2 < length console_fds" "console_fds ! 0 \<noteq> None" "console_fds ! 1 \<noteq> None" "console_fds ! 2 \<noteq> None"
    by (simp_all add: console_fds_def numeral_eq_Suc)
  ultimately show ?thesis unfolding roomy_def by blast
qed


section \<open>Two divergences\<close>

lemma cut_last:
  assumes "plain dir" and "length dir < 95" and "x = [] \<or> x = [NL]"
  shows "str_from ((pad (''cd '' @ dir @ x))[length (str_from (pad (''cd '' @ dir @ x)) 0) - 1 := NUL]) 3 = butlast (dir @ x)"
proof -
  have s: "NUL \<notin> set (''cd '' @ dir @ x)" "length (''cd '' @ dir @ x) < 100" using assms by (auto simp: plain_def NUL_def NL_def)
  show ?thesis unfolding pad_string(1) [OF s]
  proof (cases "dir @ x" rule: rev_cases)
    case Nil
    then show "str_from ((pad (''cd '' @ dir @ x))[length (''cd '' @ dir @ x) - 1 := NUL]) 3 = butlast (dir @ x)"
      by (simp add: pad_def str_from_def numeral_eq_Suc)
  next
    case (snoc ys y)
    have "NUL \<notin> set ys" using s(1) snoc by (auto simp flip: append_assoc)
    have "(pad (''cd '' @ dir @ x))[length (''cd '' @ dir @ x) - 1 := NUL] = ''cd '' @ ys @ NUL # replicate (100 - length (''cd '' @ dir @ x)) NUL"
      unfolding pad_def snoc by (simp add: list_update_append)
    then show "str_from ((pad (''cd '' @ dir @ x))[length (''cd '' @ dir @ x) - 1 := NUL]) 3 = butlast (dir @ x)"
      using str_from_append [OF \<open>NUL \<notin> set ys\<close>, of "replicate (100 - length (''cd '' @ dir @ x)) NUL"] snoc
      by (simp add: str_from_def)
  qed
qed

text \<open>
  C28: \<open>cd\<close> on a line without a newline goes to the wrong directory.  \<open>main\<close> cuts off the last character of
  the line, which it takes for the newline: a line that ends with a newline changes to the directory that it names,
  and when the input ends after the name, the shell changes to the name without its last character.
\<close>

theorem cd_cuts_last_character:
  assumes "plain dir" and "length dir < 95" and "roomy d"
  shows "launch K (main_loop lim (Suc fuel)) (''cd '' @ dir @ NL # inp) d me n =
      write_to d 2 ''$ '' @ Chdir dir # (if can_chdir K dir then [] else complain d (''cannot cd '' @ dir))
      @ launch K (main_loop lim fuel) inp d me n
    \<and> launch K (main_loop lim (Suc fuel)) (''cd '' @ dir) d me n =
      write_to d 2 ''$ '' @ Chdir (butlast dir)
      # (if can_chdir K (butlast dir) then [] else complain d (''cannot cd '' @ butlast dir))
      @ launch K (main_loop lim fuel) [] d me n"
proof -
  have c: "plain (''cd '' @ dir)" "length (''cd '' @ dir) < 99" using assms by (auto simp: plain_def NUL_def NL_def)
  have e: "entry d 0 \<noteq> None" using assms(3) by (auto simp: roomy_def entry_def)
  have m: "launch K (main_command lim (pad (''cd '' @ dir @ x)) k) inp d me n =
      Chdir (butlast (dir @ x)) # (if can_chdir K (butlast (dir @ x)) then [] else complain d (''cannot cd '' @ butlast (dir @ x)))
      @ launch K k inp d me n" if "x = [] \<or> x = [NL]" for x k inp
    using cut_last [OF assms(1,2) that] by (simp add: main_command_def pad_def complain_def Let_def numeral_eq_Suc)
  show ?thesis
    using launch_main(1) [OF c e, of K lim fuel inp me n] m [of "[NL]"]
      launch_main(2) [OF c e, of K lim fuel me n] m [of "[]"] by simp
qed

theorem cd_cuts_last_character_witness:
  "launch small_kernel (main_loop None (Suc 0)) (''cd '' @ ''ab'') console_fds [] 0 =
     [Wrote (Inherited 0) ''$ '', Chdir ''a'', Wrote (Inherited 0) (''cannot cd a'' @ [NL])]"
proof -
  have "plain ''ab''" by (simp add: plain_def NUL_def NL_def)
  moreover have "write_to console_fds 2 ''$ '' = [Wrote (Inherited 0) ''$ '']"
    "complain console_fds (''cannot cd '' @ ''a'') = [Wrote (Inherited 0) (''cannot cd a'' @ [NL])]" by code_simp+
  ultimately show ?thesis
    using cd_cuts_last_character [OF _ _ console_roomy, of "''ab''" small_kernel None 0 "[]" "[]" 0] by (simp add: small_kernel_def)
qed

text \<open>Both \<^verbatim>\<open>>\<close> and \<^verbatim>\<open>>>\<close> open the file for writing from its beginning.\<close>

lemma append_overwrites: "parse_line ''echo a>>f'' = parse_line ''echo a>f''"
  by code_simp

end
