(* ===== verification/Tools.thy ===== *)
theory Tools
  imports User
begin

text \<open>
  The small user programs: \<^verbatim>\<open>cat.c\<close>, \<^verbatim>\<open>echo.c\<close>, \<^verbatim>\<open>forktest.c\<close>, \<^verbatim>\<open>grep.c\<close>, \<^verbatim>\<open>kill.c\<close>, \<^verbatim>\<open>ln.c\<close>, \<^verbatim>\<open>mkdir.c\<close>, \<^verbatim>\<open>rm.c\<close>, \<^verbatim>\<open>wc.c\<close>, \<^verbatim>\<open>ls.c\<close>,
  \<^verbatim>\<open>init.c\<close>, \<^verbatim>\<open>stressfs.c\<close> and \<^verbatim>\<open>zombie.c\<close>, and \<open>stat\<close> of \<^verbatim>\<open>ulib.c\<close>, as trees of system calls.  A program gets its arguments as the list
  \<open>argv\<close> with \<open>argc\<close> elements.  Loops that end when the kernel says so take fuel.
\<close>

section \<open>Arguments and numbers\<close>

definition newline :: string where "newline = [NL]"

text \<open>A number printed with \<open>%d\<close>.\<close>

definition decimal :: "uint \<Rightarrow> string" where
  "decimal n = (case printint digits_printf n 10 True of Ret str \<Rightarrow> str | _ \<Rightarrow> [])"

definition user_stat :: "string \<Rightarrow> (int \<Rightarrow> int \<times> int \<times> int \<Rightarrow> prog) \<Rightarrow> prog" where
  "user_stat n k =
     Call (SOpen n O_RDONLY) (\<lambda>fd.
     if rval fd < 0 then k (- 1) (0, 0, 0)
     else Call (SFstat (rval fd)) (\<lambda>r. Call (SClose (rval fd)) (\<lambda>_. k (rval r) (rstat r))))"

section \<open>Copying and counting\<close>

text \<open>\<^verbatim>\<open>cat.c\<close>\<close>

fun cat :: "nat \<Rightarrow> int \<Rightarrow> prog \<Rightarrow> prog" where
  "cat 0 fd k = Spin"
| "cat (Suc fuel) fd k =
     Call (SRead fd 512) (\<lambda>n.
     if rval n > 0 then
       Call (SWrite 1 (take (nat (rval n)) (rbuf n))) (\<lambda>w.
       if rval w \<noteq> rval n then say 1 (''cat: write error'' @ newline) Exit else cat fuel fd k)
     else if rval n < 0 then say 1 (''cat: read error'' @ newline) Exit
     else k)"

fun cat_files :: "nat \<Rightarrow> string list \<Rightarrow> prog" where
  "cat_files fuel [] = Exit"
| "cat_files fuel (name # names) =
     Call (SOpen name 0) (\<lambda>fd.
     if rval fd < 0 then say 1 (''cat: cannot open '' @ name @ newline) Exit
     else cat fuel (rval fd) (Call (SClose (rval fd)) (\<lambda>_. cat_files fuel names)))"

definition cat_main :: "nat \<Rightarrow> string list \<Rightarrow> prog" where
  "cat_main fuel argv = (if length argv \<le> 1 then cat fuel 0 Exit else cat_files fuel (tl argv))"

text \<open>\<^verbatim>\<open>wc.c\<close>: the counters of lines, words and characters, and whether the last character was in a word.\<close>

record counts =
  lines :: uint
  nwords :: uint
  nchars :: uint
  inword :: bool

definition wc_white :: string where
  "wc_white = [CHR '' '', CHR 0x0D, CHR 0x09, CHR 0x0A, CHR 0x0B]"

definition wc_char :: "char \<Rightarrow> counts \<Rightarrow> counts" where
  "wc_char a s =
     (let s = s\<lparr>nchars := nchars s + 1\<rparr>;
          s = (if a = NL then s\<lparr>lines := lines s + 1\<rparr> else s) in
      if strchr wc_white a \<noteq> None then s\<lparr>inword := False\<rparr>
      else if \<not> inword s then s\<lparr>nwords := nwords s + 1, inword := True\<rparr>
      else s)"

definition no_counts :: counts where
  "no_counts = \<lparr>lines = 0, nwords = 0, nchars = 0, inword = False\<rparr>"

definition wc_text :: "counts \<Rightarrow> string \<Rightarrow> string" where
  "wc_text s name =
     decimal (lines s) @ '' '' @ decimal (nwords s) @ '' '' @ decimal (nchars s) @ '' '' @ name @ newline"

fun wc_loop :: "nat \<Rightarrow> int \<Rightarrow> string \<Rightarrow> counts \<Rightarrow> prog \<Rightarrow> prog" where
  "wc_loop 0 fd name s k = Spin"
| "wc_loop (Suc fuel) fd name s k =
     Call (SRead fd 512) (\<lambda>n.
     if rval n > 0 then wc_loop fuel fd name (fold wc_char (take (nat (rval n)) (rbuf n)) s) k
     else if rval n < 0 then say 1 (''wc: read error'' @ newline) Exit
     else say 1 (wc_text s name) k)"

definition wc :: "nat \<Rightarrow> int \<Rightarrow> string \<Rightarrow> prog \<Rightarrow> prog" where
  "wc fuel fd name k = wc_loop fuel fd name no_counts k"

fun wc_files :: "nat \<Rightarrow> string list \<Rightarrow> prog" where
  "wc_files fuel [] = Exit"
| "wc_files fuel (name # names) =
     Call (SOpen name 0) (\<lambda>fd.
     if rval fd < 0 then say 1 (''wc: cannot open '' @ name @ newline) Exit
     else wc fuel (rval fd) name (Call (SClose (rval fd)) (\<lambda>_. wc_files fuel names)))"

definition wc_main :: "nat \<Rightarrow> string list \<Rightarrow> prog" where
  "wc_main fuel argv = (if length argv \<le> 1 then wc fuel 0 [] Exit else wc_files fuel (tl argv))"

text \<open>
  \<^verbatim>\<open>grep.c\<close>: the loop of \<open>grep\<close> around its calls, with \<open>grep_lines\<close> as the loop over the lines of the buffer and
  \<open>say\<close> for the writes of the lines that match, and \<open>main\<close>.
\<close>

fun grep_fd :: "nat \<Rightarrow> string \<Rightarrow> string \<Rightarrow> int \<Rightarrow> prog \<Rightarrow> prog" where
  "grep_fd 0 pattern buf fd k = Spin"
| "grep_fd (Suc fuel) pattern buf fd k =
     Call (SRead fd (1023 - length buf)) (\<lambda>n.
     if rval n > 0 then
       let buf = buf @ take (nat (rval n)) (rbuf n); (out, p) = grep_lines pattern buf;
           more = grep_fd fuel pattern (if length p = length buf then [] else p) fd k in
       if out = [] then more else say 1 out more
     else k)"

fun grep_files :: "nat \<Rightarrow> string \<Rightarrow> string list \<Rightarrow> prog" where
  "grep_files fuel pattern [] = Exit"
| "grep_files fuel pattern (name # names) =
     Call (SOpen name 0) (\<lambda>fd.
     if rval fd < 0 then say 1 (''grep: cannot open '' @ name @ newline) Exit
     else grep_fd fuel pattern [] (rval fd) (Call (SClose (rval fd)) (\<lambda>_. grep_files fuel pattern names)))"

definition grep_main :: "nat \<Rightarrow> string list \<Rightarrow> prog" where
  "grep_main fuel argv =
     (if length argv \<le> 1 then say 2 (''usage: grep pattern [file ...]'' @ newline) Exit
      else if length argv \<le> 2 then grep_fd fuel (argv ! 1) [] 0 Exit
      else grep_files fuel (argv ! 1) (drop 2 argv))"

section \<open>Programs with a call per argument\<close>

text \<open>\<^verbatim>\<open>echo.c\<close>\<close>

fun echo_args :: "string list \<Rightarrow> prog" where
  "echo_args [] = Exit"
| "echo_args (a # as) = say 1 (a @ (if as \<noteq> [] then '' '' else newline)) (echo_args as)"

definition echo_main :: "string list \<Rightarrow> prog" where
  "echo_main argv = echo_args (tl argv)"

text \<open>\<^verbatim>\<open>kill.c\<close>: \<open>atoi\<close> of a number that does not fit an \<open>int\<close> is undefined.\<close>

fun kill_args :: "string list \<Rightarrow> prog" where
  "kill_args [] = Exit"
| "kill_args (a # as) =
     (case atoi a of
        Ret pid \<Rightarrow> Call (SKill pid) (\<lambda>_. kill_args as)
      | Undef why \<Rightarrow> Stuck why
      | _ \<Rightarrow> Spin)"

definition kill_main :: "string list \<Rightarrow> prog" where
  "kill_main argv =
     (if length argv < 2 then say 2 (''usage: kill pid...'' @ newline) Exit else kill_args (tl argv))"

text \<open>\<^verbatim>\<open>ln.c\<close>\<close>

definition ln_main :: "string list \<Rightarrow> prog" where
  "ln_main argv =
     (if length argv \<noteq> 3 then say 2 (''Usage: ln old new'' @ newline) Exit
      else
        Call (SLink (argv ! 1) (argv ! 2)) (\<lambda>r.
        if rval r < 0 then say 2 (''link '' @ argv ! 1 @ '' '' @ argv ! 2 @ '': failed'' @ newline) Exit else Exit))"

text \<open>\<^verbatim>\<open>mkdir.c\<close>\<close>

fun mkdir_args :: "string list \<Rightarrow> prog" where
  "mkdir_args [] = Exit"
| "mkdir_args (a # as) =
     Call (SMkdir a) (\<lambda>r.
     if rval r < 0 then say 2 (''mkdir: '' @ a @ '' failed to create'' @ newline) Exit else mkdir_args as)"

definition mkdir_main :: "string list \<Rightarrow> prog" where
  "mkdir_main argv =
     (if length argv < 2 then say 2 (''Usage: mkdir files...'' @ newline) Exit else mkdir_args (tl argv))"

text \<open>\<^verbatim>\<open>rm.c\<close>\<close>

fun rm_args :: "string list \<Rightarrow> prog" where
  "rm_args [] = Exit"
| "rm_args (a # as) =
     Call (SUnlink a) (\<lambda>r.
     if rval r < 0 then say 2 (''rm: '' @ a @ '' failed to delete'' @ newline) Exit else rm_args as)"

definition rm_main :: "string list \<Rightarrow> prog" where
  "rm_main argv =
     (if length argv < 2 then say 2 (''Usage: rm files...'' @ newline) Exit else rm_args (tl argv))"

text \<open>\<^verbatim>\<open>zombie.c\<close>\<close>

definition zombie_main :: prog where
  "zombie_main = Call SFork (\<lambda>r. if rval r > 0 then Call (SSleep 5) (\<lambda>_. Exit) else Exit)"

section \<open>Listing a directory\<close>

text \<open>
  \<^verbatim>\<open>ls.c\<close>.  The name after the last slash, padded with blanks to \<open>DIRSIZ\<close> characters; a name that is not shorter is
  returned as it is.
\<close>

definition fmtname :: "string \<Rightarrow> string" where
  "fmtname path =
     (let p = rev (takeWhile (\<lambda>c. c \<noteq> CHR ''/'') (rev path)) in
      if length p \<ge> 14 then p else p @ replicate (14 - length p) (CHR '' ''))"

definition ls_text :: "string \<Rightarrow> int \<times> int \<times> int \<Rightarrow> string" where
  "ls_text path st =
     (case st of (type, ino, sz) \<Rightarrow>
        fmtname path @ '' '' @ decimal (word_of_int type) @ '' '' @ decimal (word_of_int ino) @ '' '' @
        decimal (word_of_int sz) @ newline)"

text \<open>A directory entry is the inode number, two bytes, and the name, fourteen.\<close>

definition de_inum :: "string \<Rightarrow> nat" where
  "de_inum de = of_char (de ! 0) + 256 * of_char (de ! 1)"

definition de_name :: "string \<Rightarrow> string" where
  "de_name de = take 14 (drop 2 de)"

fun ls_entries :: "nat \<Rightarrow> int \<Rightarrow> string \<Rightarrow> prog \<Rightarrow> prog" where
  "ls_entries 0 fd path k = Spin"
| "ls_entries (Suc fuel) fd path k =
     Call (SRead fd 16) (\<lambda>r.
     if rval r = 16 then
       if de_inum (rbuf r) = 0 then ls_entries fuel fd path k
       else
         let buf = str_from (path @ ''/'' @ de_name (rbuf r) @ [NUL]) 0 in
         user_stat buf (\<lambda>n st.
           if n < 0 then say 1 (''ls: cannot stat '' @ buf @ newline) (ls_entries fuel fd path k)
           else say 1 (ls_text buf st) (ls_entries fuel fd path k))
     else k)"

definition ls :: "nat \<Rightarrow> string \<Rightarrow> prog \<Rightarrow> prog" where
  "ls fuel path k =
     Call (SOpen path 0) (\<lambda>fd.
     if rval fd < 0 then say 2 (''ls: cannot open '' @ path @ newline) k
     else
       Call (SFstat (rval fd)) (\<lambda>r.
       if rval r < 0 then say 2 (''ls: cannot stat '' @ path @ newline) (Call (SClose (rval fd)) (\<lambda>_. k))
       else
         let done = Call (SClose (rval fd)) (\<lambda>_. k) in
         if fst (rstat r) = 2 then say 1 (ls_text path (rstat r)) done
         else if fst (rstat r) = 1 then
           if length path + 1 + 14 + 1 > 512 then say 1 (''ls: path too long'' @ newline) done
           else ls_entries fuel (rval fd) path done
         else done))"

fun ls_args :: "nat \<Rightarrow> string list \<Rightarrow> prog" where
  "ls_args fuel [] = Exit"
| "ls_args fuel (a # as) = ls fuel a (ls_args fuel as)"

definition ls_main :: "nat \<Rightarrow> string list \<Rightarrow> prog" where
  "ls_main fuel argv = (if length argv < 2 then ls fuel ''.'' Exit else ls_args fuel (tl argv))"

section \<open>The first program\<close>

text \<open>
  \<^verbatim>\<open>init.c\<close>: \<open>init_wait\<close> is the inner loop, which reaps whatever children \<open>init\<close> was given until the shell
  itself has exited.
\<close>

fun init_loop :: "nat \<Rightarrow> prog"
  and init_wait :: "nat \<Rightarrow> int \<Rightarrow> prog" where
  "init_loop 0 = Spin"
| "init_loop (Suc fuel) =
     say 1 (''init: starting sh'' @ newline) (Call SFork (\<lambda>pid.
     if rval pid < 0 then say 1 (''init: fork failed'' @ newline) Exit
     else if rval pid = 0 then
       Call (SExec ''sh'' [''sh'']) (\<lambda>_. say 1 (''init: exec sh failed'' @ newline) Exit)
     else init_wait fuel (rval pid)))"
| "init_wait 0 pid = Spin"
| "init_wait (Suc fuel) pid =
     Call SWait (\<lambda>wpid.
     if rval wpid \<ge> 0 \<and> rval wpid \<noteq> pid then say 1 (''zombie!'' @ newline) (init_wait fuel pid)
     else init_loop fuel)"

definition init_main :: "nat \<Rightarrow> prog" where
  "init_main fuel =
     (let start = Call (SDup 0) (\<lambda>_. Call (SDup 0) (\<lambda>_. init_loop fuel)) in
      Call (SOpen ''console'' O_RDWR) (\<lambda>fd.
      if rval fd < 0 then Call (SMknod ''console'' 1 1) (\<lambda>_. Call (SOpen ''console'' O_RDWR) (\<lambda>_. start))
      else start))"

section \<open>Programs that load the kernel\<close>

text \<open>
  \<^verbatim>\<open>forktest.c\<close>, whose \<open>printf\<close> writes its format as it is.  \<open>fork_up\<close> forks until the kernel refuses or \<open>N\<close> children
  exist, \<open>wait_down\<close> collects them.
\<close>

fun wait_down :: "nat \<Rightarrow> prog \<Rightarrow> prog" where
  "wait_down 0 k = k"
| "wait_down (Suc n) k =
     Call SWait (\<lambda>r. if rval r < 0 then say 1 (''wait stopped early'' @ newline) Exit else wait_down n k)"

definition forktest_end :: "nat \<Rightarrow> prog" where
  "forktest_end n =
     (if n = 1000 then say 1 (''fork claimed to work N times!'' @ newline) Exit
      else wait_down n (Call SWait (\<lambda>r.
        if rval r \<noteq> - 1 then say 1 (''wait got too many'' @ newline) Exit
        else say 1 (''fork test OK'' @ newline) Exit)))"

fun fork_up :: "nat \<Rightarrow> nat \<Rightarrow> prog" where
  "fork_up 0 n = forktest_end n"
| "fork_up (Suc left) n =
     Call SFork (\<lambda>pid.
     if rval pid < 0 then forktest_end n
     else if rval pid = 0 then Exit
     else fork_up left (n + 1))"

definition forktest :: prog where
  "forktest = say 1 (''fork test'' @ newline) (fork_up 1000 0)"

text \<open>\<^verbatim>\<open>stressfs.c\<close>: the \<open>i\<close>-th process in a chain of forks works on a file of its own.\<close>

fun repeat_call :: "nat \<Rightarrow> call \<Rightarrow> prog \<Rightarrow> prog" where
  "repeat_call 0 c k = k"
| "repeat_call (Suc n) c k = Call c (\<lambda>_. repeat_call n c k)"

definition stressfs_work :: "nat \<Rightarrow> prog" where
  "stressfs_work i =
     (let path = ''stressfs'' @ [char_of (48 + i)] in
      say 1 (''write '' @ decimal (of_nat i) @ newline) (Call (SOpen path (O_CREATE OR O_RDWR)) (\<lambda>fd.
      repeat_call 20 (SWrite (rval fd) (replicate 512 (CHR ''a''))) (Call (SClose (rval fd)) (\<lambda>_.
      say 1 (''read'' @ newline) (Call (SOpen path O_RDONLY) (\<lambda>fd.
      repeat_call 20 (SRead (rval fd) 512) (Call (SClose (rval fd)) (\<lambda>_.
      Call SWait (\<lambda>_. Exit))))))))))"

fun stressfs_fork :: "nat \<Rightarrow> nat \<Rightarrow> prog" where
  "stressfs_fork 0 i = stressfs_work i"
| "stressfs_fork (Suc left) i =
     Call SFork (\<lambda>pid. if rval pid > 0 then stressfs_work i else stressfs_fork left (i + 1))"

definition stressfs_main :: prog where
  "stressfs_main = say 1 (''stressfs starting'' @ newline) (stressfs_fork 4 0)"

section \<open>What the programs print\<close>

text \<open>
  A program run against a kernel that serves its calls: reads return the pieces \<open>ps\<close> of the input one
  after the other, each cut to the size asked for, and then 0; writes succeed, and every other call returns 0.  The
  result is the list of what was written, with the descriptor.
\<close>

definition serve :: "nat \<Rightarrow> string list \<Rightarrow> string \<times> string list" where
  "serve n ps =
     (case ps of
        [] \<Rightarrow> ([], [])
      | p # ps \<Rightarrow> (take n p, if drop n p = [] then ps else drop n p # ps))"

definition got :: "string \<Rightarrow> resp" where
  "got p = \<lparr>rval = int (length p), rbuf = p, rfds = (0, 0), rstat = (0, 0, 0)\<rparr>"

primrec printed :: "prog \<Rightarrow> string list \<Rightarrow> (int \<times> string) list" where
  "printed Exit ps = []"
| "printed (Stuck why) ps = []"
| "printed Spin ps = []"
| "printed (Call c k) ps =
     (case c of
        SRead fd n \<Rightarrow> printed (k (got (fst (serve n ps)))) (snd (serve n ps))
      | SWrite fd str \<Rightarrow> (fd, str) # printed (k ((got [])\<lparr>rval := int (length str)\<rparr>)) ps
      | _ \<Rightarrow> printed (k (got [])) ps)"

lemma got_simps [simp]: "rval (got p) = int (length p)" "rbuf (got p) = p"
  by (simp_all add: got_def)

lemma printed_say [simp]: "printed (say fd str k) ps = (fd, str) # printed k ps"
  by (simp add: say_def)

lemma serve_Nil [simp]: "serve n [] = ([], [])"
  by (simp add: serve_def)

lemma serve_concat: "concat ps = fst (serve n ps) @ concat (snd (serve n ps))"
  by (auto simp: serve_def split: list.splits)

lemma serve_pieces: "[] \<notin> set ps \<Longrightarrow> [] \<notin> set (snd (serve n ps))"
  by (auto simp: serve_def split: list.splits)

lemma serve_some: "[] \<notin> set ps \<Longrightarrow> 0 < n \<Longrightarrow> fst (serve n ps) = [] \<longleftrightarrow> ps = []"
  by (auto simp: serve_def split: list.splits)

lemma serve_less:
  assumes "[] \<notin> set ps" and "0 < n" and "ps \<noteq> []"
  shows "length (concat (snd (serve n ps))) < length (concat ps)"
  using serve_some [OF assms(1,2)] assms(3) arg_cong [OF serve_concat [of ps n], of length]
  by (cases "fst (serve n ps)") auto

text \<open>\<open>cat\<close> writes what it reads.\<close>

lemma cat_printed:
  "length (concat ps) < fuel \<Longrightarrow> [] \<notin> set ps \<Longrightarrow>
   \<exists>out. printed (cat fuel fd Exit) ps = map (Pair 1) out \<and> concat out = concat ps"
proof (induction fuel arbitrary: ps)
  case (Suc fuel)
  let ?r = "serve 512 ps"
  show ?case
  proof (cases "ps = []")
    case False
    then have "length (concat (snd ?r)) < fuel" using serve_less [of ps 512] Suc.prems by simp
    from Suc.IH [OF this serve_pieces [OF Suc.prems(2)]] obtain out where
      "printed (cat fuel fd Exit) (snd ?r) = map (Pair 1) out" "concat out = concat (snd ?r)" by blast
    moreover have "fst ?r \<noteq> []" using serve_some [of ps 512] Suc.prems(2) False by simp
    ultimately show ?thesis
      using serve_concat [of ps 512] by (intro exI [of _ "fst ?r # out"]) simp
  qed simp
qed simp

text \<open>The tree of \<open>grep\<close> writes what the function \<open>grep\<close> says, chunk by chunk.\<close>

lemma grep_serve:
  assumes "[] \<notin> set ps" and "length buf < 1023" and "ps \<noteq> []" and "serve (1023 - length buf) ps = (p, rest)"
  shows "grep pattern buf ps =
    (let buf = buf @ p; (out, q) = grep_lines pattern buf in
     out @ grep pattern (if length q = length buf then [] else q) rest)"
  using assms by (cases ps) (auto simp: serve_def grep.simps Let_def split: prod.splits)

lemma grep_fd_printed:
  "length (concat ps) < fuel \<Longrightarrow> [] \<notin> set ps \<Longrightarrow>
   concat (map snd (printed (grep_fd fuel pattern buf fd Exit) ps)) = grep pattern buf ps"
proof (induction fuel arbitrary: ps buf)
  case (Suc fuel)
  obtain p rest where r: "serve (1023 - length buf) ps = (p, rest)" by (cases "serve (1023 - length buf) ps")
  show ?case
  proof (cases "ps = [] \<or> length buf \<ge> 1023")
    case True
    then show ?thesis by (cases ps) (auto simp: serve_def grep.simps)
  next
    case False
    then have "length (concat rest) < fuel" "[] \<notin> set rest" "p \<noteq> []"
      using serve_less [of ps "1023 - length buf"] serve_pieces [of ps "1023 - length buf"]
        serve_some [of ps "1023 - length buf"] Suc.prems r by auto
    then show ?thesis
      using grep_serve [OF Suc.prems(2) _ _ r, of pattern] False r Suc.IH [of rest]
      by (auto simp: Let_def split: prod.splits)
  qed
qed simp

text \<open>The words of a text: the maximal runs of characters that are not white space.\<close>

function words_of :: "string \<Rightarrow> string list" where
  "words_of [] = []"
| "words_of (c # str) =
     (if c \<in> set wc_white then words_of str
      else (c # takeWhile (\<lambda>c. c \<notin> set wc_white) str) # words_of (dropWhile (\<lambda>c. c \<notin> set wc_white) str))"
  by pat_completeness auto

termination
  by (relation "measure length") (auto simp: less_Suc_eq_le length_dropWhile_le)

lemma strchr_white: "strchr wc_white c \<noteq> None \<longleftrightarrow> c \<in> set wc_white"
  by (rule strchr_in) (simp add: wc_white_def NUL_def)

lemma wc_char_fields:
  "nchars (wc_char c s) = nchars s + 1"
  "lines (wc_char c s) = lines s + (if c = NL then 1 else 0)"
  "inword (wc_char c s) \<longleftrightarrow> c \<notin> set wc_white"
  "nwords (wc_char c s) = nwords s + (if c \<notin> set wc_white \<and> \<not> inword s then 1 else 0)"
  using strchr_white [of c] by (auto simp: wc_char_def Let_def)

lemma wc_fold:
  "nchars (fold wc_char str s) = nchars s + of_nat (length str)"
  "lines (fold wc_char str s) = lines s + of_nat (count_list str NL)"
  "nwords (fold wc_char str s) =
     nwords s + of_nat (length (words_of (if inword s then dropWhile (\<lambda>c. c \<notin> set wc_white) str else str)))"
  by (induction str arbitrary: s) (auto simp: wc_char_fields)

lemma wc_loop_printed:
  "length (concat ps) < fuel \<Longrightarrow> [] \<notin> set ps \<Longrightarrow>
   printed (wc_loop fuel fd name s Exit) ps = [(1, wc_text (fold wc_char (concat ps) s) name)]"
proof (induction fuel arbitrary: ps s)
  case (Suc fuel)
  let ?r = "serve 512 ps"
  show ?case
  proof (cases "ps = []")
    case False
    then have "length (concat (snd ?r)) < fuel" using serve_less [of ps 512] Suc.prems by simp
    note Suc.IH [OF this serve_pieces [OF Suc.prems(2)]]
    moreover have "fst ?r \<noteq> []" using serve_some [of ps 512] Suc.prems(2) False by simp
    ultimately show ?thesis using serve_concat [of ps 512] by simp
  qed simp
qed simp

text \<open>
  C34: \<open>wc\<close> prints the number of lines, of words and of characters of what it reads, however the kernel cuts
  it into pieces: a word that is split between two reads is counted once.
\<close>

theorem wc_counts:
  assumes "length (concat ps) < fuel" and "[] \<notin> set ps"
  shows "printed (wc fuel fd name Exit) ps =
    [(1, decimal (of_nat (count_list (concat ps) NL)) @ '' '' @ decimal (of_nat (length (words_of (concat ps)))) @
         '' '' @ decimal (of_nat (length (concat ps))) @ '' '' @ name @ newline)]"
  using wc_loop_printed [OF assms, of fd name no_counts]
  by (simp add: wc_def wc_text_def wc_fold no_counts_def)

theorem wc_counts_witness:
  "printed (wc 7 0 ''f'' Exit) [''ab c'', ''d'' @ newline] = [(1, ''1 2 6 f'' @ newline)]"
proof -
  have "map decimal [1, 2, 6] = [''1'', ''2'', ''6'']" by code_simp
  then show ?thesis
    by (subst wc_counts) (simp_all add: newline_def wc_white_def NL_def)
qed

end
