(* ===== verification/Umalloc.thy ===== *)
theory Umalloc
  imports Ring Format
begin

text \<open>
  The allocator of the user library, \<^verbatim>\<open>umalloc.c\<close>: the free list of Kernighan and Ritchie, a ring of blocks
  in the order of their addresses.  The fields of the headers are two maps from addresses, one per
  field, which is faithful because every header lies at a multiple of its size of 8 bytes.  \<open>sbrk\<close>
  answers as \<open>sys_sbrk\<close> and \<open>growproc\<close> do; \<open>limit\<close> is where the kernel runs out of memory for the process.
\<close>

section \<open>The allocator\<close>

record ust =
  nxt :: "uint \<Rightarrow> uint"
  siz :: "uint \<Rightarrow> uint"
  freep :: uint
  brk :: uint
  limit :: nat

text \<open>\<open>sizeof(Header)\<close>, and \<open>p + n\<close> for a pointer to a header.\<close>

definition unit_size :: uint where "unit_size = 8"

definition hdr_add :: "uint \<Rightarrow> uint \<Rightarrow> uint" where
  "hdr_add p n = p + unit_size * n"

definition sbrk :: "uint \<Rightarrow> ust \<Rightarrow> uint \<times> ust" where
  "sbrk n st =
     (if sint n > 0 then
        (if unat (brk st) + unat n > limit st then (- 1, st) else (brk st, st\<lparr>brk := brk st + n\<rparr>))
      else if sint n < 0 then
        let sz = (if brk st + n \<ge> brk st then brk st else brk st + n) in
        if sz = 0 then (- 1, st) else (brk st, st\<lparr>brk := sz\<rparr>)
      else (brk st, st))"

text \<open>The text that \<open>print_free_list\<close> prints.\<close>

fun print_free_list_loop :: "nat \<Rightarrow> uint \<Rightarrow> uint \<Rightarrow> ust \<Rightarrow> string outcome" where
  "print_free_list_loop 0 base p st = Diverge"
| "print_free_list_loop (Suc fuel) base p st =
     (if p = base then Ret []
      else
        andthen (printint digits_printf (siz st p) 10 True) (\<lambda>num.
        andthen (print_free_list_loop fuel base (nxt st p) st) (\<lambda>out. Ret (num @ '' -> '' @ out))))"

definition print_free_list :: "nat \<Rightarrow> uint \<Rightarrow> ust \<Rightarrow> string outcome" where
  "print_free_list fuel base st =
     andthen (if freep st = 0 then Ret [] else print_free_list_loop fuel base (nxt st base) st) (\<lambda>out.
     Ret (''Header -> '' @ out @ ''NULL'' @ [CHR 0x0A]))"

fun free_loop :: "nat \<Rightarrow> uint \<Rightarrow> uint \<Rightarrow> ust \<Rightarrow> uint outcome" where
  "free_loop 0 bp p st = Diverge"
| "free_loop (Suc fuel) bp p st =
     (if bp > p \<and> bp < nxt st p then Ret p
      else if p \<ge> nxt st p \<and> (bp > p \<or> bp < nxt st p) then Ret p
      else free_loop fuel bp (nxt st p) st)"

text \<open>The two joins of \<open>free\<close>, with the block above and with the block below.\<close>

definition link_next :: "uint \<Rightarrow> uint \<Rightarrow> ust \<Rightarrow> ust" where
  "link_next bp p st =
     (if hdr_add bp (siz st bp) = nxt st p
      then st\<lparr>siz := (siz st)(bp := siz st bp + siz st (nxt st p)), nxt := (nxt st)(bp := nxt st (nxt st p))\<rparr>
      else st\<lparr>nxt := (nxt st)(bp := nxt st p)\<rparr>)"

definition link_prev :: "uint \<Rightarrow> uint \<Rightarrow> ust \<Rightarrow> ust" where
  "link_prev bp p st =
     (if hdr_add p (siz st p) = bp
      then st\<lparr>siz := (siz st)(p := siz st p + siz st bp), nxt := (nxt st)(p := nxt st bp)\<rparr>
      else st\<lparr>nxt := (nxt st)(p := bp)\<rparr>)"

definition free :: "nat \<Rightarrow> uint \<Rightarrow> ust \<Rightarrow> ust outcome" where
  "free fuel ap st =
     (let bp = ap - unit_size in
      andthen (free_loop fuel bp (freep st) st) (\<lambda>p.
      let st = link_next bp p st; st = link_prev bp p st in
      Ret (st\<lparr>freep := p\<rparr>)))"

definition morecore :: "nat \<Rightarrow> uint \<Rightarrow> ust \<Rightarrow> (uint \<times> ust) outcome" where
  "morecore fuel nu st =
     (let nu = (if nu < 4096 then 4096 else nu); (p, st) = sbrk (nu * unit_size) st in
      if p = - 1 then Ret (0, st)
      else
        let st = st\<lparr>siz := (siz st)(p := nu)\<rparr> in
        andthen (free fuel (hdr_add p 1) st) (\<lambda>st. Ret (freep st, st)))"

text \<open>The branch of \<open>malloc\<close> that has found a block: all of it or its upper end is taken.\<close>

definition carve :: "uint \<Rightarrow> uint \<Rightarrow> uint \<Rightarrow> ust \<Rightarrow> uint \<times> ust" where
  "carve nunits prevp p st =
     (let (p, st) =
            (if siz st p = nunits then (p, st\<lparr>nxt := (nxt st)(prevp := nxt st p)\<rparr>)
             else
               let st = st\<lparr>siz := (siz st)(p := siz st p - nunits)\<rparr>; p = hdr_add p (siz st p) in
               (p, st\<lparr>siz := (siz st)(p := nunits)\<rparr>)) in
      (hdr_add p 1, st\<lparr>freep := prevp\<rparr>))"

fun malloc_loop :: "nat \<Rightarrow> uint \<Rightarrow> uint \<Rightarrow> uint \<Rightarrow> ust \<Rightarrow> (uint \<times> ust) outcome" where
  "malloc_loop 0 nunits prevp p st = Diverge"
| "malloc_loop (Suc fuel) nunits prevp p st =
     (if siz st p \<ge> nunits then Ret (carve nunits prevp p st)
      else if p = freep st then
        andthen (morecore fuel nunits st) (\<lambda>(p, st).
        if p = 0 then Ret (0, st) else malloc_loop fuel nunits p (nxt st p) st)
      else malloc_loop fuel nunits p (nxt st p) st)"

definition units :: "uint \<Rightarrow> uint" where
  "units nbytes = (nbytes + unit_size - 1) div unit_size + 1"

text \<open>\<open>base\<close> is the address of the static header.\<close>

definition malloc :: "nat \<Rightarrow> uint \<Rightarrow> uint \<Rightarrow> ust \<Rightarrow> (uint \<times> ust) outcome" where
  "malloc fuel base nbytes st =
     (let nunits = units nbytes;
          st = (if freep st = 0 then st\<lparr>nxt := (nxt st)(base := base), freep := base, siz := (siz st)(base := 0)\<rparr> else st);
          prevp = freep st in
      malloc_loop fuel nunits prevp (nxt st prevp) st)"

definition malloc_wf :: "uint \<Rightarrow> ust \<Rightarrow> uint \<times> ust" where
  "malloc_wf nbytes st = (0, st)"

section \<open>The free list\<close>

type_synonym block = "uint \<times> uint"

definition fin :: "block \<Rightarrow> nat" where
  "fin b = unat (fst b) + 8 * unat (snd b)"

definition area :: "block \<Rightarrow> nat set" where
  "area b = {unat (fst b)..<fin b}"

text \<open>\<open>links f xs z\<close>: following \<open>f\<close> from the head of \<open>xs\<close> visits \<open>xs\<close> and then \<open>z\<close>.\<close>

fun links :: "(uint \<Rightarrow> uint) \<Rightarrow> uint list \<Rightarrow> uint \<Rightarrow> bool" where
  "links f [] z \<longleftrightarrow> True"
| "links f [x] z \<longleftrightarrow> f x = z"
| "links f (x # y # xs) z \<longleftrightarrow> f x = y \<and> links f (y # xs) z"

lemma links_append: "links f (xs @ y # ys) z \<longleftrightarrow> links f xs y \<and> links f (y # ys) z"
  by (induction f xs y rule: links.induct) auto

lemma links_upd [simp]: "x \<notin> set xs \<Longrightarrow> links (f(x := y)) xs z = links f xs z"
  by (induction f xs z rule: links.induct) auto

lemma links_nth: "links f xs z \<Longrightarrow> i < length xs \<Longrightarrow> f (xs ! i) = (if Suc i < length xs then xs ! Suc i else z)"
proof (induction f xs z arbitrary: i rule: links.induct)
  case (3 f x y xs z)
  then show ?case by (cases i) auto
qed auto

text \<open>\<open>ring L base st\<close>: the nodes \<open>L\<close> are linked up to \<open>base\<close> and have their sizes.\<close>

definition ring :: "block list \<Rightarrow> uint \<Rightarrow> ust \<Rightarrow> bool" where
  "ring L base st \<longleftrightarrow> links (nxt st) (map fst L) base \<and> (\<forall>b\<in>set L. siz st (fst b) = snd b)"

lemma ring_append: "ring (us @ p # vs) base st \<longleftrightarrow> ring us (fst p) st \<and> ring (p # vs) base st"
  by (auto simp: ring_def links_append)

lemma ring_Cons: "ring (b # L) z st \<longleftrightarrow> nxt st (fst b) = hd (map fst L @ [z]) \<and> siz st (fst b) = snd b \<and> ring L z st"
  by (cases L) (auto simp: ring_def)

lemma ring_Nil [simp]: "ring [] z st"
  by (simp add: ring_def)

lemma free_ring_upd:
  assumes "x \<notin> fst ` set L"
  shows "ring L z (st\<lparr>nxt := (nxt st)(x := y)\<rparr>) = ring L z st"
    and "ring L z (st\<lparr>siz := (siz st)(x := w)\<rparr>) = ring L z st"
    and "ring L z (st\<lparr>siz := (siz st)(x := w), nxt := (nxt st)(x := y)\<rparr>) = ring L z st"
  using assms by (force simp: ring_def)+

lemma ring_freep [simp]: "ring L z (st\<lparr>freep := p\<rparr>) = ring L z st" "ring L z (st\<lparr>brk := q\<rparr>) = ring L z st"
  by (simp_all add: ring_def)

text \<open>
  The invariant.  The ring starts with the static header, which counts as a block of size 0, and
  goes through the free blocks in the order of their addresses.  Free blocks are not empty, do not
  overlap and do not touch, since \<open>free\<close> joins neighbours.  \<open>M\<close> is the end of the process.
\<close>

definition spaced :: "block list \<Rightarrow> bool" where
  "spaced L \<longleftrightarrow> sorted_wrt (\<lambda>b c. fin b < unat (fst c)) L"

definition blocks :: "nat \<Rightarrow> block list \<Rightarrow> bool" where
  "blocks M L \<longleftrightarrow> L \<noteq> [] \<and> snd (hd L) = 0 \<and> spaced L \<and> (\<forall>b\<in>set (tl L). snd b \<noteq> 0) \<and> (\<forall>b\<in>set L. fin b \<le> M \<and> 8 dvd unat (fst b))"

definition heap :: "uint \<Rightarrow> block list \<Rightarrow> ust \<Rightarrow> bool" where
  "heap base bs st \<longleftrightarrow>
     base \<noteq> 0 \<and> unat base < unat (brk st) \<and> ring ((base, 0) # bs) base st \<and> blocks (unat (brk st)) ((base, 0) # bs)
     \<and> freep st \<in> fst ` set ((base, 0) # bs)
     \<and> unat (brk st) \<le> limit st \<and> limit st \<le> 2 ^ 31 \<and> 8 dvd unat (brk st)"

definition free_area :: "block list \<Rightarrow> nat set" where
  "free_area bs = (\<Union>b\<in>set bs. area b)"

lemma unat_hdr_add:
  assumes "fin (p, n) < 2 ^ 32"
  shows "unat (hdr_add p n) = fin (p, n)"
proof -
  have "unat (unit_size * n) = 8 * unat n" using assms by (subst unat_mult_lem [THEN iffD1]) (simp_all add: unit_size_def fin_def)
  then show ?thesis using assms unfolding hdr_add_def fin_def by (subst unat_plus_simple [THEN iffD1]) (auto simp: word_le_nat_alt unat_word_ariths)
qed

lemma spaced_less: "spaced L \<Longrightarrow> i < j \<Longrightarrow> j < length L \<Longrightarrow> unat (fst (L ! i)) < unat (fst (L ! j))"
  using sorted_wrt_nth_less [of "\<lambda>b c. fin b < unat (fst c)" L i j] by (simp add: spaced_def fin_def)

section \<open>Freeing a block\<close>

text \<open>The search stops at the last node below the block, from wherever it starts in the ring.\<close>

lemma free_loop_finds:
  assumes L: "links f (map fst L) (fst (L ! 0))" "spaced L" and f: "nxt st = f"
    and t: "t < length L" "unat (fst (L ! t)) < unat bp" "\<And>i. t < i \<Longrightarrow> i < length L \<Longrightarrow> unat bp < unat (fst (L ! i))"
    and "k < length L" and "(if k \<le> t then t - k else length L - k + t) < fuel"
  shows "free_loop fuel bp (fst (L ! k)) st = Ret (fst (L ! t))"
  using assms(7,8)
proof (induction fuel arbitrary: k)
  case (Suc fuel)
  let ?n = "length L"
  note k = Suc.prems(1)
  have nx: "nxt st (fst (L ! k)) = (if Suc k < ?n then fst (L ! Suc k) else fst (L ! 0))"
    using links_nth [OF L(1), of k] k by (simp add: f)
  have base: "unat (fst (L ! 0)) \<le> unat (fst (L ! i))" if "i < ?n" for i
    using spaced_less [OF L(2), of 0 i] that by (cases "i = 0") auto
  have b0: "unat (fst (L ! 0)) < unat bp" using base [OF t(1)] t(2) by simp
  show ?case
  proof (cases "k = t")
    case True
    then show ?thesis using t(1,2) t(3) [of "Suc t"] b0 nx base [OF k] by (auto simp: word_less_nat_alt word_le_nat_alt)
  next
    case False
    have step: "(if bp > fst (L ! k) \<and> bp < nxt st (fst (L ! k)) then Ret (fst (L ! k))
        else if fst (L ! k) \<ge> nxt st (fst (L ! k)) \<and> (bp > fst (L ! k) \<or> bp < nxt st (fst (L ! k))) then Ret (fst (L ! k))
        else free_loop fuel bp (nxt st (fst (L ! k))) st) = free_loop fuel bp (nxt st (fst (L ! k))) st"
    proof (cases "Suc k < ?n")
      case True
      have "unat (fst (L ! k)) < unat (fst (L ! Suc k))" using spaced_less [OF L(2) _ True, of k] by simp
      moreover have "unat (fst (L ! Suc k)) < unat bp" if "k < t"
        using spaced_less [OF L(2), of "Suc k" t] t(1,2) that by (cases "Suc k = t") auto
      moreover have "unat bp < unat (fst (L ! k))" if "\<not> k < t" using t(3) [of k] False that k by simp
      ultimately show ?thesis using True nx by (cases "k < t") (auto simp: word_less_nat_alt word_le_nat_alt)
    next
      case last: False
      have "unat bp < unat (fst (L ! k))" using t(3) [of k] t(1) False last k by linarith
      then show ?thesis using last nx b0 by (auto simp: word_less_nat_alt word_le_nat_alt)
    qed
    have "free_loop fuel bp (nxt st (fst (L ! k))) st = Ret (fst (L ! t))"
    proof (cases "Suc k < ?n")
      case True
      then show ?thesis using nx Suc.IH [of "Suc k"] Suc.prems(2) False by (simp split: if_splits)
    next
      case last: False
      have "L \<noteq> []" using k by auto
      moreover have "t < fuel" using last Suc.prems t(1) False by (auto split: if_splits)
      ultimately show ?thesis using nx last Suc.IH [of 0] by simp
    qed
    then show ?thesis using step by simp
  qed
qed simp

text \<open>Putting a block between the blocks below it and those above, joined with its neighbours.\<close>

definition join_next :: "block \<Rightarrow> block list \<Rightarrow> block list" where
  "join_next b vs = (case vs of [] \<Rightarrow> [b] | c # cs \<Rightarrow> if fin b = unat (fst c) then (fst b, snd b + snd c) # cs else b # vs)"

definition join_prev :: "block list \<Rightarrow> block \<Rightarrow> block list \<Rightarrow> block list" where
  "join_prev us p bs = (if fin p = unat (fst (hd bs)) then us @ (fst p, snd p + snd (hd bs)) # tl bs else us @ p # bs)"

lemma fin_join:
  assumes "fin b = unat (fst c)" and "fin c < 2 ^ 32"
  shows "fin (fst b, snd b + snd c) = fin c" and "unat (snd b + snd c) = unat (snd b) + unat (snd c)"
proof -
  show u: "unat (snd b + snd c) = unat (snd b) + unat (snd c)"
    using assms by (subst unat_plus_simple [THEN iffD1]) (auto simp: fin_def word_le_nat_alt unat_word_ariths)
  show "fin (fst b, snd b + snd c) = fin c" using assms(1) by (simp add: fin_def u)
qed

lemma link_next_ring:
  assumes "ring (p # vs) base st" and "fst b \<notin> fst ` set (p # vs)" and "siz st (fst b) = snd b"
    and "hdr_add (fst b) (snd b) = nxt st (fst p) \<longleftrightarrow> vs \<noteq> [] \<and> fin b = unat (fst (hd vs))"
  shows "ring (join_next b vs) base (link_next (fst b) (fst p) st)"
    and "x \<noteq> fst b \<Longrightarrow> nxt (link_next (fst b) (fst p) st) x = nxt st x \<and> siz (link_next (fst b) (fst p) st) x = siz st x"
proof -
  show "ring (join_next b vs) base (link_next (fst b) (fst p) st)"
  proof (cases vs)
    case Nil
    then show ?thesis using assms by (simp add: ring_Cons join_next_def link_next_def)
  next
    case (Cons c cs)
    have cs: "fst b \<noteq> fst c" "fst b \<notin> fst ` set cs" using assms(2) by (auto simp: Cons)
    show ?thesis using assms cs by (auto simp: Cons ring_Cons join_next_def link_next_def free_ring_upd)
  qed
qed (simp add: link_next_def)

lemma link_prev_ring:
  assumes "ring (us @ [p]) z st" and "ring (b # vs) base st" and "distinct (map fst (us @ p # b # vs))"
    and "hdr_add (fst p) (snd p) = fst b \<longleftrightarrow> fin p = unat (fst b)"
  shows "ring (join_prev us p (b # vs)) base (link_prev (fst b) (fst p) st)"
proof -
  have "ring us (fst p) st" "siz st (fst p) = snd p" using assms(1) by (simp_all add: ring_append ring_Cons)
  moreover have "fst p \<notin> fst ` set us" "fst p \<notin> fst ` set vs" "fst p \<noteq> fst b" using assms(3) by auto
  ultimately show ?thesis using assms(2,4)
    by (auto simp: ring_append ring_Cons join_prev_def link_prev_def free_ring_upd)
qed

lemma area_join:
  assumes "fin b = unat (fst c)" and "fin c < 2 ^ 32"
  shows "area (fst b, snd b + snd c) = area b \<union> area c"
proof -
  have "unat (fst b) \<le> fin b" "unat (fst c) \<le> fin c" by (simp_all add: fin_def)
  then show ?thesis unfolding area_def fin_join(1) [OF assms] using assms(1) by (auto simp: fin_join)
qed

text \<open>Proper blocks from address \<open>a\<close> on.\<close>

definition from_addr :: "nat \<Rightarrow> uint \<Rightarrow> block list \<Rightarrow> bool" where
  "from_addr M a L \<longleftrightarrow> spaced L \<and> L \<noteq> [] \<and> fst (hd L) = a
     \<and> (\<forall>c\<in>set L. snd c \<noteq> 0 \<and> fin c \<le> M \<and> 8 dvd unat (fst c) \<and> unat a \<le> unat (fst c))"

lemma join_next_blocks:
  assumes "spaced vs" and "\<forall>c\<in>set vs. snd c \<noteq> 0 \<and> fin c \<le> M \<and> 8 dvd unat (fst c)" and "M < 2 ^ 32"
    and "snd b \<noteq> 0" and "fin b \<le> M" and "8 dvd unat (fst b)" and "\<forall>c\<in>set vs. fin b \<le> unat (fst c)"
  shows "from_addr M (fst b) (join_next b vs) \<and> free_area (join_next b vs) = area b \<union> free_area vs
    \<and> snd b \<le> snd (hd (join_next b vs))"
proof (cases vs)
  case Nil
  then show ?thesis using assms by (simp add: join_next_def spaced_def free_area_def from_addr_def)
next
  case (Cons c cs)
  have c: "snd c \<noteq> 0" "fin c \<le> M" "fin c < 2 ^ 32" "fin b \<le> unat (fst c)" using assms by (simp_all add: Cons)
  have le: "unat (fst b) \<le> unat (fst d)" if "d \<in> set vs" for d
    using assms(7) that by (force simp: fin_def)
  have sp: "\<forall>d\<in>set cs. fin c < unat (fst d)" "spaced cs" using assms(1) by (simp_all add: spaced_def Cons)
  have lt: "fin b < unat (fst d)" if "d \<in> set vs" "fin b \<noteq> unat (fst c)" for d
  proof (cases "d = c")
    case False
    then have "fin c < unat (fst d)" using sp(1) that(1) by (simp add: Cons)
    then show ?thesis using c(4) by (simp add: fin_def)
  qed (use c(4) that in simp)
  show ?thesis
  proof (cases "fin b = unat (fst c)")
    case True
    note j = fin_join [OF True c(3)] area_join [OF True c(3)]
    have "snd b + snd c \<noteq> 0" using j(2) c(1) by (metis add_is_0 unat_0 unat_eq_zero)
    moreover have "snd b \<le> snd b + snd c" using j(2) by (simp add: word_le_nat_alt)
    ultimately show ?thesis using True assms sp j(1,3) c le
      by (auto simp: join_next_def Cons spaced_def free_area_def from_addr_def)
  next
    case False
    then show ?thesis using assms lt le by (auto simp: join_next_def Cons spaced_def free_area_def from_addr_def)
  qed
qed

lemma blocks_append:
  "blocks M (us @ p # vs) \<longleftrightarrow>
     spaced us \<and> spaced vs \<and> (\<forall>u\<in>set us. \<forall>c\<in>set (p # vs). fin u < unat (fst c)) \<and> (\<forall>c\<in>set vs. fin p < unat (fst c))
     \<and> (\<forall>b\<in>set us \<union> set (p # vs). fin b \<le> M \<and> 8 dvd unat (fst b)) \<and> (\<forall>b\<in>set (tl us) \<union> set vs. snd b \<noteq> 0)
     \<and> (if us = [] then snd p = 0 else snd (hd us) = 0 \<and> snd p \<noteq> 0)"
  unfolding blocks_def spaced_def sorted_wrt_append by (cases us) (simp_all, blast+)

lemma join_prev_blocks:
  assumes L: "blocks M (us @ p # vs)" and "M < 2 ^ 32" and f: "from_addr M a bs"
    and p: "unat (fst p) < unat a" "fin p \<le> unat a"
  shows "blocks M (join_prev us p bs) \<and> hd (join_prev us p bs) = hd (us @ p # vs)
    \<and> free_area (join_prev us p bs) = free_area (us @ [p]) \<union> free_area bs \<and> (\<exists>c\<in>set (join_prev us p bs). snd (hd bs) \<le> snd c)
    \<and> fst p \<in> fst ` set (join_prev us p bs)"
proof -
  obtain c cs where bs: "bs = c # cs" "fst c = a" using f by (cases bs) (auto simp: from_addr_def)
  have c: "snd c \<noteq> 0" "fin c \<le> M" "\<forall>d\<in>set cs. snd d \<noteq> 0 \<and> fin d \<le> M \<and> 8 dvd unat (fst d) \<and> fin c < unat (fst d)" "spaced cs"
    using f by (auto simp: from_addr_def spaced_def bs)
  have u: "\<forall>u\<in>set us. fin u < unat (fst p)" "spaced us" "\<forall>b\<in>set (tl us). snd b \<noteq> 0" "fin p \<le> M" "8 dvd unat (fst p)"
    "\<forall>u\<in>set us. fin u \<le> M \<and> 8 dvd unat (fst u)" "if us = [] then snd p = 0 else snd (hd us) = 0 \<and> snd p \<noteq> 0"
    using L by (auto simp: blocks_append)
  have lt: "fin u < unat (fst d)" if "u \<in> set us" "d \<in> set bs" for u d
  proof -
    have "unat a \<le> unat (fst d)" using f that(2) by (simp add: from_addr_def)
    then show ?thesis using u(1) that(1) p(1) by fastforce
  qed
  show ?thesis
  proof (cases "fin p = unat a")
    case True
    then have pc: "fin p = unat (fst c)" by (simp add: bs(2))
    have "fin c < 2 ^ 32" using c(2) assms(2) by simp
    note j = fin_join [OF pc this] area_join [OF pc this]
    have nz: "us \<noteq> []" using u(7) True p(1) by (auto simp: fin_def split: if_splits)
    have s: "snd p + snd c \<noteq> 0" using j(2) c(1) by (metis add_is_0 unat_0 unat_eq_zero)
    have "blocks M (us @ (fst p, snd p + snd c) # cs)"
      unfolding blocks_append using u c lt nz s j(1) by (simp add: bs ball_Un)
    moreover have "join_prev us p bs = us @ (fst p, snd p + snd c) # cs" using True by (simp add: join_prev_def bs)
    moreover have "snd c \<le> snd p + snd c" using j(2) by (simp add: word_le_nat_alt)
    ultimately show ?thesis using nz j(3) by (auto simp: free_area_def bs)
  next
    case False
    then have fp: "fin p < unat (fst d)" if "d \<in> set bs" for d using f p(2) that by (fastforce simp: from_addr_def)
    have "blocks M (us @ p # bs)"
      unfolding blocks_append using u lt fp f by (simp add: from_addr_def ball_Un)
    moreover have "join_prev us p bs = us @ p # bs" using False by (simp add: join_prev_def bs)
    ultimately show ?thesis by (cases us) (auto simp: free_area_def bs)
  qed
qed

lemma fin_gt: "snd b \<noteq> 0 \<Longrightarrow> unat (fst b) < fin b"
  by (simp add: fin_def unat_gt_0)

text \<open>A block that a program may free: proper, below the end of the process and apart from the free blocks.\<close>

definition in_use :: "uint \<Rightarrow> block list \<Rightarrow> ust \<Rightarrow> block \<Rightarrow> bool" where
  "in_use base bs st b \<longleftrightarrow>
     snd b \<noteq> 0 \<and> 8 dvd unat (fst b) \<and> unat base < unat (fst b) \<and> fin b \<le> unat (brk st) \<and> siz st (fst b) = snd b
     \<and> (\<forall>c\<in>set bs. fin c \<le> unat (fst b) \<or> fin b \<le> unat (fst c))"

text \<open>The ring around the place of the block.\<close>

lemma in_use_split:
  assumes h: "heap base bs st" and b: "in_use base bs st b"
  obtains us p vs where "(base, 0) # bs = us @ p # vs" "unat (fst p) < unat (fst b)" "fin p \<le> unat (fst b)"
    "\<forall>c\<in>set vs. fin b \<le> unat (fst c)"
proof -
  let ?L = "(base, 0) # bs" and ?P = "\<lambda>c. unat (fst c) < unat (fst b)"
  define us where "us = takeWhile ?P ?L"
  define vs where "vs = dropWhile ?P ?L"
  have "us \<noteq> []" using b by (simp add: us_def in_use_def)
  then obtain us' p where p: "us = us' @ [p]" by (cases us rule: rev_cases) auto
  then have L: "?L = us' @ p # vs" using takeWhile_dropWhile_id [of ?P ?L] by (simp add: us_def vs_def)
  have "p \<in> set us" by (simp add: p)
  then have lt: "unat (fst p) < unat (fst b)" unfolding us_def by (rule set_takeWhileD [THEN conjunct2])
  have "p \<in> set ?L" by (simp only: L) simp
  then have "fin p \<le> unat (fst b)" using b lt by (auto simp: in_use_def fin_def)
  moreover have "fin b \<le> unat (fst c)" if "c \<in> set vs" for c
  proof -
    have "vs \<noteq> []" using that by auto
    then have v: "unat (fst b) \<le> unat (fst (hd vs))" using hd_dropWhile [of ?P ?L] by (simp add: vs_def not_less)
    have "spaced vs" using h unfolding heap_def L by (simp add: blocks_append)
    then have "unat (fst (hd vs)) \<le> unat (fst c)" using that by (cases vs) (auto simp: spaced_def fin_def)
    then have "unat (fst b) \<le> unat (fst c)" using v by simp
    moreover have nz: "snd c \<noteq> 0" using h that unfolding heap_def L by (simp add: blocks_append)
    moreover have "0 < unat (snd c)" using nz by (simp add: unat_gt_0)
    ultimately have "unat (fst b) < fin c" unfolding fin_def by linarith
    moreover have "c \<in> set ?L" unfolding L using that by simp
    then have "c \<in> set bs" using nz by auto
    ultimately show ?thesis using b by (auto simp: in_use_def)
  qed
  ultimately show thesis using that L lt by blast
qed

lemma heap_distinct': "spaced L \<Longrightarrow> distinct (map fst L)"
proof -
  assume "spaced L"
  then have "sorted_wrt (\<lambda>x y. unat x < unat y) (map fst L)"
    unfolding spaced_def sorted_wrt_map by (auto simp: fin_def elim!: sorted_wrt_mono_rel [rotated])
  then show ?thesis by (induction L) auto
qed

lemma heap_distinct: "blocks M L \<Longrightarrow> distinct (map fst L)"
  by (rule heap_distinct') (simp add: blocks_def)

lemma ring_frame:
  assumes "ring L z st" and "\<And>x. x \<in> fst ` set L \<Longrightarrow> nxt st' x = nxt st x \<and> siz st' x = siz st x"
  shows "ring L z st'"
  using assms
proof (induction L)
  case (Cons b L)
  then show ?case by (auto simp: ring_Cons)
qed simp

lemma distinct_join:
  "distinct (us @ p # vs) \<Longrightarrow> set bs \<subseteq> set vs \<Longrightarrow> distinct (b # bs) \<Longrightarrow> b \<notin> set (us @ p # vs) \<Longrightarrow> distinct (us @ p # b # bs)"
  by auto

lemma free_spec:
  assumes h: "heap base bs st" and b: "in_use base bs st b" and fuel: "length bs + 1 < fuel"
  shows "\<exists>st' bs'. free fuel (fst b + unit_size) st = Ret st' \<and> heap base bs' st' \<and> brk st' = brk st \<and> limit st' = limit st
    \<and> free_area bs' = free_area bs \<union> area b \<and> (\<exists>c\<in>set bs'. snd b \<le> snd c) \<and> length bs' \<le> Suc (length bs)"
proof -
  obtain us p vs where L: "(base, 0) # bs = us @ p # vs" and p: "unat (fst p) < unat (fst b)" "fin p \<le> unat (fst b)"
    and vs: "\<forall>c\<in>set vs. fin b \<le> unat (fst c)" using in_use_split [OF h b] by metis
  let ?M = "unat (brk st)"
  have M: "?M < 2 ^ 32" by simp
  have r: "ring (us @ p # vs) base st" and bl: "blocks ?M (us @ p # vs)" and b0: "base \<noteq> 0"
    using h unfolding heap_def L by blast+
  have bb: "snd b \<noteq> 0" "8 dvd unat (fst b)" "unat base < unat (fst b)" "fin b \<le> ?M" "siz st (fst b) = snd b"
    using b by (auto simp: in_use_def)
  have "free_loop fuel (fst b) (freep st) st = Ret (fst p)"
  proof -
    obtain k where k: "k < length (us @ p # vs)" "freep st = fst ((us @ p # vs) ! k)"
      using h unfolding heap_def L by (auto simp only: image_iff in_set_conv_nth)
    have hd: "fst ((us @ p # vs) ! 0) = base" unfolding L [symmetric] by simp
    have len: "length (us @ p # vs) = Suc (length bs)" unfolding L [symmetric] by simp
    have up: "unat (fst b) < unat (fst ((us @ p # vs) ! i))" if "length us < i" "i < length (us @ p # vs)" for i
    proof -
      have "(us @ p # vs) ! i \<in> set vs" using that by (simp add: nth_append nth_Cons')
      then show ?thesis using vs fin_gt [OF bb(1)] by fastforce
    qed
    have "(if k \<le> length us then length us - k else length (us @ p # vs) - k + length us) < fuel"
      using k(1) fuel len by auto
    moreover have "links (nxt st) (map fst (us @ p # vs)) (fst ((us @ p # vs) ! 0))" "spaced (us @ p # vs)"
      using r bl unfolding hd by (simp_all add: ring_def blocks_def)
    ultimately have "free_loop fuel (fst b) (fst ((us @ p # vs) ! k)) st = Ret (fst ((us @ p # vs) ! length us))"
      using up k(1) p by (intro free_loop_finds [of "nxt st"]) auto
    then show ?thesis unfolding k(2) by simp
  qed
  moreover define st' where "st' = (link_prev (fst b) (fst p) (link_next (fst b) (fst p) st))\<lparr>freep := fst p\<rparr>"
  ultimately have fr: "free fuel (fst b + unit_size) st = Ret st'" by (simp add: free_def Let_def)
  note pr = bl [unfolded blocks_append]
  have nx: "nxt st (fst p) = hd (map fst vs @ [base])" "ring (us @ [p]) (hd (map fst vs @ [base])) st" "ring (p # vs) base st"
    using r by (auto simp: ring_append ring_Cons)
  have fst_b: "fst b \<notin> fst ` set (us @ p # vs)"
  proof
    assume "fst b \<in> fst ` set (us @ p # vs)"
    then obtain c where c: "c \<in> set (us @ p # vs)" "fst c = fst b" by force
    have "c \<notin> set vs" using vs fin_gt [OF bb(1)] c(2) by fastforce
    then have "c = p \<or> (c \<in> set us \<and> fin c < unat (fst p))" using c(1) pr by auto
    then show False using p c(2) by (auto simp: fin_def)
  qed
  have c1: "hdr_add (fst b) (snd b) = nxt st (fst p) \<longleftrightarrow> vs \<noteq> [] \<and> fin b = unat (fst (hd vs))"
  proof -
    have "unat (hdr_add (fst b) (snd b)) = fin b" using unat_hdr_add [of "fst b" "snd b"] le_less_trans [OF bb(4) M] by simp
    then show ?thesis using nx(1) bb(3) fin_gt [OF bb(1)] by (cases vs) (auto simp: uint_eq_iff_unat)
  qed
  have c2: "hdr_add (fst p) (snd p) = fst b \<longleftrightarrow> fin p = unat (fst b)"
    using unat_hdr_add [of "fst p" "snd p"] le_less_trans [OF p(2) unat_uint_less] by (simp add: uint_eq_iff_unat)
  let ?st1 = "link_next (fst b) (fst p) st" and ?bs = "join_next b vs"
  note l1 = link_next_ring [OF nx(3) _ bb(5) c1]
  have j1: "from_addr ?M (fst b) ?bs \<and> free_area ?bs = area b \<union> free_area vs \<and> snd b \<le> snd (hd ?bs)"
    using pr bb vs by (intro join_next_blocks) auto
  then obtain b' bs' where b': "?bs = b' # bs'" "fst b' = fst b" by (cases ?bs) (auto simp: from_addr_def)
  let ?J = "join_prev us p ?bs"
  have j2: "blocks ?M ?J \<and> hd ?J = hd (us @ p # vs) \<and> free_area ?J = free_area (us @ [p]) \<union> free_area ?bs
      \<and> (\<exists>c\<in>set ?J. snd (hd ?bs) \<le> snd c) \<and> fst p \<in> fst ` set ?J"
    using j1 p by (intro join_prev_blocks [OF bl M]) auto
  have d: "distinct (map fst (us @ p # b' # bs'))"
  proof -
    have "distinct (map fst (us @ p # vs))" by (rule heap_distinct [OF bl])
    moreover have "fst ` set bs' \<subseteq> fst ` set vs" using b' by (cases vs) (auto simp: join_next_def split: if_splits)
    moreover have "distinct (map fst (b' # bs'))" using j1 b'(1) by (intro heap_distinct') (simp add: from_addr_def)
    ultimately show ?thesis
      using distinct_join [of "map fst us" "fst p" "map fst vs" "map fst bs'" "fst b'"] fst_b b'(2) by (simp add: image_Un)
  qed
  have keep: "siz ?st1 x = siz st x" "nxt ?st1 x = nxt st x" if "x \<noteq> fst b" for x using l1(2) [OF _ that] fst_b by auto
  have "ring (us @ [p]) (hd (map fst vs @ [base])) ?st1"
  proof (rule ring_frame [OF nx(2)])
    fix x assume "x \<in> fst ` set (us @ [p])"
    then have "x \<noteq> fst b" using fst_b by auto
    then show "nxt ?st1 x = nxt st x \<and> siz ?st1 x = siz st x" using keep by simp
  qed
  moreover have "ring (b' # bs') base ?st1" using l1(1) fst_b by (simp add: b'(1) image_Un)
  ultimately have "ring ?J base (link_prev (fst b) (fst p) ?st1)"
    using link_prev_ring [of us p _ ?st1 b' bs' base] d c2 by (simp add: b')
  then have rj: "ring ?J base st'" by (simp add: st'_def)
  have "hd ?J = (base, 0)" using j2 arg_cong [OF L, of hd] by simp
  moreover have "?J \<noteq> []" using j2 by (simp add: blocks_def)
  ultimately obtain js where J: "?J = (base, 0) # js" by (cases ?J) auto
  have st': "brk st' = brk st" "limit st' = limit st" "freep st' = fst p" by (simp_all add: st'_def link_prev_def link_next_def)
  have "blocks ?M ?J" "fst p \<in> fst ` set ?J" using j2 by blast+
  then have "heap base js st'" using h rj unfolding heap_def st' J by blast
  moreover have "free_area js = free_area bs \<union> area b"
  proof -
    have z: "free_area ((base, 0) # zs) = free_area zs" for zs by (simp add: free_area_def area_def fin_def)
    have "free_area js = free_area (us @ [p]) \<union> area b \<union> free_area vs" using j1 j2 z [of js] by (simp add: J Un_assoc)
    also have "\<dots> = free_area (us @ p # vs) \<union> area b" by (auto simp: free_area_def)
    also have "free_area (us @ p # vs) = free_area bs" unfolding L [symmetric] by (rule z)
    finally show ?thesis .
  qed
  moreover have "\<exists>c\<in>set js. snd b \<le> snd c"
  proof -
    obtain c where c: "c \<in> set ?J" "snd b \<le> snd c" using j1 j2 by (meson order_trans)
    then have "c \<noteq> (base, 0)" using bb(1) by auto
    then show ?thesis using c unfolding J by auto
  qed
  moreover have "length js \<le> Suc (length bs)"
  proof -
    have "length ?J \<le> Suc (length us + length ?bs)" "length ?bs \<le> Suc (length vs)"
      by (auto simp: join_prev_def join_next_def split: list.split)
    then show ?thesis using arg_cong [OF J, of length] arg_cong [OF L, of length] by simp
  qed
  ultimately show ?thesis using fr st' by blast
qed

section \<open>Taking a block\<close>

lemma area_apart: "fin c \<le> unat (fst b) \<or> fin b \<le> unat (fst c) \<Longrightarrow> area b \<inter> area c = {}"
  by (auto simp: area_def)

lemma in_use_apart:
  assumes "in_use base bs st b"
  shows "area b \<inter> free_area bs = {}"
proof -
  have "area b \<inter> area c = {}" if "c \<in> set bs" for c using assms that by (intro area_apart) (auto simp: in_use_def)
  then show ?thesis by (auto simp: free_area_def)
qed

text \<open>What \<open>malloc\<close> and \<open>carve\<close> promise for a block at \<open>r\<close> when \<open>F\<close> is the free memory.\<close>

definition handed_out :: "uint \<Rightarrow> uint \<Rightarrow> nat set \<Rightarrow> uint \<Rightarrow> ust \<Rightarrow> bool" where
  "handed_out base nu F ap st \<longleftrightarrow>
     (\<exists>r bs. ap = hdr_add r 1 \<and> heap base bs st \<and> in_use base bs st (r, nu) \<and> free_area bs \<union> area (r, nu) = F)"

lemma carve_whole:
  assumes h: "heap base bs st" and L: "(base, 0) # bs = us @ pv # b # vs"
  shows "handed_out base (snd b) (free_area bs) (fst (carve (snd b) (fst pv) (fst b) st)) (snd (carve (snd b) (fst pv) (fst b) st))"
proof -
  have r: "ring (us @ pv # b # vs) base st" and bl: "blocks (unat (brk st)) (us @ pv # b # vs)" using h unfolding heap_def L by blast+
  have d: "distinct (map fst (us @ pv # b # vs))" by (rule heap_distinct [OF bl])
  define st' where "st' = st\<lparr>nxt := (nxt st)(fst pv := nxt st (fst b)), freep := fst pv\<rparr>"
  have c: "carve (snd b) (fst pv) (fst b) st = (hdr_add (fst b) 1, st')"
    using r by (simp add: carve_def ring_append ring_Cons st'_def)
  have "fst pv \<notin> fst ` set us" "fst pv \<notin> fst ` set vs" using d by auto
  then have r': "ring (us @ pv # vs) base st'"
    using r by (auto simp: st'_def ring_append ring_Cons free_ring_upd)
  have bl': "blocks (unat (brk st)) (us @ pv # vs)" using bl unfolding blocks_append by (auto simp: spaced_def)
  obtain js where js: "us @ pv # vs = (base, 0) # js" using L by (cases us) auto
  have "heap base js st'" using h r' bl' unfolding heap_def js [symmetric] by (simp add: st'_def)
  moreover have bs: "set ((base, 0) # bs) = insert b (set ((base, 0) # js))" unfolding L js [symmetric] by auto
  moreover have bb: "snd b \<noteq> 0" using bl unfolding blocks_append by simp
  moreover have "in_use base js st' b"
  proof -
    have "fin c \<le> unat (fst b) \<or> fin b \<le> unat (fst c)" if "c \<in> set (us @ pv # vs)" for c
      using that bl unfolding blocks_append by (auto simp: spaced_def)
    moreover have "fin (base, 0) < unat (fst b)"
    proof -
      have "(base, 0) \<in> set (us @ [pv])" using L by (cases us) auto
      then show ?thesis using bl unfolding blocks_append by auto
    qed
    ultimately show ?thesis using bl bb r unfolding in_use_def blocks_append
      by (auto simp: st'_def js fin_def ring_append ring_Cons)
  qed
  moreover have "free_area js \<union> area b = free_area bs"
  proof -
    have "free_area ((base, 0) # bs) = area b \<union> free_area ((base, 0) # js)" unfolding free_area_def bs by simp
    then show ?thesis by (auto simp: free_area_def area_def fin_def)
  qed
  ultimately show ?thesis unfolding handed_out_def c by (metis fst_conv snd_conv prod.collapse)
qed

lemma carve_part:
  assumes h: "heap base bs st" and L: "(base, 0) # bs = us @ pv # b # vs" and nu: "nu \<noteq> 0" "nu < snd b"
  shows "handed_out base nu (free_area bs) (fst (carve nu (fst pv) (fst b) st)) (snd (carve nu (fst pv) (fst b) st))"
proof -
  have rg: "ring (us @ pv # b # vs) base st" and bl: "blocks (unat (brk st)) (us @ pv # b # vs)" using h unfolding heap_def L by blast+
  note pr = bl [unfolded blocks_append]
  define b1 where "b1 = (fst b, snd b - nu)"
  define r where "r = hdr_add (fst b) (snd b - nu)"
  have u: "unat (snd b - nu) = unat (snd b) - unat nu" "unat nu < unat (snd b)" "0 < unat nu"
    using nu by (simp_all add: unat_sub word_less_nat_alt word_le_nat_alt unat_gt_0)
  have fb: "fin b \<le> unat (brk st)" using pr by simp
  have f1: "fin b1 < fin b" "unat (fst b) < fin b1" using u by (auto simp: fin_def b1_def)
  have "fin b1 < 2 ^ 32" using f1(1) le_less_trans [OF fb unat_uint_less] by simp
  then have ur: "unat r = fin b1" unfolding r_def b1_def by (rule unat_hdr_add)
  have fr: "fin (r, nu) = fin b" using ur u by (simp add: fin_def b1_def)
  define st' where "st' = st\<lparr>siz := (siz st)(fst b := snd b - nu, r := nu), freep := fst pv\<rparr>"
  have sb: "siz st (fst b) = snd b" using rg by (simp add: ring_append ring_Cons)
  have rb: "r \<noteq> fst b" using ur f1(2) by auto
  have c: "carve nu (fst pv) (fst b) st = (hdr_add r 1, st')"
    using nu(2) sb by (auto simp: carve_def st'_def r_def Let_def)
  have order: "fin c < unat (fst b)" if "c \<in> set (us @ [pv])" for c using pr that by auto
  have order': "fin b < unat (fst c)" if "c \<in> set vs" for c using pr that by (auto simp: spaced_def)
  have le: "unat (fst c) \<le> fin c" for c by (simp add: fin_def)
  have apart: "fst c \<noteq> r \<and> fst c \<noteq> fst b" if m: "c \<in> set (us @ pv # vs)" for c
  proof -
    consider "c \<in> set (us @ [pv])" | "c \<in> set vs" using m by auto
    then show ?thesis using order [of c] order' [of c] le [of c] f1 ur by cases auto
  qed
  have r': "ring (us @ pv # b1 # vs) base st'"
  proof -
    have keep: "ring L z st'" if g: "ring L z st" "set L \<subseteq> set (us @ pv # vs)" for L z
    proof (rule ring_frame [OF g(1)])
      fix x assume "x \<in> fst ` set L"
      then obtain c where "c \<in> set (us @ pv # vs)" "x = fst c" using g(2) by blast
      then show "nxt st' x = nxt st x \<and> siz st' x = siz st x" using apart [of c] by (simp add: st'_def)
    qed
    have "ring us (fst pv) st'" "ring vs base st'" using rg by (auto intro!: keep simp: ring_append ring_Cons)
    then show ?thesis using rg apart [of pv] rb by (simp add: ring_append ring_Cons) (simp add: st'_def b1_def)
  qed
  have bl': "blocks (unat (brk st)) (us @ pv # b1 # vs)"
    using pr f1 u(2) unfolding blocks_append by (auto simp: spaced_def b1_def)
  obtain js where js: "us @ pv # b1 # vs = (base, 0) # js" using L by (cases us) auto
  have "heap base js st'" using h r' bl' unfolding heap_def js [symmetric] by (simp add: st'_def)
  moreover have "in_use base js st' (r, nu)"
  proof -
    have "fin c \<le> unat r \<or> fin b \<le> unat (fst c)" if "c \<in> set (us @ pv # b1 # vs)" for c
      using that order [of c] order' [of c] ur f1(2) by auto
    moreover have "fin (base, 0) < unat (fst b)" using L by (intro order) (cases us; auto)
    moreover have "8 dvd unat r" using pr by (simp add: ur fin_def b1_def)
    ultimately show ?thesis unfolding in_use_def fr using nu(1) fb f1 ur rb
      by (auto simp: st'_def js fin_def)
  qed
  moreover have "free_area js \<union> area (r, nu) = free_area bs"
  proof -
    have "area b1 \<union> area (r, nu) = area b" using f1 by (auto simp: area_def fr ur) (simp_all add: b1_def)
    moreover have "free_area ((base, 0) # js) = free_area us \<union> area pv \<union> area b1 \<union> free_area vs"
      unfolding js [symmetric] by (auto simp: free_area_def)
    moreover have "free_area ((base, 0) # bs) = free_area us \<union> area pv \<union> area b \<union> free_area vs"
      unfolding L by (auto simp: free_area_def)
    ultimately show ?thesis by (auto simp: free_area_def area_def fin_def)
  qed
  ultimately show ?thesis unfolding handed_out_def c by auto
qed

lemma carve_spec:
  assumes "heap base bs st" and "(base, 0) # bs = us @ pv # b # vs" and "nu \<noteq> 0" and "nu \<le> snd b"
  shows "handed_out base nu (free_area bs) (fst (carve nu (fst pv) (fst b) st)) (snd (carve nu (fst pv) (fst b) st))"
  using carve_whole [OF assms(1,2)] carve_part [OF assms(1,2,3)] assms(4) by (cases "nu = snd b") auto

section \<open>The search\<close>

lemma ring_next:
  assumes "ring L base st" and "L ! 0 = (base, s)" and "i < length L"
  shows "nxt st (fst (L ! i)) = fst (L ! (Suc i mod length L))"
proof -
  have "nxt st (map fst L ! i) = (if Suc i < length (map fst L) then map fst L ! Suc i else base)"
    using assms(1,3) by (intro links_nth) (simp_all add: ring_def)
  then show ?thesis using assms(2,3) by (cases "Suc i < length L") (auto simp: mod_Suc)
qed

lemma carve_frame: "brk (snd (carve nu pv p st)) = brk st" "limit (snd (carve nu pv p st)) = limit st"
  by (simp_all add: carve_def Let_def)

lemma mod_shift:
  fixes n :: nat
  assumes "(a + d) mod n = a mod n" and "d < n"
  shows "d = 0"
proof -
  have "n dvd d" using assms(1) mod_eq_dvd_iff_nat [of a "a + d" n] by simp
  then show ?thesis using assms(2) by (auto dest: dvd_imp_le)
qed

lemma all_le_Suc: "(\<forall>i\<le>Suc d. P i) \<longleftrightarrow> P 0 \<and> (\<forall>i\<le>d. P (Suc i))"
  by (metis Suc_le_mono not0_implies_Suc zero_le)

text \<open>One round of the loop.\<close>

lemma malloc_step:
  assumes h: "heap base bs st" and L: "L = (base, 0) # bs" and nu: "nu \<noteq> 0" and r: "freep st = fst (L ! r)" "r < length L"
    and j: "j < length L"
  shows "malloc_loop (Suc f) nu (fst (L ! j)) (fst (L ! (Suc j mod length L))) st =
      (if nu \<le> snd (L ! (Suc j mod length L)) then Ret (carve nu (fst (L ! j)) (fst (L ! (Suc j mod length L))) st)
       else if Suc j mod length L = r then
         andthen (morecore f nu st) (\<lambda>(p, st). if p = 0 then Ret (0, st) else malloc_loop f nu p (nxt st p) st)
       else malloc_loop f nu (fst (L ! (Suc j mod length L))) (fst (L ! (Suc (Suc j mod length L) mod length L))) st)
    \<and> (nu \<le> snd (L ! (Suc j mod length L)) \<longrightarrow>
        (\<exists>x. carve nu (fst (L ! j)) (fst (L ! (Suc j mod length L))) st = x
          \<and> handed_out base nu (free_area bs) (fst x) (snd x) \<and> brk (snd x) = brk st))"
proof -
  let ?n = "length L"
  let ?k = "Suc j mod ?n"
  have k: "?k < ?n" by (rule mod_less_divisor) (simp add: L)
  have rg: "ring L base st" and bl: "blocks (unat (brk st)) L" using h unfolding heap_def L by blast+
  have "siz st (fst (L ! ?k)) = snd (L ! ?k)" using rg k by (simp add: ring_def)
  moreover have "fst (L ! ?k) = fst (L ! r) \<longleftrightarrow> ?k = r"
    using nth_eq_iff_index_eq [OF heap_distinct [OF bl], of ?k r] k r(2) by simp
  moreover have "nxt st (fst (L ! ?k)) = fst (L ! (Suc ?k mod ?n))" by (rule ring_next [OF rg _ k]) (simp add: L)
  moreover have "handed_out base nu (free_area bs) (fst x) (snd x) \<and> brk (snd x) = brk st"
    if x: "nu \<le> snd (L ! ?k)" "x = carve nu (fst (L ! j)) (fst (L ! ?k)) st" for x
  proof -
    have "snd (L ! 0) = 0" by (simp add: L)
    then have "?k \<noteq> 0" using x(1) nu by (metis word_le_0_iff)
    then have sj: "Suc j < ?n" "?k = Suc j" using j by (auto simp: mod_Suc split: if_splits)
    then have "L = take j L @ L ! j # L ! Suc j # drop (Suc (Suc j)) L"
      using j by (metis Cons_nth_drop_Suc append_take_drop_id)
    then have "handed_out base nu (free_area bs) (fst x) (snd x)"
      unfolding x(2) sj(2) using x(1) unfolding sj(2) by (intro carve_spec [OF h _ nu]) (auto simp: L)
    then show ?thesis by (simp add: x(2) carve_frame)
  qed
  ultimately show ?thesis by (auto simp: r(1))
qed

text \<open>
  The loop from a node on: it hands out a block, or it passes \<open>d\<close> nodes without finding one that is
  large enough, comes to \<open>freep\<close> and asks for more memory.
\<close>

lemma malloc_search:
  assumes h: "heap base bs st" and L: "L = (base, 0) # bs" and nu: "nu \<noteq> 0" and r: "freep st = fst (L ! r)" "r < length L"
    and "j < length L" and "(Suc j + d) mod length L = r" and "d < length L" and "d < fuel"
  shows "(\<exists>x. malloc_loop fuel nu (fst (L ! j)) (fst (L ! (Suc j mod length L))) st = Ret x
        \<and> handed_out base nu (free_area bs) (fst x) (snd x) \<and> brk (snd x) = brk st)
    \<or> ((\<forall>i\<le>d. snd (L ! ((Suc j + i) mod length L)) < nu)
        \<and> malloc_loop fuel nu (fst (L ! j)) (fst (L ! (Suc j mod length L))) st =
          andthen (morecore (fuel - Suc d) nu st) (\<lambda>(p, st).
            if p = 0 then Ret (0, st) else malloc_loop (fuel - Suc d) nu p (nxt st p) st))"
  using assms(6-9)
proof (induction d arbitrary: j fuel)
  case 0
  obtain f where f: "fuel = Suc f" using 0(4) by (cases fuel) auto
  show ?case unfolding f diff_Suc_Suc minus_nat.diff_0 using malloc_step [OF h L nu r 0(1), of f] 0(1-3)
    by (cases "nu \<le> snd (L ! (Suc j mod length L))") (simp_all add: not_le del: malloc_loop.simps)
next
  case (Suc d)
  obtain f where f: "fuel = Suc f" using Suc.prems(4) by (cases fuel) auto
  let ?n = "length L"
  let ?k = "Suc j mod ?n"
  have n: "0 < ?n" by (simp add: L)
  have k: "?k < ?n" using n by (rule mod_less_divisor)
  have "?k \<noteq> r" using mod_shift [of "Suc j" "Suc d" ?n] Suc.prems(2,3) by auto
  moreover have "(Suc ?k + i) mod ?n = (Suc j + Suc i) mod ?n" for i
    using mod_add_left_eq [of "Suc j" ?n "Suc i"] by simp
  moreover note Suc.IH [OF k, of f] malloc_step [OF h L nu r Suc.prems(1), of f]
  ultimately show ?case unfolding f diff_Suc_Suc using Suc.prems(2,3) Suc.prems(4) [unfolded f]
    by (cases "nu \<le> snd (L ! ?k)") (simp_all add: all_le_Suc not_le del: malloc_loop.simps)
qed

lemma freep_node:
  assumes "heap base bs st"
  obtains r where "r < Suc (length bs)" "freep st = fst (((base, 0) # bs) ! r)"
    "nxt st (freep st) = fst (((base, 0) # bs) ! (Suc r mod Suc (length bs)))"
proof -
  let ?L = "(base, 0) # bs"
  have "freep st \<in> fst ` set ?L" and rg: "ring ?L base st" using assms unfolding heap_def by blast+
  then obtain r where r: "r < length ?L" "freep st = fst (?L ! r)" by (auto simp only: image_iff in_set_conv_nth)
  then have "nxt st (freep st) = fst (?L ! (Suc r mod length ?L))" using ring_next [OF rg _ r(1)] by simp
  then show thesis using that r by simp
qed

lemma malloc_loop_fits:
  assumes h: "heap base bs st" and nu: "nu \<noteq> 0" and c: "c \<in> set bs" "nu \<le> snd c" and fuel: "length bs < fuel"
  shows "\<exists>x. malloc_loop fuel nu (freep st) (nxt st (freep st)) st = Ret x
    \<and> handed_out base nu (free_area bs) (fst x) (snd x) \<and> brk (snd x) = brk st"
proof -
  let ?L = "(base, 0) # bs"
  let ?n = "length ?L"
  obtain r where r: "r < ?n" "freep st = fst (?L ! r)" "nxt st (freep st) = fst (?L ! (Suc r mod ?n))"
    using freep_node [OF h] by auto
  obtain k where k: "k < ?n" "?L ! k = c" using c(1) by (metis in_set_conv_nth list.set_intros(2))
  define i where "i = (k + (?n - Suc r)) mod ?n"
  have i: "i \<le> length bs" using mod_less_divisor [of ?n "k + (?n - Suc r)"] by (simp add: i_def)
  have "(Suc r + i) mod ?n = (k + ?n) mod ?n"
    unfolding i_def mod_add_right_eq using r(1) by (simp add: algebra_simps)
  then have "(Suc r + i) mod ?n = k" unfolding mod_add_self2 using k(1) by (simp only: mod_less)
  then have no: "\<not> (\<forall>i\<le>length bs. snd (?L ! ((Suc r + i) mod ?n)) < nu)" using i k(2) c(2) by (metis not_le)
  have "(Suc r + length bs) mod ?n = r" using r(1) by (simp add: mod_if)
  then show ?thesis using malloc_search [OF h refl nu r(2,1,1), of "length bs" fuel] no fuel unfolding r(3) unfolding r(2) by auto
qed

lemma malloc_loop_full:
  assumes h: "heap base bs st" and nu: "nu \<noteq> 0" and fuel: "length bs < fuel"
  shows "(\<exists>x. malloc_loop fuel nu (freep st) (nxt st (freep st)) st = Ret x
        \<and> handed_out base nu (free_area bs) (fst x) (snd x) \<and> brk (snd x) = brk st)
    \<or> malloc_loop fuel nu (freep st) (nxt st (freep st)) st =
        andthen (morecore (fuel - Suc (length bs)) nu st) (\<lambda>(p, st).
          if p = 0 then Ret (0, st) else malloc_loop (fuel - Suc (length bs)) nu p (nxt st p) st)"
proof -
  let ?L = "(base, 0) # bs"
  obtain r where r: "r < length ?L" "freep st = fst (?L ! r)" "nxt st (freep st) = fst (?L ! (Suc r mod length ?L))"
    using freep_node [OF h] by auto
  have "(Suc r + length bs) mod length ?L = r" using r(1) by (simp add: mod_if)
  then show ?thesis using malloc_search [OF h refl nu r(2,1,1), of "length bs" fuel] fuel unfolding r(3) unfolding r(2) by auto
qed

section \<open>More memory\<close>

lemma sint_small:
  assumes "unat (w :: uint) < 2 ^ 31"
  shows "sint w = int (unat w)"
proof -
  have u: "uint w = int (unat w)" by simp
  have "int (unat w) < int (2 ^ 31)" using assms by (simp only: of_nat_less_iff)
  then have "uint w < 2 ^ 31" by simp
  moreover have "- (2 ^ 31) \<le> uint w" by (rule order_trans [OF _ uint_ge_0]) simp
  ultimately have "signed_take_bit 31 (uint w) = uint w" by (intro signed_take_bit_int_eq_self)
  then show ?thesis by (simp add: sint_uint)
qed

definition grow :: "uint \<Rightarrow> nat" where
  "grow nu = 8 * max 4096 (unat nu)"

lemma freep_not_null:
  assumes "heap base bs st"
  shows "freep st \<noteq> 0"
proof -
  have b: "base \<noteq> 0" "blocks (unat (brk st)) ([] @ (base, 0) # bs)" "freep st \<in> fst ` set ((base, 0) # bs)"
    using assms unfolding heap_def by auto
  have "unat base < unat (fst c)" if "c \<in> set bs" for c using b(2) that unfolding blocks_append by (simp add: fin_def)
  then show ?thesis using b(1,3) by fastforce
qed

lemma morecore_spec:
  assumes h: "heap base bs st" and nu: "unat nu \<le> 2 ^ 27" and fuel: "length bs + 1 < fuel"
  shows "if unat (brk st) + grow nu \<le> limit st
    then \<exists>st' bs'. morecore fuel nu st = Ret (freep st', st') \<and> heap base bs' st' \<and> unat (brk st') = unat (brk st) + grow nu
      \<and> free_area bs' = free_area bs \<union> {unat (brk st)..<unat (brk st')} \<and> (\<exists>c\<in>set bs'. nu \<le> snd c) \<and> length bs' \<le> Suc (length bs)
    else morecore fuel nu st = Ret (0, st)"
proof -
  define m where "m = (if nu < 4096 then 4096 else nu)"
  have um: "unat m = max 4096 (unat nu)" by (auto simp: m_def word_less_nat_alt max_def)
  then have g: "unat (m * unit_size) = grow nu" using nu
    by (subst unat_mult_lem [THEN iffD1]) (auto simp: grow_def unit_size_def max_def)
  have gb: "grow nu < 2 ^ 31" "0 < grow nu" using nu by (auto simp: grow_def max_def)
  have sg: "0 < sint (m * unit_size)" using sint_small [of "m * unit_size"] g gb by simp
  have lim: "limit st \<le> 2 ^ 31" "unat base < unat (brk st)" using h by (auto simp: heap_def)
  show ?thesis
  proof (cases "unat (brk st) + grow nu \<le> limit st")
    case False
    then show ?thesis using sg g by (simp add: morecore_def sbrk_def m_def [symmetric])
  next
    case True
    define st1 where "st1 = st\<lparr>brk := brk st + m * unit_size, siz := (siz st)(brk st := m)\<rparr>"
    have b1: "unat (brk st1) = unat (brk st) + grow nu"
      using True lim(1) g unfolding st1_def by (simp add: unat_word_ariths)
    have bl: "blocks (unat (brk st)) ([] @ (base, 0) # bs)" and rg: "ring ((base, 0) # bs) base st" using h by (auto simp: heap_def)
    have below: "unat (fst c) < unat (brk st)" if "c \<in> set ((base, 0) # bs)" for c
      using that bl lim(2) fin_gt [of c] unfolding blocks_append by fastforce
    then have nb: "brk st \<notin> fst ` set ((base, 0) # bs)" by fastforce
    have "heap base bs st1"
    proof -
      have "8 dvd unat (brk st1)" using h by (simp add: b1 grow_def heap_def)
      moreover have "ring ((base, 0) # bs) base st1" by (rule ring_frame [OF rg]) (use nb in \<open>auto simp: st1_def\<close>)
      moreover have "blocks (unat (brk st1)) ([] @ (base, 0) # bs)" using bl b1 unfolding blocks_append by fastforce
      ultimately show ?thesis using h True b1 unfolding heap_def by (simp add: st1_def)
    qed
    moreover have "in_use base bs st1 (brk st, m)"
      using h um b1 bl unfolding in_use_def heap_def blocks_append
      by (auto simp: st1_def fin_def grow_def simp flip: unat_eq_zero)
    ultimately obtain st' bs' where f: "free fuel (fst (brk st, m) + unit_size) st1 = Ret st'" "heap base bs' st'" "brk st' = brk st1"
      "free_area bs' = free_area bs \<union> area (brk st, m)" "\<exists>c\<in>set bs'. snd (brk st, m) \<le> snd c" "length bs' \<le> Suc (length bs)"
      using free_spec [OF _ _ fuel] by blast
    have "unat (brk st + 1) = unat (brk st) + 1" using lim(1) True by (simp add: unat_word_ariths)
    then have "brk st \<noteq> - 1" by auto
    then have "morecore fuel nu st = Ret (freep st', st')"
      using True f(1) sg g lim(1) by (simp add: morecore_def sbrk_def m_def [symmetric] hdr_add_def st1_def)
    moreover have "area (brk st, m) = {unat (brk st)..<unat (brk st')}" using f(3) b1 um by (simp add: area_def fin_def grow_def)
    moreover have "nu \<le> m" by (simp add: m_def less_imp_le)
    ultimately show ?thesis using f b1 True by (auto intro: order_trans)
  qed
qed

section \<open>Correctness of the allocator\<close>

text \<open>The allocator before its first use, when the free list has not been set up, or later.\<close>

definition allocator :: "uint \<Rightarrow> block list \<Rightarrow> ust \<Rightarrow> bool" where
  "allocator base bs st \<longleftrightarrow> heap base bs st \<or>
     freep st = 0 \<and> bs = [] \<and> base \<noteq> 0 \<and> unat base < unat (brk st) \<and> unat (brk st) \<le> limit st \<and> limit st \<le> 2 ^ 31
       \<and> 8 dvd unat base \<and> 8 dvd unat (brk st)"

lemma unat_units:
  assumes "unat nbytes \<le> 2 ^ 29"
  shows "unat (units nbytes) = (unat nbytes + 7) div 8 + 1"
proof -
  have "unat (nbytes + 7) = unat nbytes + 7" using assms by (simp add: unat_word_ariths)
  moreover have e: "nbytes + unit_size - 1 = nbytes + 7" by (simp add: unit_size_def)
  ultimately have d: "unat ((nbytes + 7) div unit_size) = (unat nbytes + 7) div 8" unfolding unat_div by (simp add: unit_size_def)
  have "(unat nbytes + 7) div 8 + 1 < 2 ^ 32" using assms by simp
  moreover have "unat (x + 1) = unat x + 1" if "unat x + 1 < 2 ^ 32" for x :: uint using that by (simp add: unat_word_ariths)
  ultimately show ?thesis unfolding units_def e d [symmetric] by blast
qed

lemma handed_out_not_null:
  assumes "handed_out base nu F p st"
  shows "p \<noteq> 0"
proof -
  obtain r bs where r: "p = hdr_add r 1" "in_use base bs st (r, nu)" using assms by (auto simp: handed_out_def)
  have "0 < unat nu" using r(2) by (auto simp: in_use_def unat_gt_0)
  then have "fin (r, 1) \<le> fin (r, nu)" by (simp add: fin_def)
  moreover have "fin (r, nu) < 2 ^ 32" using r(2) le_less_trans [OF _ unat_uint_less] by (auto simp: in_use_def)
  ultimately have "unat p = fin (r, 1)" unfolding r(1) by (intro unat_hdr_add) simp
  then show ?thesis by (auto simp: fin_def)
qed

lemma malloc_init:
  assumes "allocator base bs st"
  defines "st0 \<equiv> (if freep st = 0 then st\<lparr>nxt := (nxt st)(base := base), freep := base, siz := (siz st)(base := 0)\<rparr> else st)"
  shows "heap base bs st0" "brk st0 = brk st" "limit st0 = limit st"
    and "malloc fuel base nbytes st = malloc_loop fuel (units nbytes) (freep st0) (nxt st0 (freep st0)) st0"
proof -
  have "heap base bs st \<Longrightarrow> freep st \<noteq> 0" by (rule freep_not_null)
  then show "heap base bs st0"
    using assms(1) unfolding allocator_def st0_def by (auto simp: heap_def ring_Cons blocks_def spaced_def fin_def)
qed (simp_all add: st0_def malloc_def Let_def)

lemma malloc_spec:
  assumes a: "allocator base bs st" and n: "unat nbytes \<le> 2 ^ 29" and fuel: "2 * length bs + 4 \<le> fuel"
  shows "runs (malloc fuel base nbytes st) (\<lambda>(p, st').
    if p = 0 then limit st < unat (brk st) + grow (units nbytes) \<and> heap base bs st'
    else handed_out base (units nbytes) (free_area bs \<union> {unat (brk st)..<unat (brk st')}) p st')"
proof -
  obtain st0 where h: "heap base bs st0" and b: "brk st0 = brk st" "limit st0 = limit st"
    and m: "malloc fuel base nbytes st = malloc_loop fuel (units nbytes) (freep st0) (nxt st0 (freep st0)) st0"
    using malloc_init [OF a] by blast
  let ?nu = "units nbytes" and ?f = "fuel - Suc (length bs)"
  have u: "unat ?nu \<le> 2 ^ 27" "?nu \<noteq> 0" using unat_units [OF n] n by (auto simp flip: unat_eq_zero)
  have f: "length bs + 1 < ?f" using fuel by simp
  consider x where "malloc fuel base nbytes st = Ret x" "handed_out base ?nu (free_area bs) (fst x) (snd x)" "brk (snd x) = brk st"
    | "malloc fuel base nbytes st = andthen (morecore ?f ?nu st0) (\<lambda>(p, st).
          if p = 0 then Ret (0, st) else malloc_loop ?f ?nu p (nxt st p) st)"
    using malloc_loop_full [OF h u(2), of fuel] fuel unfolding m b(1) by auto
  then show ?thesis
  proof cases
    case 1
    then show ?thesis using handed_out_not_null [OF 1(2)] by (auto split: prod.splits)
  next
    case 2
    show ?thesis
    proof (cases "unat (brk st) + grow ?nu \<le> limit st")
      case False
      then show ?thesis using morecore_spec [OF h u(1) f] h unfolding 2 b by simp
    next
      case True
      then obtain st' bs' where mc: "morecore ?f ?nu st0 = Ret (freep st', st')" "heap base bs' st'"
        "free_area bs' = free_area bs \<union> {unat (brk st)..<unat (brk st')}" "\<exists>c\<in>set bs'. ?nu \<le> snd c" "length bs' \<le> Suc (length bs)"
        using morecore_spec [OF h u(1) f] unfolding b by auto
      have "length bs' < ?f" using mc(5) f by linarith
      then obtain x where x: "malloc_loop ?f ?nu (freep st') (nxt st' (freep st')) st' = Ret x"
        "handed_out base ?nu (free_area bs') (fst x) (snd x)" "brk (snd x) = brk st'"
        using malloc_loop_fits [OF mc(2) u(2) _ _] mc(4) by blast
      then have "malloc fuel base nbytes st = Ret x" unfolding 2 mc(1) using freep_not_null [OF mc(2)]
        by (simp del: malloc_loop.simps)
      then show ?thesis using handed_out_not_null [OF x(2)] x(2,3) mc(3) by (cases x) simp
    qed
  qed
qed

lemma handed_outD:
  assumes "handed_out base nu F p st"
  shows "\<exists>r bs. p = r + unit_size \<and> 8 dvd unat r \<and> heap base bs st \<and> area (r, nu) \<inter> free_area bs = {} \<and> area (r, nu) \<union> free_area bs = F"
proof -
  obtain r bs where r: "p = hdr_add r 1" "heap base bs st" "in_use base bs st (r, nu)" "free_area bs \<union> area (r, nu) = F"
    using assms by (auto simp: handed_out_def)
  have "8 dvd unat r" using r(3) by (simp add: in_use_def)
  moreover have "p = r + unit_size" by (simp add: r(1) hdr_add_def)
  ultimately show ?thesis using r(2,4) in_use_apart [OF r(3)] by blast
qed

text \<open>
  C24: \<open>malloc\<close> is correct.  For a request of at most \<open>2\<^sup>29\<close> bytes it ends; it returns null only when the
  process cannot grow by as much as \<open>morecore\<close> asks for, and then the free blocks are as before.
  Otherwise it returns the address after the header of a block that has the requested bytes, starts
  at a multiple of 8, belonged to the free memory or to what the process has grown by, and overlaps
  none of the blocks that are free afterwards; all the rest is still free, and the list keeps its
  order.
\<close>

theorem malloc_correct:
  assumes "allocator base bs st" and "unat nbytes \<le> 2 ^ 29" and "2 * length bs + 4 \<le> fuel"
  shows "runs (malloc fuel base nbytes st) (\<lambda>(p, st').
    if p = 0 then limit st < unat (brk st) + 8 * max 4096 (unat (units nbytes)) \<and> heap base bs st'
    else \<exists>r bs'. p = r + unit_size \<and> 8 dvd unat r \<and> unat nbytes \<le> 8 * (unat (units nbytes) - 1) \<and> heap base bs' st'
      \<and> area (r, units nbytes) \<inter> free_area bs' = {}
      \<and> area (r, units nbytes) \<union> free_area bs' = free_area bs \<union> {unat (brk st)..<unat (brk st')})"
proof -
  have "unat nbytes \<le> 8 * (unat (units nbytes) - 1)" unfolding unat_units [OF assms(2)] by simp
  then show ?thesis
    by (intro runs_mono [OF malloc_spec [OF assms]]) (auto simp: grow_def dest!: handed_outD split: if_splits)
qed

definition fresh_ust :: ust where
  "fresh_ust = \<lparr>nxt = (\<lambda>_. 0), siz = (\<lambda>_. 0), freep = 0, brk = 0x4000, limit = 2 ^ 20\<rparr>"

lemma fresh_allocator: "allocator 0x1000 [] fresh_ust"
  by (simp add: allocator_def fresh_ust_def)

theorem malloc_correct_witness:
  "runs (malloc 4 0x1000 100 fresh_ust) (\<lambda>(p, st').
    if p = 0 then limit fresh_ust < unat (brk fresh_ust) + 8 * max 4096 (unat (units 100)) \<and> heap 0x1000 [] st'
    else \<exists>r bs'. p = r + unit_size \<and> 8 dvd unat r \<and> unat (100 :: uint) \<le> 8 * (unat (units 100) - 1) \<and> heap 0x1000 bs' st'
      \<and> area (r, units 100) \<inter> free_area bs' = {}
      \<and> area (r, units 100) \<union> free_area bs' = free_area [] \<union> {unat (brk fresh_ust)..<unat (brk st')})"
  by (rule malloc_correct [OF fresh_allocator]) simp_all

text \<open>
  C25: \<open>free\<close> undoes \<open>malloc\<close>.  A block that \<open>malloc\<close> returned can be freed; then all the memory that was
  free before, and all that the process has grown by, is free, in a list that is ordered and has no
  two blocks that touch.
\<close>

theorem malloc_free:
  assumes "allocator base bs st" and "unat nbytes \<le> 2 ^ 29" and "2 * length bs + 4 \<le> fuel"
    and "malloc fuel base nbytes st = Ret (p, st')" and "p \<noteq> 0"
  shows "\<exists>fuel' st'' bs''. free fuel' p st' = Ret st'' \<and> heap base bs'' st''
    \<and> free_area bs'' = free_area bs \<union> {unat (brk st)..<unat (brk st')}"
proof -
  have "handed_out base (units nbytes) (free_area bs \<union> {unat (brk st)..<unat (brk st')}) p st'"
    using malloc_spec [OF assms(1-3)] assms(4,5) by simp
  then obtain r bs' where r: "p = hdr_add r 1" "heap base bs' st'" "in_use base bs' st' (r, units nbytes)"
    "free_area bs' \<union> area (r, units nbytes) = free_area bs \<union> {unat (brk st)..<unat (brk st')}" by (auto simp: handed_out_def)
  have "p = fst (r, units nbytes) + unit_size" by (simp add: r(1) hdr_add_def)
  then show ?thesis using free_spec [OF r(2,3), of "length bs' + 2"] r(4) by fastforce
qed

theorem malloc_free_witness:
  "\<exists>p st'. malloc 4 0x1000 100 fresh_ust = Ret (p, st') \<and> p \<noteq> 0
    \<and> (\<exists>fuel' st'' bs''. free fuel' p st' = Ret st'' \<and> heap 0x1000 bs'' st''
      \<and> free_area bs'' = free_area [] \<union> {unat (brk fresh_ust)..<unat (brk st')})"
proof -
  have "unat (units 100) = 14" using unat_units [of 100] by simp
  then have "\<not> limit fresh_ust < unat (brk fresh_ust) + grow (units 100)" by (simp add: grow_def fresh_ust_def)
  then obtain p st' where m: "malloc 4 0x1000 100 fresh_ust = Ret (p, st')" "p \<noteq> 0"
    using malloc_spec [OF fresh_allocator, of 100 4] by (auto simp: runs_iff split: if_splits)
  have "\<exists>fuel' st'' bs''. free fuel' p st' = Ret st'' \<and> heap 0x1000 bs'' st''
      \<and> free_area bs'' = free_area [] \<union> {unat (brk fresh_ust)..<unat (brk st')}"
    by (rule malloc_free [OF fresh_allocator _ _ m]) simp_all
  then show ?thesis using m by blast
qed

text \<open>
  C26: a request of \<open>2\<^sup>32 - 1\<close> bytes succeeds.  The rounding of \<open>malloc\<close> wraps around, so with any free block it
  returns a block of a single unit, which has room for its header only.
\<close>

theorem malloc_wraps:
  assumes "heap base bs st" and "bs \<noteq> []" and "length bs < fuel"
  shows "runs (malloc fuel base (- 1) st) (\<lambda>(p, st').
    p \<noteq> 0 \<and> siz st' (p - unit_size) = 1 \<and> area (p - unit_size, 1) \<subseteq> free_area bs
    \<and> card (area (p - unit_size, 1)) = 8)"
proof -
  obtain c where c: "c \<in> set bs" using assms(2) by (meson last_in_set)
  have u: "units (- 1) = 1" by (simp add: units_def unit_size_def)
  have "snd c \<noteq> 0" using assms(1) c by (simp add: heap_def blocks_def)
  then have "1 \<le> snd c" by (simp add: word_le_nat_alt Suc_le_eq unat_gt_0)
  then obtain x where x: "malloc_loop fuel 1 (freep st) (nxt st (freep st)) st = Ret x" "handed_out base 1 (free_area bs) (fst x) (snd x)"
    using malloc_loop_fits [OF assms(1) _ c _ assms(3), of 1] by auto
  obtain r bs' where r: "fst x = r + unit_size" "in_use base bs' (snd x) (r, 1)" "free_area bs' \<union> area (r, 1) = free_area bs"
    using x(2) by (auto simp: handed_out_def hdr_add_def)
  have "siz (snd x) r = 1" "card (area (r, 1)) = 8" using r(2) by (auto simp: in_use_def area_def fin_def)
  then show ?thesis using x handed_out_not_null [OF x(2)] r freep_not_null [OF assms(1)]
    by (cases x) (auto simp: malloc_def Let_def u simp del: malloc_loop.simps)
qed

definition one_block :: ust where
  "one_block = \<lparr>nxt = (\<lambda>x. if x = 0x1000 then 0x2000 else 0x1000), siz = (\<lambda>x. if x = 0x2000 then 4 else 0),
     freep = 0x1000, brk = 0x4000, limit = 2 ^ 20\<rparr>"

theorem malloc_wraps_witness:
  "runs (malloc 2 0x1000 (- 1) one_block) (\<lambda>(p, st').
    p \<noteq> 0 \<and> siz st' (p - unit_size) = 1 \<and> area (p - unit_size, 1) \<subseteq> free_area [(0x2000, 4)] \<and> card (area (p - unit_size, 1)) = 8)"
  by (rule malloc_wraps) (simp_all add: heap_def ring_Cons blocks_def spaced_def fin_def one_block_def)

end
