(* ===== verification/Spec2Isabelle.thy ===== *)
theory Spec2Isabelle
  imports Copyout Crash Pipe Sched Trap Shrun Tools Umalloc
begin

text \<open>
  Verification of the xv6 teaching kernel with the virtual-memory project of EEE3535 (the files
  under \<^verbatim>\<open>src/\<close>).

  \<^bold>\<open>The program.\<close>  The kernel boots on one or more x86 CPUs, gives physical pages to page tables
  (\<^verbatim>\<open>kalloc.c\<close>, \<^verbatim>\<open>vm.c\<close>), runs processes (\<^verbatim>\<open>proc.c\<close>, \<^verbatim>\<open>exec.c\<close>), and serves their system calls (\<^verbatim>\<open>trap.c\<close>,
  \<^verbatim>\<open>syscall.c\<close>, \<^verbatim>\<open>sysproc.c\<close>, \<^verbatim>\<open>sysfile.c\<close>) on files, pipes and the console (\<^verbatim>\<open>file.c\<close>, \<^verbatim>\<open>pipe.c\<close>,
  \<^verbatim>\<open>console.c\<close>).  Files live in a file system (\<^verbatim>\<open>fs.c\<close>) above a redo log (\<^verbatim>\<open>log.c\<close>), a buffer cache
  (\<^verbatim>\<open>bio.c\<close>) and a disk (\<^verbatim>\<open>memide.c\<close>).  Spin locks (\<^verbatim>\<open>spinlock.c\<close>) protect data between CPUs, sleep locks
  (\<^verbatim>\<open>sleeplock.c\<close>) between processes.  User programs use a small library (\<^verbatim>\<open>ulib.c\<close>, \<^verbatim>\<open>printf.c\<close>).

  \<^bold>\<open>Results and state.\<close>  A kernel function returns an \<open>outcome\<close> (theory \<open>Prelude\<close>): \<open>Ret\<close> a value and
  the new state, \<open>Panic\<close> with the message of \<open>panic\<close>, \<open>Undef\<close> where C leaves the behaviour open (a null
  pointer, an index outside an array), or \<open>Diverge\<close> where the caller waits for someone else or a loop
  runs out of fuel.  \<open>runs m Q\<close> says that \<open>m\<close> returns and that the result satisfies \<open>Q\<close>; it is total
  correctness.  The state is one record that grows by extension as the kernel does:
  \<open>hw\<close> (CPUs, interrupt flag, \<open>Spinlock\<close>), \<open>kst\<close> (memory, free list, \<open>Kalloc\<close>), \<open>vst\<close> (kernel page
  directory, \<open>Vm\<close>), \<open>pst\<close> (locks, process table, \<open>Proc\<close>), \<open>sst\<close> (sleep locks, \<open>Sleeplock\<close>), \<open>bst\<close> (buffers,
  disk, \<open>Bio\<close>), \<open>lst\<close> (log, \<open>Log\<close>), \<open>ist\<close> (superblock, inode cache, \<open>Inode\<close>), \<open>cst\<close> (console, \<open>Console\<close>),
  \<open>fss\<close> (open files, pipes, \<open>File\<close>), \<open>kern\<close> (clock, interrupt table, \<open>Procfile\<close>).  Every operation is
  polymorphic in the extension, so it applies to the whole kernel.  Memory is a map from addresses
  to bytes; page tables and the free list are bytes of it.  The integers are 32-bit words, and signed
  ones are read with \<open>sint\<close>, so overflow wraps as on the machine.

  \<^bold>\<open>Theories.\<close>
  \<^item> \<open>Memory\<close>, \<open>Mmu\<close>: \<^verbatim>\<open>string.c\<close> on memory, \<^verbatim>\<open>mmu.h\<close>, \<^verbatim>\<open>memlayout.h\<close>, \<^verbatim>\<open>x86.h\<close>; \<open>Cstring\<close>: the string
    functions of \<^verbatim>\<open>string.c\<close> and \<^verbatim>\<open>ulib.c\<close> on lists of bytes.
  \<^item> \<open>Spinlock\<close>: \<^verbatim>\<open>spinlock.c\<close>, the round trip of \<open>acquire\<close> and \<open>release\<close>, and mutual exclusion of the
    lock protocol for any number of CPUs (the step relation \<open>lock_step\<close>).
  \<^item> \<open>Kalloc\<close>: \<^verbatim>\<open>kalloc.c\<close>; the free list is a list of distinct pages, \<open>kinit1\<close> and \<open>kinit2\<close> put every page
    on it, \<open>kalloc\<close> and \<open>kfree\<close> pop and push.  The contract of a page pool is a locale, interpreted on
    these functions and used by the page tables.
  \<^item> \<open>Vm\<close>, \<open>Pagemap\<close>, \<open>Uvm\<close>, \<open>Copyout\<close>: \<^verbatim>\<open>vm.c\<close>; a page directory is a map from pages to entries, and
    \<open>allocuvm\<close>, \<open>deallocuvm\<close>, \<open>clearpteu\<close>, \<open>uva2ka\<close> and \<open>copyout\<close> act on that map and on the frames
    as intended.
  \<^item> \<open>Proc\<close>, \<open>Procfile\<close>: \<^verbatim>\<open>proc.c\<close>; \<open>Sleeplock\<close>: \<^verbatim>\<open>sleeplock.c\<close>.  Their lemmas give the exact effect of the
    lock operations, of \<open>wakeup\<close>, \<open>acquiresleep\<close> and \<open>releasesleep\<close> on the state.
  \<^item> \<open>Bio\<close>, \<open>Bcache\<close>: \<^verbatim>\<open>bio.c\<close> and \<^verbatim>\<open>memide.c\<close>; the list of buffers is a ring in both directions that keeps
    the order of use, and the cache is a map from blocks to contents with the held and the dirty
    blocks (the predicate \<open>cache\<close>), on which \<open>bread\<close>, \<open>bwrite\<close> and \<open>brelse\<close> act as on a disk.
  \<^item> \<open>Log\<close>, \<open>Logwrite\<close>, \<open>Crash\<close>: \<^verbatim>\<open>log.c\<close>; \<open>log_write\<close> pins blocks, \<open>commit\<close> writes them in an order after
    which recovery makes the transaction atomic, whenever the machine stops.
  \<^item> \<open>Inode\<close>, \<open>Fs\<close>: \<^verbatim>\<open>fs.c\<close>; \<open>Console\<close>: \<^verbatim>\<open>console.c\<close>; \<open>File\<close>: \<^verbatim>\<open>pipe.c\<close>, \<^verbatim>\<open>file.c\<close>; \<open>Exec\<close>: \<^verbatim>\<open>exec.c\<close>; \<open>Syscall\<close>:
    \<^verbatim>\<open>syscall.c\<close>, \<^verbatim>\<open>sysproc.c\<close>; \<open>Sysfile\<close>: \<^verbatim>\<open>sysfile.c\<close>; \<open>Trap\<close>: \<^verbatim>\<open>trap.c\<close>.
  \<^item> \<open>Format\<close>: \<^verbatim>\<open>printf.c\<close>, the formatting of \<^verbatim>\<open>console.c\<close>, \<open>atoi\<close>; \<open>Grep\<close>: \<^verbatim>\<open>grep.c\<close>.

  \<^bold>\<open>Waiting and interleaving.\<close>  A function that waits (\<open>sleep\<close>, a taken spin lock) ends in \<open>Diverge\<close>
  after all the checks and state changes that precede the wait, because only another process or CPU
  can end it.  The functions that call \<open>swtch\<close> are split into the part before and the part after.
  Interleavings are explicit step relations where a property speaks about them.

  \<^bold>\<open>Fuel.\<close>  The searches of the buffer list stop after 31 nodes, one more than \<open>NBUF\<close>, and the ring
  invariant shows that this is enough.  The loops of the log and of the page tables take the number
  of their rounds, which the code computes before the loop.  Path lookup and the loops over user
  strings take the length of the string.

  \<^bold>\<open>Not modelled.\<close>  Assembly (\<^verbatim>\<open>swtch.S\<close>, \<^verbatim>\<open>trapasm.S\<close>, \<^verbatim>\<open>entry.S\<close>, \<^verbatim>\<open>bootasm.S\<close>, \<^verbatim>\<open>usys.S\<close>, \<^verbatim>\<open>initcode.S\<close>);
  code that only programs device registers (\<^verbatim>\<open>lapic.c\<close>, \<^verbatim>\<open>ioapic.c\<close>, \<^verbatim>\<open>picirq.c\<close>, the ports of \<^verbatim>\<open>ide.c\<close>,
  \<^verbatim>\<open>uart.c\<close> and \<^verbatim>\<open>kbd.c\<close>); test programs and scripts.
\<close>

end
